(* ===== verification/Go_Prelude.thy ===== *)
theory Go_Prelude
  imports Main "HOL-Library.Word" "HOL-Library.AList" "HOL-Library.Multiset"
begin

text \<open>
  The vocabulary shared by the models of the Go packages: machine integers as words, Go
  errors and panics as values, Go maps as association lists in iteration order, the two
  search and sort routines of package \<^verbatim>\<open>sort\<close> that the repository calls, and generic lemmas on
  lists.  Nothing here models a file of the repository; it models what the repository uses of
  the language and its standard library.
\<close>

unbundle bit_operations_syntax

named_theorems go_simps \<open>characteristic equations of the library routines\<close>
named_theorems wf_intros \<open>introduction rules for well-formedness invariants\<close>

subsection \<open>Machine integers\<close>

type_synonym byte = "8 word"
type_synonym u32 = "32 word"
type_synonym u64 = "64 word"

text \<open>
  An \<^verbatim>\<open>int64\<close> is the same 64 bits read in two's complement; \<open>sint\<close> reads it.  The
  conversions \<^verbatim>\<open>int64(x)\<close> and \<^verbatim>\<open>uint64(x)\<close> are the identity.  A \<^verbatim>\<open>float64\<close> is
  kept as its bit pattern, \<^verbatim>\<open>math.Float64bits\<close> and \<^verbatim>\<open>math.Float64frombits\<close> being the identity.
\<close>

type_synonym i64 = "64 word"
type_synonym f64 = "64 word"

abbreviation MaxInt64 :: i64 where "MaxInt64 \<equiv> 0x7FFFFFFFFFFFFFFF"
abbreviation MinInt64 :: i64 where "MinInt64 \<equiv> 0x8000000000000000"

lemma sint_of_int [go_simps]: "- (2 ^ 63) \<le> i \<Longrightarrow> i < 2 ^ 63 \<Longrightarrow> sint (word_of_int i :: i64) = i"
  by (simp add: signed_of_int signed_take_bit_int_eq_self)

text \<open>Go's integer division truncates towards zero (the divisor is not 0 at any call).\<close>

definition go_div :: "i64 \<Rightarrow> i64 \<Rightarrow> i64" where
  "go_div a b = word_of_int (sgn (sint a) * sgn (sint b) * (\<bar>sint a\<bar> div \<bar>sint b\<bar>))"

subsection \<open>Errors\<close>

text \<open>
  A call that can fail returns \<open>Inl\<close> of one of these, or \<open>Inr\<close> of its result.
  \<open>Panic\<close> stands for a run-time panic (index out of range, nil dereference, an explicit
  \<^verbatim>\<open>panic\<close> call); the other constructors are error values that the code returns.
\<close>

datatype go_error =
    EOF
  | ErrNotExist
  | ErrClosed
  | ErrIO
  | ErrCorrupt
  | ErrNoCandidates
  | ErrBackpressure
  | ErrUnknownCommand
  | ErrSyntax
  | ErrRange
  | ErrUnsupported
  | ErrFormat
  | ErrCancelled
  | ErrStatus int
  | Panic

type_synonym 'a res = "go_error + 'a"

definition res_bind :: "'a res \<Rightarrow> ('a \<Rightarrow> 'b res) \<Rightarrow> 'b res" where
  "res_bind r f = (case r of Inl e \<Rightarrow> Inl e | Inr x \<Rightarrow> f x)"

lemma res_bind_simps [simp]:
  "res_bind (Inl e) f = Inl e"
  "res_bind (Inr x) f = f x"
  by (simp_all add: res_bind_def)

lemma res_bind_eq_Inr: "res_bind r f = Inr y \<longleftrightarrow> (\<exists>x. r = Inr x \<and> f x = Inr y)"
  by (cases r) auto

subsection \<open>Slices\<close>

text \<open>
  The slice expression \<^verbatim>\<open>s[lo:hi]\<close> panics unless \<open>lo \<le> hi \<le> cap(s)\<close>.  Where capacity
  and length agree the bound is the length.
\<close>

definition slice :: "'a list \<Rightarrow> nat \<Rightarrow> nat \<Rightarrow> 'a list res" where
  "slice s lo hi = (if lo \<le> hi \<and> hi \<le> length s then Inr (take (hi - lo) (drop lo s)) else Inl Panic)"

lemma slice_append [simp]:
  "slice (xs @ ys) 0 (length xs) = Inr xs"
  by (simp add: slice_def)

lemma slice_ok: "lo \<le> hi \<Longrightarrow> hi \<le> length s \<Longrightarrow> slice s lo hi = Inr (take (hi - lo) (drop lo s))"
  by (simp add: slice_def)

lemma slice_middle:
  assumes "lo = length xs" and "hi = lo + length ys"
  shows "slice (xs @ ys @ zs) lo hi = Inr ys"
  using assms by (simp add: slice_def)

text \<open>Pieces of one length, laid end to end, are found again at the multiples of that length.\<close>

lemma concat_pieces:
  assumes "\<And>x. length (f x) = k" and "i < length xs"
  shows "take k (drop (i * k) (concat (map f xs) @ rest)) = f (xs ! i)"
  using assms(2)
proof (induction xs arbitrary: i)
  case (Cons x xs)
  then show ?case using assms(1) by (cases i) (simp_all add: assms(1))
qed simp

lemma length_concat_pieces: "(\<And>x. length (f x) = k) \<Longrightarrow> length (concat (map f xs)) = k * length xs"
  by (induction xs) simp_all

subsection \<open>Go maps\<close>

text \<open>
  A Go map is an association list with distinct keys, in the order in which a
  \<^verbatim>\<open>range\<close> statement visits it.  The language leaves that order open; theorems about code that
  ranges over a map are therefore stated for every list that is a permutation of its entries.
\<close>

type_synonym ('k, 'v) gomap = "('k \<times> 'v) list"

definition map_wf :: "('k, 'v) gomap \<Rightarrow> bool" where
  "map_wf m \<longleftrightarrow> distinct (map fst m)"

definition lookup :: "('k, 'v) gomap \<Rightarrow> 'k \<Rightarrow> 'v option" where
  "lookup m k = map_of m k"

definition store :: "('k, 'v) gomap \<Rightarrow> 'k \<Rightarrow> 'v \<Rightarrow> ('k, 'v) gomap" where
  "store m k v = AList.update k v m"

lemma lookup_Nil [simp]: "lookup [] k = None"
  by (simp add: lookup_def)

lemma lookup_Cons [simp]: "lookup ((k, v) # m) k' = (if k' = k then Some v else lookup m k')"
  by (simp add: lookup_def)

lemma lookup_store [simp]: "lookup (store m k v) = (lookup m)(k \<mapsto> v)"
  by (simp add: lookup_def store_def update_conv' fun_eq_iff)

lemma map_wf_Nil [simp, wf_intros]: "map_wf []"
  by (simp add: map_wf_def)

lemma map_wf_store [simp, wf_intros]: "map_wf m \<Longrightarrow> map_wf (store m k v)"
  by (simp add: map_wf_def store_def distinct_update)

lemma lookup_Some_iff: "map_wf m \<Longrightarrow> lookup m k = Some v \<longleftrightarrow> (k, v) \<in> set m"
  by (simp add: map_wf_def lookup_def map_of_eq_Some_iff)

lemma lookup_None_iff: "lookup m k = None \<longleftrightarrow> k \<notin> fst ` set m"
  by (simp add: lookup_def map_of_eq_None_iff)

lemma dom_lookup: "dom (lookup m) = fst ` set m"
  by (simp add: lookup_def[abs_def] dom_map_of_conv_image_fst)

lemma map_wf_perm: "mset m' = mset m \<Longrightarrow> map_wf m' = map_wf m"
  unfolding map_wf_def by (metis mset_eq_imp_distinct_iff mset_map)

lemma option_eq_by_Some: "(\<And>v. x = Some v \<longleftrightarrow> y = Some v) \<Longrightarrow> x = y"
  by (cases x; cases y) auto

lemma lookup_perm:
  assumes "map_wf m" and "mset m' = mset m"
  shows "lookup m' = lookup m"
proof
  fix k
  have "map_wf m'" using assms map_wf_perm by blast
  moreover have "set m' = set m" using assms(2) by (rule mset_eq_setD)
  ultimately show "lookup m' k = lookup m k"
    using assms(1) by (intro option_eq_by_Some) (simp add: lookup_Some_iff)
qed

lemma length_store: "length (store m k v) = (if k \<in> fst ` set m then length m else Suc (length m))"
  by (induction m) (auto simp: store_def)

lemma set_store_fst: "fst ` set (store m k v) = insert k (fst ` set m)"
  by (simp add: store_def dom_update)

text \<open>
  The order in which one \<^verbatim>\<open>range\<close> statement visits a map: any function that permutes its entries.
\<close>

definition range_order :: "(('k, 'v) gomap \<Rightarrow> ('k, 'v) gomap) \<Rightarrow> bool" where
  "range_order rng \<longleftrightarrow> (\<forall>m. mset (rng m) = mset m)"

lemma range_order_facts:
  assumes "range_order rng"
  shows "set (rng m) = set m" and "length (rng m) = length m" and "map_wf (rng m) = map_wf m"
    and "map_wf m \<Longrightarrow> lookup (rng m) = lookup m"
  using assms unfolding range_order_def
  by (metis mset_eq_setD, metis size_mset, metis map_wf_perm, metis lookup_perm)

subsection \<open>sort.Search\<close>

text \<open>\<^verbatim>\<open>sort.Search(n, f)\<close>: binary search for the least index at which \<open>f\<close> holds.\<close>

function search_loop :: "(nat \<Rightarrow> bool) \<Rightarrow> nat \<Rightarrow> nat \<Rightarrow> nat" where
  "search_loop f i j =
     (if i < j then
        (let h = (i + j) div 2
         in if \<not> f h then search_loop f (h + 1) j else search_loop f i h)
      else i)"
  by pat_completeness auto
termination
  by (relation "measure (\<lambda>(f, i, j). j - i)") auto

declare search_loop.simps [simp del]

definition sort_Search :: "nat \<Rightarrow> (nat \<Rightarrow> bool) \<Rightarrow> nat" where
  "sort_Search n f = search_loop f 0 n"

lemma search_loop_correct:
  assumes "i \<le> j" and "\<And>a b. a \<le> b \<Longrightarrow> b < n \<Longrightarrow> f a \<Longrightarrow> f b" and "j \<le> n"
    and "\<And>a. a < i \<Longrightarrow> \<not> f a" and "\<And>a. j \<le> a \<Longrightarrow> a < n \<Longrightarrow> f a"
  shows "search_loop f i j \<le> n \<and> (\<forall>a < search_loop f i j. \<not> f a)
    \<and> (\<forall>a. search_loop f i j \<le> a \<longrightarrow> a < n \<longrightarrow> f a)"
  using assms
proof (induction f i j rule: search_loop.induct)
  case (1 f i j)
  show ?case
  proof (cases "i < j")
    case False
    then have "search_loop f i j = i" by (simp add: search_loop.simps [of f i j])
    then show ?thesis using False "1.prems" by auto
  next
    case True
    let ?h = "(i + j) div 2"
    have h: "i \<le> ?h" "?h < j" "?h < n" using True "1.prems"(3) by auto
    show ?thesis
    proof (cases "f ?h")
      case False
      have below: "\<not> f a" if "a < ?h + 1" for a
        using that False "1.prems"(2) [of a ?h] h(3) by auto
      have "search_loop f i j = search_loop f (?h + 1) j"
        using True False by (simp add: search_loop.simps [of f i j] Let_def)
      then show ?thesis
        using "1.IH"(1) [OF True refl False] h below "1.prems" by auto
    next
      case f: True
      have above: "f a" if "?h \<le> a" "a < n" for a
        using that f "1.prems"(2) [of ?h a] by auto
      have "search_loop f i j = search_loop f i ?h"
        using True f by (simp add: search_loop.simps [of f i j] Let_def)
      then show ?thesis
        using "1.IH"(2) [OF True refl] f h above "1.prems" by auto
    qed
  qed
qed

lemma sort_Search_correct:
  assumes "\<And>a b. a \<le> b \<Longrightarrow> b < n \<Longrightarrow> f a \<Longrightarrow> f b"
  shows "sort_Search n f \<le> n" and "\<And>a. a < sort_Search n f \<Longrightarrow> \<not> f a"
    and "\<And>a. sort_Search n f \<le> a \<Longrightarrow> a < n \<Longrightarrow> f a"
  using search_loop_correct [of 0 n n f] assms unfolding sort_Search_def by auto

subsection \<open>sort.Slice\<close>

text \<open>
  \<^verbatim>\<open>sort.Slice\<close> promises a permutation that is ordered by the given comparison, and says
  that equal elements may come in any order.  Code that sorts elements whose keys can be equal
  takes the sorting routine as an argument, of which only this contract is used.
\<close>

locale slice_sorter =
  fixes srt :: "'a list \<Rightarrow> 'a list" and key :: "'a \<Rightarrow> 'k::linorder"
  assumes mset_srt: "mset (srt xs) = mset xs"
    and sorted_srt: "sorted (map key (srt xs))"
begin

lemma set_srt: "set (srt xs) = set xs"
  using mset_srt by (rule mset_eq_setD)

lemma length_srt: "length (srt xs) = length xs"
  using mset_srt by (metis size_mset)

lemma srt_Nil: "srt [] = []"
  using length_srt [of "[]"] by simp

lemma srt_eq_Nil: "srt xs = [] \<longleftrightarrow> xs = []"
  using length_srt [of xs] by auto

end

text \<open>
  The routine Go runs on slices of at most twelve elements (\<^verbatim>\<open>insertionSort_func\<close>): each
  element moves left past the elements that are greater.  \<open>ins_left\<close> moves \<open>x\<close> into the
  reversed sorted prefix.
\<close>

fun ins_left :: "('a \<Rightarrow> 'k::linorder) \<Rightarrow> 'a \<Rightarrow> 'a list \<Rightarrow> 'a list" where
  "ins_left key x [] = [x]"
| "ins_left key x (y # ys) = (if key x < key y then y # ins_left key x ys else x # y # ys)"

fun insertion_loop :: "('a \<Rightarrow> 'k::linorder) \<Rightarrow> 'a list \<Rightarrow> 'a list \<Rightarrow> 'a list" where
  "insertion_loop key acc [] = rev acc"
| "insertion_loop key acc (x # xs) = insertion_loop key (ins_left key x acc) xs"

definition insertionSort :: "('a \<Rightarrow> 'k::linorder) \<Rightarrow> 'a list \<Rightarrow> 'a list" where
  "insertionSort key xs = insertion_loop key [] xs"

lemma mset_ins_left [simp]: "mset (ins_left key x ys) = add_mset x (mset ys)"
  by (induction ys) auto

lemma set_ins_left [simp]: "set (ins_left key x ys) = insert x (set ys)"
  by (induction ys) auto

lemma sorted_ins_left:
  "sorted (map key (rev ys)) \<Longrightarrow> sorted (map key (rev (ins_left key x ys)))"
  by (induction ys) (auto simp: sorted_append)

lemma mset_insertion_loop: "mset (insertion_loop key acc xs) = mset acc + mset xs"
  by (induction xs arbitrary: acc) auto

lemma sorted_insertion_loop:
  "sorted (map key (rev acc)) \<Longrightarrow> sorted (map key (insertion_loop key acc xs))"
  by (induction xs arbitrary: acc) (auto simp: sorted_ins_left)

lemma insertionSort_sorter: "slice_sorter (insertionSort key) key"
  by unfold_locales
    (simp_all add: insertionSort_def mset_insertion_loop sorted_insertion_loop)

interpretation go_insertion: slice_sorter "insertionSort key" key for key
  by (rule insertionSort_sorter)

text \<open>Where the keys are distinct, every routine that keeps the contract gives the same list.\<close>

lemma sorted_perm_unique:
  assumes "mset xs = mset ys" and "distinct (map key xs)"
    and "sorted (map key xs)" and "sorted (map key ys)"
  shows "xs = ys"
proof (rule map_sorted_distinct_set_unique [where f = key])
  have set: "set ys = set xs" using assms(1) by (metis mset_eq_setD)
  show "inj_on key (set xs \<union> set ys)" using assms(2) set by (simp add: distinct_map)
  show "set xs = set ys" using set by simp
  show "distinct (map key ys)"
    using assms(1,2) by (metis mset_eq_imp_distinct_iff mset_map)
qed (use assms in simp_all)

lemma slice_sorter_unique:
  assumes "slice_sorter srt key" and "distinct (map key xs)"
  shows "srt xs = sort_key key xs"
proof (rule sorted_perm_unique [where key = key])
  show "mset (srt xs) = mset (sort_key key xs)"
    using slice_sorter.mset_srt [OF assms(1)] by simp
  then have "mset (map key (srt xs)) = mset (map key xs)" by simp
  then show "distinct (map key (srt xs))"
    using assms(2) by (metis mset_eq_imp_distinct_iff)
  show "sorted (map key (srt xs))"
    using slice_sorter.sorted_srt [OF assms(1)] .
  show "sorted (map key (sort_key key xs))" by simp
qed

subsection \<open>Lists\<close>

lemma drop_append_length [simp]: "drop (length xs) (xs @ ys) = ys"
  by simp

lemma sorted_key_nth_mono:
  assumes "sorted (map key xs)" and "i \<le> j" and "j < length xs"
  shows "key (xs ! i) \<le> key (xs ! j)"
  using sorted_nth_mono [OF assms(1), of i j] assms(2,3) by simp

lemma sorted_map_append:
  "sorted (map key (xs @ ys)) \<longleftrightarrow>
     sorted (map key xs) \<and> sorted (map key ys) \<and> (\<forall>x\<in>set xs. \<forall>y\<in>set ys. key x \<le> key y)"
  by (auto simp: sorted_append)

text \<open>A binary search over a sorted list cuts it where the key passes the bound.\<close>

lemma sort_Search_sorted:
  fixes xs :: "'a list" and key :: "'a \<Rightarrow> 'k::linorder"
  assumes "sorted (map key xs)" and "\<And>k k'. P k \<Longrightarrow> k \<le> k' \<Longrightarrow> P k'"
  shows "sort_Search (length xs) (\<lambda>i. P (key (xs ! i))) \<le> length xs"
    and "take (sort_Search (length xs) (\<lambda>i. P (key (xs ! i)))) xs = filter (\<lambda>x. \<not> P (key x)) xs"
    and "drop (sort_Search (length xs) (\<lambda>i. P (key (xs ! i)))) xs = filter (\<lambda>x. P (key x)) xs"
proof -
  let ?f = "\<lambda>i. P (key (xs ! i))"
  let ?n = "sort_Search (length xs) ?f"
  have mono: "?f b" if "a \<le> b" "b < length xs" "?f a" for a b
    using assms(2) [OF that(3) sorted_key_nth_mono [OF assms(1) that(1,2)]] .
  note S = sort_Search_correct [where n = "length xs" and f = ?f]
  show le: "?n \<le> length xs" by (rule S(1)) (rule mono)
  have S2: "\<not> ?f a" if "a < ?n" for a by (rule S(2) [OF mono that])
  have S3: "?f a" if "?n \<le> a" "a < length xs" for a by (rule S(3) [OF mono that])
  have lo: "\<not> P (key x)" if "x \<in> set (take ?n xs)" for x
    using that S2 le by (auto simp: in_set_conv_nth)
  have hi: "P (key x)" if "x \<in> set (drop ?n xs)" for x
    using that S3 le by (auto simp: in_set_conv_nth)
  have keep: "filter Q ys = ys" if "\<And>y. y \<in> set ys \<Longrightarrow> Q y" for Q and ys :: "'a list"
    using that by (simp add: filter_id_conv)
  have none: "filter Q ys = []" if "\<And>y. y \<in> set ys \<Longrightarrow> \<not> Q y" for Q and ys :: "'a list"
    using that by (simp add: filter_empty_conv)
  have split: "filter Q xs = filter Q (take ?n xs) @ filter Q (drop ?n xs)" for Q
    by (metis append_take_drop_id filter_append)
  have "filter (\<lambda>x. \<not> P (key x)) (take ?n xs) = take ?n xs" by (rule keep) (rule lo)
  moreover have "filter (\<lambda>x. \<not> P (key x)) (drop ?n xs) = []" by (rule none) (use hi in blast)
  ultimately show "take ?n xs = filter (\<lambda>x. \<not> P (key x)) xs" by (simp only: split append_Nil2)
  have "filter (\<lambda>x. P (key x)) (take ?n xs) = []" by (rule none) (use lo in blast)
  moreover have "filter (\<lambda>x. P (key x)) (drop ?n xs) = drop ?n xs" by (rule keep) (rule hi)
  ultimately show "drop ?n xs = filter (\<lambda>x. P (key x)) xs" by (simp only: split append_Nil)
qed

end
