(* ===== verification/Go_Float.thy ===== *)
theory Go_Float
  imports Go_Prelude
begin

text \<open>
  What the repository uses of \<^verbatim>\<open>float64\<close>: comparison and addition, on IEEE 754 bit patterns.  A finite
  number is an integer multiple of the least positive one, so a sum is computed exactly and rounded
  once, to the nearest, ties to even.  The bits of a NaN result are one fixed pattern.
\<close>

definition f64_frac :: "f64 \<Rightarrow> int" where
  "f64_frac x = uint x mod 2 ^ 52"

definition f64_exp :: "f64 \<Rightarrow> int" where
  "f64_exp x = uint x div 2 ^ 52 mod 2048"

definition f64_neg :: "f64 \<Rightarrow> bool" where
  "f64_neg x \<longleftrightarrow> uint x \<ge> 2 ^ 63"

definition f64_isNaN :: "f64 \<Rightarrow> bool" where
  "f64_isNaN x \<longleftrightarrow> f64_exp x = 2047 \<and> f64_frac x \<noteq> 0"

definition f64_isInf :: "f64 \<Rightarrow> bool" where
  "f64_isInf x \<longleftrightarrow> f64_exp x = 2047 \<and> f64_frac x = 0"

abbreviation f64_NaN :: f64 where "f64_NaN \<equiv> 0x7FF8000000000001"
abbreviation MaxFloat64 :: f64 where "MaxFloat64 \<equiv> 0x7FEFFFFFFFFFFFFF"
abbreviation NegMaxFloat64 :: f64 where "NegMaxFloat64 \<equiv> 0xFFEFFFFFFFFFFFFF"

text \<open>The order of the numbers, infinities included, is that of their magnitude bits with the sign.\<close>

definition f64_key :: "f64 \<Rightarrow> int" where
  "f64_key x = (if f64_neg x then - (uint x mod 2 ^ 63) else uint x mod 2 ^ 63)"

definition f64_lt :: "f64 \<Rightarrow> f64 \<Rightarrow> bool" where
  "f64_lt x y \<longleftrightarrow> \<not> f64_isNaN x \<and> \<not> f64_isNaN y \<and> f64_key x < f64_key y"

text \<open>The value of a finite number in units of \<open>2 ^ -1074\<close>.\<close>

definition f64_units :: "f64 \<Rightarrow> int" where
  "f64_units x =
     (let m = (if f64_exp x = 0 then f64_frac x else (f64_frac x + 2 ^ 52) * 2 ^ nat (f64_exp x - 1))
      in if f64_neg x then - m else m)"

function bit_length :: "int \<Rightarrow> nat" where
  "bit_length n = (if n \<le> 0 then 0 else Suc (bit_length (n div 2)))"
  by pat_completeness auto
termination by (relation "measure nat") auto

declare bit_length.simps [simp del]

text \<open>The bits of a magnitude given in these units, the sign apart.\<close>

definition round_units :: "int \<Rightarrow> int" where
  "round_units m =
     (let k = bit_length m - 53; q = m div 2 ^ k; r = 2 * (m mod 2 ^ k);
          q = (if r > 2 ^ k \<or> (r = 2 ^ k \<and> odd q) then q + 1 else q)
      in min (int k * 2 ^ 52 + q) (2047 * 2 ^ 52))"

definition f64_make :: "bool \<Rightarrow> int \<Rightarrow> f64" where
  "f64_make neg b = word_of_int (b + (if neg then 2 ^ 63 else 0))"

definition f64_add :: "f64 \<Rightarrow> f64 \<Rightarrow> f64" where
  "f64_add x y =
     (if f64_isNaN x \<or> f64_isNaN y then f64_NaN
      else if f64_isInf x \<and> f64_isInf y then (if f64_neg x = f64_neg y then x else f64_NaN)
      else if f64_isInf x then x
      else if f64_isInf y then y
      else
        let s = f64_units x + f64_units y in
        if s = 0 then f64_make (f64_neg x \<and> f64_neg y) 0
        else f64_make (s < 0) (round_units \<bar>s\<bar>))"

lemma f64_add_commute: "\<not> (f64_isInf x \<and> f64_isInf y) \<Longrightarrow> f64_add x y = f64_add y x"
  by (auto simp: f64_add_def Let_def add.commute conj_commute)

text \<open>A magnitude of \<open>k\<close> bits lies between \<open>2 ^ (k - 1)\<close> and \<open>2 ^ k\<close>.\<close>

lemma bit_length_bounds:
  "0 < n \<Longrightarrow> 2 ^ (bit_length n - 1) \<le> n \<and> n < 2 ^ bit_length n \<and> 0 < bit_length n"
proof (induction n rule: bit_length.induct)
  case (1 n)
  show ?case
  proof (cases "n = 1")
    case True
    then show ?thesis by (simp add: bit_length.simps [of 1] bit_length.simps [of 0])
  next
    case False
    then have half: "0 < n div 2" using "1.prems" by simp
    then have IH: "2 ^ (bit_length (n div 2) - 1) \<le> n div 2" "n div 2 < 2 ^ bit_length (n div 2)" "0 < bit_length (n div 2)"
      using "1.IH" "1.prems" by auto
    have s: "bit_length n = Suc (bit_length (n div 2))" using "1.prems" by (simp add: bit_length.simps [of n])
    have "2 * 2 ^ (bit_length (n div 2) - 1) = (2 :: int) ^ bit_length (n div 2)"
      using IH(3) by (metis Suc_diff_1 power_Suc)
    moreover have "2 * (n div 2) \<le> n" "n < 2 * (n div 2) + 2" by presburger+
    ultimately have "2 ^ bit_length (n div 2) \<le> n" "n < 2 * 2 ^ bit_length (n div 2)" using IH(1,2) by linarith+
    then show ?thesis using s by simp
  qed
qed

lemma half_up: "0 \<le> r \<Longrightarrow> r < p \<Longrightarrow> p \<le> 2 * r \<Longrightarrow> 2 * \<bar>p - r\<bar> \<le> (p :: int)"
  by arith

text \<open>Rounding moves a magnitude by at most half a unit in the last place.\<close>

lemma round_units_nearest:
  assumes "0 < m"
  shows "\<exists>k q. round_units m = min (int k * 2 ^ 52 + q) (2047 * 2 ^ 52) \<and>
    2 * \<bar>q * 2 ^ k - m\<bar> \<le> 2 ^ k \<and> (k = 0 \<longrightarrow> q = m) \<and> q \<le> 2 ^ 53"
proof -
  let ?k = "bit_length m - 53"
  let ?q = "m div 2 ^ ?k" and ?r = "m mod 2 ^ ?k"
  let ?q' = "if 2 * ?r > 2 ^ ?k \<or> (2 * ?r = 2 ^ ?k \<and> odd ?q) then ?q + 1 else ?q"
  have e: "m = ?q * 2 ^ ?k + ?r" by (simp only: div_mult_mod_eq)
  have r: "0 \<le> ?r" "?r < 2 ^ ?k" by simp_all
  have "2 * \<bar>?q' * 2 ^ ?k - m\<bar> \<le> 2 ^ ?k"
  proof (cases "2 * ?r > 2 ^ ?k \<or> (2 * ?r = 2 ^ ?k \<and> odd ?q)")
    case True
    have "(?q + 1) * 2 ^ ?k - m = 2 ^ ?k - ?r" using e by (simp add: algebra_simps)
    moreover have "2 * ?r \<ge> 2 ^ ?k" using True by auto
    ultimately show ?thesis using half_up [OF r] True by (simp only: if_True)
  next
    case False
    have "?q * 2 ^ ?k - m = - ?r" using e by (simp add: algebra_simps)
    then show ?thesis using False r by auto
  qed
  moreover have "?k = 0 \<longrightarrow> ?q' = m" by auto
  moreover have "?q' \<le> 2 ^ 53"
  proof -
    have "m < 2 ^ (53 + ?k)"
    proof -
      have "(2 :: int) ^ bit_length m \<le> 2 ^ (53 + ?k)" by (rule power_increasing) simp_all
      then show ?thesis using bit_length_bounds [OF assms] by linarith
    qed
    then have "m < 2 ^ 53 * 2 ^ ?k" by (simp only: power_add)
    then have "?q * 2 ^ ?k < 2 ^ 53 * 2 ^ ?k" using e r by linarith
    then have "?q < 2 ^ 53" by (rule mult_right_less_imp_less) simp
    then show ?thesis by simp
  qed
  moreover have "round_units m = min (int ?k * 2 ^ 52 + ?q') (2047 * 2 ^ 52)"
    by (simp add: round_units_def Let_def)
  ultimately show ?thesis by (intro exI [of _ ?k] exI [of _ ?q'] conjI)
qed

end
