(* ===== verification/Go_Binary.thy ===== *)
theory Go_Binary
  imports Go_Prelude
begin

text \<open>
  The byte-level routines of Go's standard library that the repository calls: the
  little-endian readers and writers and the varints of package \<^verbatim>\<open>encoding/binary\<close>, the IEEE
  checksum of \<^verbatim>\<open>hash/crc32\<close> and the 64-bit FNV-1a hash of \<^verbatim>\<open>hash/fnv\<close>, with their round trips.
\<close>

subsection \<open>Little-endian integers\<close>

text \<open>\<^verbatim>\<open>PutUint32\<close> is \<open>put_le 4\<close> and \<^verbatim>\<open>PutUint64\<close> is \<open>put_le 8\<close>.\<close>

fun put_le :: "nat \<Rightarrow> 'a::len word \<Rightarrow> byte list" where
  "put_le 0 v = []"
| "put_le (Suc n) v = ucast v # put_le n (drop_bit 8 v)"

fun get_le :: "byte list \<Rightarrow> 'a::len word" where
  "get_le [] = 0"
| "get_le (b # bs) = ucast b OR push_bit 8 (get_le bs)"

lemma length_put_le [simp]: "length (put_le n v) = n"
  by (induction n v rule: put_le.induct) simp_all

lemma get_put_le_take: "get_le (put_le n v) = take_bit (8 * n) v"
proof (induction n v rule: put_le.induct)
  case (1 v)
  show ?case by simp
next
  case (2 n v)
  show ?case
    by (rule bit_word_eqI) (auto simp add: "2.IH" bit_simps)
qed

lemma get_put_le:
  fixes v :: "'a::len word"
  assumes "LENGTH('a) \<le> 8 * n"
  shows "get_le (put_le n v) = v"
  using assms by (simp add: get_put_le_take take_bit_word_eq_self)

lemma get_put_le_64 [simp]: "get_le (put_le 8 (v :: u64)) = v"
  by (simp add: get_put_le)

lemma get_put_le_32 [simp]: "get_le (put_le 4 (v :: u32)) = v"
  by (simp add: get_put_le)

subsection \<open>Variable-length integers\<close>

definition MaxVarintLen64 :: nat where
  "MaxVarintLen64 = 10"

text \<open>
  \<^verbatim>\<open>PutUvarint\<close>: seven bits a byte, least significant first, the top bit set on all but the last.
\<close>

function put_uvarint :: "u64 \<Rightarrow> byte list" where
  "put_uvarint x =
     (if x \<ge> 0x80 then (ucast x OR 0x80) # put_uvarint (drop_bit 7 x) else [ucast x])"
  by pat_completeness auto
termination
proof (relation "measure unat")
  fix x :: u64
  assume "x \<ge> 0x80"
  then have "128 \<le> unat x" by (simp add: word_le_nat_alt)
  then have "unat x div 2 ^ 7 < unat x" by simp
  then show "(drop_bit 7 x, x) \<in> measure unat"
    by (simp only: in_measure unat_drop_bit_eq) (simp only: drop_bit_eq_div)
qed simp

declare put_uvarint.simps [simp del]

text \<open>
  \<^verbatim>\<open>Uvarint\<close>: the value and the number of bytes read; 0 when the buffer ends too soon, and the
  negated count on overflow of 64 bits.  The arguments are the loop's \<open>i\<close>, \<open>s\<close> and \<open>x\<close>.
\<close>

fun uvarint_loop :: "nat \<Rightarrow> nat \<Rightarrow> u64 \<Rightarrow> byte list \<Rightarrow> u64 \<times> int" where
  "uvarint_loop i s x [] = (0, 0)"
| "uvarint_loop i s x (b # bs) =
     (if i = MaxVarintLen64 then (0, - (int i + 1))
      else if b < 0x80 then
        (if i = MaxVarintLen64 - 1 \<and> b > 1 then (0, - (int i + 1))
         else (x OR push_bit s (ucast b), int i + 1))
      else uvarint_loop (i + 1) (s + 7) (x OR push_bit s (ucast (b AND 0x7f))) bs)"

definition uvarint :: "byte list \<Rightarrow> u64 \<times> int" where
  "uvarint buf = uvarint_loop 0 0 0 buf"

text \<open>\<^verbatim>\<open>PutVarint\<close> and \<^verbatim>\<open>Varint\<close>: zig-zag coding of a signed integer.\<close>

definition zigzag :: "i64 \<Rightarrow> u64" where
  "zigzag x = (let ux = push_bit 1 x in if sint x < 0 then NOT ux else ux)"

definition unzigzag :: "u64 \<Rightarrow> i64" where
  "unzigzag ux = (let x = drop_bit 1 ux in if ux AND 1 \<noteq> 0 then NOT x else x)"

definition put_varint :: "i64 \<Rightarrow> byte list" where
  "put_varint x = put_uvarint (zigzag x)"

definition varint :: "byte list \<Rightarrow> i64 \<times> int" where
  "varint buf = (let (ux, n) = uvarint buf in (unzigzag ux, n))"

lemma sint_neg_iff_bit: "sint (x :: 'a::len word) < 0 \<longleftrightarrow> bit x (LENGTH('a) - 1)"
  by (simp add: bit_last_iff)

lemma bit_zigzag:
  "bit (zigzag x) n \<longleftrightarrow>
     (if n = 0 then sint x < 0 else n < 64 \<and> (bit x (n - 1) \<noteq> (sint x < 0)))"
  unfolding zigzag_def Let_def
  by (auto simp only: bit_not_iff bit_push_bit_iff if_True if_False split: if_splits)
    (auto simp: bit_imp_le_length)

lemma bit_unzigzag:
  "bit (unzigzag ux) n \<longleftrightarrow>
     (if bit ux 0 then n < 64 \<and> \<not> bit ux (n + 1) else bit ux (n + 1))"
proof -
  have "ux AND 1 \<noteq> 0 \<longleftrightarrow> bit ux 0"
    by (simp add: and_one_eq bit_0 odd_iff_mod_2_eq_one)
  then show ?thesis
    unfolding unzigzag_def Let_def
    by (auto simp only: bit_not_iff bit_drop_bit_eq if_True if_False o_def split: if_splits)
      (auto simp: add.commute)
qed

lemma unzigzag_zigzag [simp]: "unzigzag (zigzag x) = x"
proof (rule bit_word_eqI)
  fix n
  assume n: "n < LENGTH(64)"
  have neg: "sint x < 0 \<longleftrightarrow> bit x 63"
    using sint_neg_iff_bit [of x] by simp
  show "bit (unzigzag (zigzag x)) n = bit x n"
  proof (cases "n = 63")
    case True
    then show ?thesis by (simp add: bit_unzigzag bit_zigzag neg)
  next
    case False
    with n show ?thesis by (simp add: bit_unzigzag bit_zigzag)
  qed
qed

subsection \<open>Varint round trip\<close>

lemma put_uvarint_small: "x < 0x80 \<Longrightarrow> put_uvarint x = [ucast x]"
  by (subst put_uvarint.simps) auto

lemma put_uvarint_large: "x \<ge> 0x80 \<Longrightarrow> put_uvarint x = (ucast x OR 0x80) # put_uvarint (drop_bit 7 x)"
  by (simp only: put_uvarint.simps [of x] if_True)

lemma put_uvarint_neq_Nil [simp]: "put_uvarint x \<noteq> []"
  by (subst put_uvarint.simps) simp

text \<open>The number of bytes: one for each started group of seven bits.\<close>

lemma length_put_uvarint:
  "unat x < 2 ^ (7 * Suc k) \<Longrightarrow> length (put_uvarint x) \<le> Suc k"
proof (induction k arbitrary: x)
  case 0
  then have "x < 0x80" by (simp add: word_less_nat_alt)
  then show ?case by (simp add: put_uvarint_small)
next
  case (Suc k)
  show ?case
  proof (cases "x < 0x80")
    case True
    then show ?thesis by (simp add: put_uvarint_small)
  next
    case False
    have "unat (drop_bit 7 x) = unat x div 2 ^ 7"
      by (simp only: unat_drop_bit_eq) (simp only: drop_bit_eq_div)
    also have "\<dots> < 2 ^ (7 * Suc k)"
      using Suc.prems by (simp add: less_mult_imp_div_less power_add mult.commute)
    finally have "length (put_uvarint (drop_bit 7 x)) \<le> Suc k" by (rule Suc.IH)
    with False show ?thesis by (simp add: put_uvarint_large not_less)
  qed
qed

lemma length_put_uvarint_max: "length (put_uvarint x) \<le> MaxVarintLen64"
proof -
  have "unat x < 2 ^ (7 * Suc 9)"
    using unsigned_less [of x, where 'a = nat] by simp
  then show ?thesis
    unfolding MaxVarintLen64_def using length_put_uvarint [of x 9] by simp
qed

lemma unat_ucast_byte: "unat v < 256 \<Longrightarrow> unat (ucast (v :: u64) :: byte) = unat v"
  by (simp add: unsigned_ucast_eq unsigned_take_bit_eq take_bit_nat_eq_self)

lemma ucast_ucast_byte: "unat v < 256 \<Longrightarrow> ucast (ucast (v :: u64) :: byte) = v"
  by (simp add: word_unat_eq_iff unsigned_ucast_eq unsigned_take_bit_eq take_bit_nat_eq_self)

lemma varint_group: "push_bit s (ucast ((ucast v OR 0x80 :: byte) AND 0x7f)) OR push_bit (s + 7) (drop_bit 7 v)
    = push_bit s (v :: u64)"
proof (rule bit_word_eqI)
  fix n
  assume "n < LENGTH(64)"
  have 7: "bit (0x7f :: byte) k \<longleftrightarrow> k < 7" for k
    using bit_mask_iff [of 7 k, where 'a = byte] by (auto simp: mask_eq_exp_minus_1)
  have 8: "bit (0x80 :: byte) k \<longleftrightarrow> k = 7" for k
    using bit_exp_iff [of 7 k, where 'a = byte] by auto
  show "bit (push_bit s (ucast ((ucast v OR 0x80 :: byte) AND 0x7f)) OR push_bit (s + 7) (drop_bit 7 v)) n
      = bit (push_bit s v) n"
  proof (cases "n < s + 7")
    case True
    then show ?thesis
      using \<open>n < LENGTH(64)\<close>
      by (simp only: bit_or_iff bit_and_iff bit_push_bit_iff bit_ucast_iff 7 8) auto
  next
    case False
    then have "7 + (n - (s + 7)) = n - s" by simp
    with False show ?thesis
      by (simp only: bit_or_iff bit_and_iff bit_push_bit_iff bit_drop_bit_eq bit_ucast_iff 7 8 o_def) auto
  qed
qed

lemma not_small_or_80: "\<not> (b OR 0x80 :: byte) < 0x80"
proof
  assume "(b OR 0x80 :: byte) < 0x80"
  then have "unat (b OR 0x80) < 2 ^ 7" by (simp add: word_less_nat_alt)
  then have "take_bit 7 (unat (b OR 0x80)) = unat (b OR 0x80)" by (rule take_bit_nat_eq_self)
  then have "\<not> bit (unat (b OR 0x80)) 7" by (metis bit_take_bit_iff less_irrefl)
  then have "\<not> bit (b OR 0x80) 7" by (simp add: bit_unsigned_iff)
  then show False by (simp add: bit_or_iff)
qed

lemma uvarint_loop_put:
  assumes "unat v < 2 ^ (64 - 7 * i)" and "i < 10"
  shows "uvarint_loop i (7 * i) x (put_uvarint v @ rest) =
    (x OR push_bit (7 * i) v, int (i + length (put_uvarint v)))"
  using assms
proof (induction v arbitrary: i x rule: put_uvarint.induct)
  case (1 v)
  show ?case
  proof (cases "v < 0x80")
    case True
    have small: "unat v < 256" using True by (simp add: word_less_nat_alt)
    note u = unat_ucast_byte [OF small]
    then have "(ucast v :: byte) < 0x80"
      using True by (simp add: word_less_nat_alt)
    moreover have "\<not> (ucast v :: byte) > 1" if "i = 9"
      using "1.prems"(1) u that by (simp add: word_less_nat_alt)
    moreover note ucast_ucast_byte [OF small]
    ultimately show ?thesis
      using True "1.prems" by (auto simp: put_uvarint_small MaxVarintLen64_def)
  next
    case False
    then have ge: "v \<ge> 0x80" by simp
    then have "(128::nat) \<le> unat v" by (simp add: word_le_nat_alt)
    with "1.prems"(1) have "(2::nat) ^ 7 < 2 ^ (64 - 7 * i)" by simp
    then have i: "7 < 64 - 7 * i" by (rule power_less_imp_less_exp [rotated]) simp
    have "unat (drop_bit 7 v) = unat v div 2 ^ 7"
      by (simp only: unat_drop_bit_eq) (simp only: drop_bit_eq_div)
    also have "\<dots> < 2 ^ (64 - 7 * Suc i)"
    proof -
      have e: "(64 - 7 * Suc i) + 7 = 64 - 7 * i" using i by simp
      have "unat v < 2 ^ (64 - 7 * Suc i) * 2 ^ 7"
        using "1.prems"(1) by (simp only: power_add [symmetric] e)
      then show ?thesis by (rule less_mult_imp_div_less)
    qed
    finally have IH: "uvarint_loop (Suc i) (7 * Suc i) y (put_uvarint (drop_bit 7 v) @ rest) =
      (y OR push_bit (7 * Suc i) (drop_bit 7 v), int (Suc i + length (put_uvarint (drop_bit 7 v))))" for y
      by (rule "1.IH" [OF ge]) (use i in simp)
    have group: "push_bit (7 * i) (ucast ((ucast v OR 0x80 :: byte) AND 0x7f))
        OR push_bit (7 * Suc i) (drop_bit 7 v) = push_bit (7 * i) v"
      using varint_group [of "7 * i" v] by (simp only: mult_Suc_right add.commute)
    show ?thesis
      using i IH not_small_or_80 [of "ucast v"] group
      by (simp only: put_uvarint_large [OF ge] append_Cons uvarint_loop.simps)
        (simp add: MaxVarintLen64_def or.assoc add.commute)
  qed
qed

lemma uvarint_put [go_simps]:
  "uvarint (put_uvarint v @ rest) = (v, int (length (put_uvarint v)))"
  using uvarint_loop_put [of v 0 0 rest] unsigned_less [of v, where 'a = nat]
  by (simp add: uvarint_def)

lemma varint_put [go_simps]:
  "varint (put_varint v @ rest) = (v, int (length (put_varint v)))"
  by (simp add: varint_def put_varint_def uvarint_put)

lemma put_varint_neq_Nil [simp]: "put_varint v \<noteq> []"
  by (simp add: put_varint_def)

lemma length_put_varint_max: "length (put_varint v) \<le> MaxVarintLen64"
  by (simp add: put_varint_def length_put_uvarint_max)

lemma length_put_varint_pos: "0 < length (put_varint v)"
  by simp

lemma unat_zigzag:
  "unat (zigzag x) = nat (if sint x < 0 then - 2 * sint x - 1 else 2 * sint x)"
proof -
  let ?k = "if sint x < 0 then - 2 * sint x - 1 else 2 * sint x"
  have bounds: "0 \<le> ?k" "?k < 2 ^ 64"
    using sint_ge [of x] sint_lt [of x] by auto
  have "zigzag x = word_of_int ?k"
    by (auto simp: zigzag_def Let_def not_eq_complement of_int_sint)
  then have "uint (zigzag x) = take_bit 64 ?k"
    by (simp only: uint_word_of_int_eq) simp
  also have "\<dots> = ?k" using bounds by (rule take_bit_int_eq_self)
  finally show ?thesis by (simp add: unat_eq_nat_uint)
qed

text \<open>A signed integer of magnitude below \<open>2 ^ (7 k + 6)\<close> takes at most \<open>k + 1\<close> bytes.\<close>

lemma length_put_varint:
  assumes "- (2 ^ (7 * k + 6)) \<le> sint x" and "sint x < 2 ^ (7 * k + 6)"
  shows "length (put_varint x) \<le> Suc k"
proof -
  have "(2::int) ^ (7 * Suc k) = 2 * 2 ^ (7 * k + 6)"
    by (simp add: power_add)
  then have "(if sint x < 0 then - 2 * sint x - 1 else 2 * sint x) < 2 ^ (7 * Suc k)"
    using assms by auto
  then have "unat (zigzag x) < nat (2 ^ (7 * Suc k))"
    unfolding unat_zigzag by (subst nat_less_eq_zless) auto
  then show ?thesis
    using length_put_uvarint [of "zigzag x" k] by (simp add: put_varint_def nat_power_eq)
qed

subsection \<open>CRC-32 (IEEE)\<close>

text \<open>
  One byte of \<^verbatim>\<open>crc32.Update\<close> with \<^verbatim>\<open>crc32.IEEETable\<close>: the table entry is eight steps of the
  reversed polynomial.
\<close>

definition crc_step :: "u32 \<Rightarrow> u32" where
  "crc_step c = (if c AND 1 = 1 then drop_bit 1 c XOR 0xEDB88320 else drop_bit 1 c)"

definition crc_byte :: "u32 \<Rightarrow> byte \<Rightarrow> u32" where
  "crc_byte c b = (crc_step ^^ 8) ((c XOR ucast b) AND 0xFF) XOR drop_bit 8 c"

definition crc32_Update :: "u32 \<Rightarrow> byte list \<Rightarrow> u32" where
  "crc32_Update c bs = NOT (foldl crc_byte (NOT c) bs)"

definition crc32_ChecksumIEEE :: "byte list \<Rightarrow> u32" where
  "crc32_ChecksumIEEE bs = crc32_Update 0 bs"

lemma crc32_Update_Nil [simp]: "crc32_Update c [] = c"
  by (simp add: crc32_Update_def)

text \<open>Updating with two pieces one after the other is updating with their concatenation.\<close>

lemma crc32_Update_append [go_simps]:
  "crc32_Update c (xs @ ys) = crc32_Update (crc32_Update c xs) ys"
  by (simp add: crc32_Update_def)

subsection \<open>FNV-1a, 64 bits\<close>

definition fnv64a_offset :: u64 where
  "fnv64a_offset = 14695981039346656037"

definition fnv64a_Write :: "u64 \<Rightarrow> byte list \<Rightarrow> u64" where
  "fnv64a_Write h bs = foldl (\<lambda>h b. (h XOR ucast b) * 1099511628211) h bs"

lemma fnv64a_Write_Nil [simp]: "fnv64a_Write h [] = h"
  by (simp add: fnv64a_Write_def)

lemma fnv64a_Write_append [go_simps]:
  "fnv64a_Write h (xs @ ys) = fnv64a_Write (fnv64a_Write h xs) ys"
  by (simp add: fnv64a_Write_def)

subsection \<open>Strings as bytes\<close>

definition str_bytes :: "string \<Rightarrow> byte list" where
  "str_bytes s = map of_char s"

lemma str_bytes_append [simp]: "str_bytes (s @ t) = str_bytes s @ str_bytes t"
  by (simp add: str_bytes_def)

lemma str_bytes_Nil [simp]: "str_bytes [] = []"
  by (simp add: str_bytes_def)

end
