(* ===== verification/Wal.thy ===== *)
theory Wal
  imports Go_Binary
begin

text \<open>
  Package \<^verbatim>\<open>internal/wal\<close>: the write-ahead log.  The writer's state is the operating system's
  file, the \<^verbatim>\<open>bufio.Writer\<close> in front of it and the counters of the Go struct; the reader's
  state is the part of the file not read yet and its offset.  The lemmas show what a
  successful append adds to the log, that a record reads back, that replay of a log cut at any
  byte returns the records that lie wholly before the cut, and what a sync guarantees after a
  crash.
\<close>

subsection \<open>The file and the buffered writer below the log\<close>

text \<open>
  An \<^verbatim>\<open>os.File\<close> opened for appending.  \<open>f_synced\<close> is the length that has reached the disk;
  the environment decides how many more bytes the device takes (\<open>f_free\<close>) and whether a sync
  succeeds (\<open>f_syncok\<close>), so that every error return of the code can happen.
\<close>

record os_file =
  f_data :: "byte list"
  f_synced :: nat
  f_free :: nat
  f_syncok :: bool
  f_open :: bool

definition file_Write :: "os_file \<Rightarrow> byte list \<Rightarrow> nat \<times> bool \<times> os_file" where
  "file_Write f p =
     (if \<not> f_open f then (0, True, f)
      else let n = min (length p) (f_free f)
           in (n, n < length p, f\<lparr>f_data := f_data f @ take n p, f_free := f_free f - n\<rparr>))"

definition file_Sync :: "os_file \<Rightarrow> bool \<times> os_file" where
  "file_Sync f = (if f_open f \<and> f_syncok f then (False, f\<lparr>f_synced := length (f_data f)\<rparr>) else (True, f))"

definition file_Close :: "os_file \<Rightarrow> bool \<times> os_file" where
  "file_Close f = (\<not> f_open f, f\<lparr>f_open := False\<rparr>)"

text \<open>A \<^verbatim>\<open>bufio.Writer\<close>: what is buffered, and its sticky error.\<close>

type_synonym bufio = "byte list \<times> bool \<times> os_file"

definition bufio_Flush :: "bufio \<Rightarrow> bool \<times> bufio" where
  "bufio_Flush s = (case s of (buf, err, f) \<Rightarrow>
     if err then (True, s)
     else if buf = [] then (False, s)
     else (case file_Write f buf of (n, e, f') \<Rightarrow>
       if e then (True, (drop n buf, True, f')) else (False, ([], False, f'))))"

text \<open>\<^verbatim>\<open>bufio.NewWriterSize(f, 1<<20)\<close>: the size of the buffer.\<close>

definition bufioSize :: int where
  "bufioSize = 2 ^ 20"

text \<open>
  \<^verbatim>\<open>bufio.Writer.Write\<close>: fill the buffer and flush it while the data does not fit; data that
  does not fit an empty buffer goes to the file directly.
\<close>

function bufio_Write :: "bufio \<Rightarrow> byte list \<Rightarrow> nat \<Rightarrow> nat \<times> bool \<times> bufio" where
  "bufio_Write (buf, err, f) p nn =
     (if int (length p) > bufioSize - int (length buf) \<and> \<not> err then
        (if buf = [] then
           (case file_Write f p of (n, e, f') \<Rightarrow> bufio_Write ([], e, f') (drop n p) (nn + n))
         else
           (let n = nat (bufioSize - int (length buf)) in
            case bufio_Flush (buf @ take n p, err, f) of (e, s') \<Rightarrow>
              bufio_Write s' (drop n p) (nn + n)))
      else if err then (nn, True, (buf, err, f))
      else (nn + length p, False, (buf @ p, err, f)))"
  by pat_completeness auto
termination
  by (relation "measure (\<lambda>((buf, err, f), p, nn).
        if err then 0 else Suc (2 * length p + (if buf = [] then 0 else 1)))")
    (auto simp: file_Write_def bufio_Flush_def bufioSize_def Let_def split: if_splits prod.splits)

declare bufio_Write.simps [simp del]

subsection \<open>The writer\<close>

definition recordHeaderSize :: nat where
  "recordHeaderSize = 8"

definition defaultFsyncInterval :: int where
  "defaultFsyncInterval = 10 * 1000000"

definition defaultByteThreshold :: int where
  "defaultByteThreshold = 2 ^ 20"

text \<open>
  The struct \<^verbatim>\<open>Writer\<close>; \<open>w_buf\<close> and \<open>w_bufErr\<close> are the state of its \<^verbatim>\<open>bufio.Writer\<close>, and
  \<open>w_ticker\<close> is the period of its ticker (in nanoseconds), \<open>None\<close> once stopped.
\<close>

record wal_writer =
  w_file :: os_file
  w_buf :: "byte list"
  w_bufErr :: bool
  w_fsyncInterval :: int
  w_byteThreshold :: int
  w_bytesSinceFlush :: int
  w_ticker :: "int option"
  w_offset :: int
  w_closed :: bool

type_synonym wal_option = "wal_writer \<Rightarrow> wal_writer"

definition WithFsyncInterval :: "int \<Rightarrow> wal_option" where
  "WithFsyncInterval d w = (if d > 0 then w\<lparr>w_fsyncInterval := d\<rparr> else w)"

definition WithByteThreshold :: "int \<Rightarrow> wal_option" where
  "WithByteThreshold n w = (if n > 0 then w\<lparr>w_byteThreshold := n\<rparr> else w)"

text \<open>
  \<^verbatim>\<open>NewWriter\<close> on the file that \<^verbatim>\<open>os.OpenFile\<close> gives (created empty if it was absent); its
  error returns are those of \<^verbatim>\<open>OpenFile\<close> and \<^verbatim>\<open>Stat\<close>, passed on.
\<close>

definition NewWriter :: "os_file res \<Rightarrow> wal_option list \<Rightarrow> wal_writer res" where
  "NewWriter opened opts = res_bind opened (\<lambda>f.
     let w = \<lparr>w_file = f, w_buf = [], w_bufErr = False,
              w_fsyncInterval = defaultFsyncInterval, w_byteThreshold = defaultByteThreshold,
              w_bytesSinceFlush = 0, w_ticker = Some defaultFsyncInterval,
              w_offset = int (length (f_data f)), w_closed = False\<rparr>;
         w = foldl (\<lambda>w opt. opt w) w opts
     in Inr (if w_fsyncInterval w \<noteq> defaultFsyncInterval
             then w\<lparr>w_ticker := Some (w_fsyncInterval w)\<rparr> else w))"

text \<open>\<^verbatim>\<open>flush\<close>: the buffer to the file, then a sync; the counter is reset only when both succeed.\<close>

definition wal_flush :: "wal_writer \<Rightarrow> go_error option \<times> wal_writer" where
  "wal_flush w =
     (case bufio_Flush (w_buf w, w_bufErr w, w_file w) of (e, buf, err, f) \<Rightarrow>
        let w = w\<lparr>w_buf := buf, w_bufErr := err, w_file := f\<rparr> in
        if e then (Some ErrIO, w)
        else (case file_Sync (w_file w) of (e, f) \<Rightarrow>
          let w = w\<lparr>w_file := f\<rparr> in
          if e then (Some ErrIO, w) else (None, w\<lparr>w_bytesSinceFlush := 0\<rparr>)))"

text \<open>The record that \<^verbatim>\<open>Append\<close> builds: a length, a checksum, the data.\<close>

definition wal_record :: "byte list \<Rightarrow> byte list" where
  "wal_record data =
     put_le 4 ((of_nat (length data) :: u32) + 4) @ put_le 4 (crc32_ChecksumIEEE data) @ data"

definition Append :: "wal_writer \<Rightarrow> byte list \<Rightarrow> go_error option \<times> wal_writer" where
  "Append w data =
     (if w_closed w then (Some ErrClosed, w)
      else (case bufio_Write (w_buf w, w_bufErr w, w_file w) (wal_record data) 0 of
        (n, e, buf, err, f) \<Rightarrow>
          let w = w\<lparr>w_buf := buf, w_bufErr := err, w_file := f\<rparr> in
          if e then (Some ErrIO, w)
          else let w = w\<lparr>w_bytesSinceFlush := w_bytesSinceFlush w + int n,
                         w_offset := w_offset w + int n\<rparr> in
            if w_bytesSinceFlush w \<ge> w_byteThreshold w then wal_flush w else (None, w)))"

definition wal_Sync :: "wal_writer \<Rightarrow> go_error option \<times> wal_writer" where
  "wal_Sync w = wal_flush w"

definition wal_Offset :: "wal_writer \<Rightarrow> int" where
  "wal_Offset w = w_offset w"

text \<open>One tick of \<^verbatim>\<open>fsyncLoop\<close>: whether the loop goes on, and the writer afterwards.\<close>

definition fsyncLoop_tick :: "wal_writer \<Rightarrow> bool \<times> wal_writer" where
  "fsyncLoop_tick w =
     (if w_closed w then (False, w)
      else if w_bytesSinceFlush w > 0 then (True, snd (wal_flush w))
      else (True, w))"

definition wal_Close :: "wal_writer \<Rightarrow> go_error option \<times> wal_writer" where
  "wal_Close w =
     (if w_closed w then (None, w)
      else let w = snd (wal_flush (w\<lparr>w_closed := True, w_ticker := None\<rparr>)) in
        (case file_Close (w_file w) of (e, f) \<Rightarrow>
           (if e then Some ErrIO else None, w\<lparr>w_file := f\<rparr>)))"

subsection \<open>The reader\<close>

record wal_reader =
  r_rest :: "byte list"
  r_offset :: int

text \<open>
  \<^verbatim>\<open>NewReader\<close> and \<^verbatim>\<open>NewReaderAt\<close> on the contents of the file, \<open>None\<close> if there is none.  A seek
  past the end is allowed and reads nothing.
\<close>

definition wal_NewReader :: "byte list option \<Rightarrow> wal_reader res" where
  "wal_NewReader file = (case file of None \<Rightarrow> Inl ErrNotExist
     | Some d \<Rightarrow> Inr \<lparr>r_rest = d, r_offset = 0\<rparr>)"

definition NewReaderAt :: "byte list option \<Rightarrow> int \<Rightarrow> wal_reader res" where
  "NewReaderAt file off = (case file of None \<Rightarrow> Inl ErrNotExist
     | Some d \<Rightarrow> Inr \<lparr>r_rest = (if off > 0 then drop (nat off) d else d), r_offset = off\<rparr>)"

text \<open>
  \<^verbatim>\<open>Read\<close>: \<^verbatim>\<open>io.ReadFull\<close> that comes up short consumes what is left and gives \<^verbatim>\<open>io.EOF\<close> or
  \<^verbatim>\<open>io.ErrUnexpectedEOF\<close>, both of which the code returns as \<^verbatim>\<open>io.EOF\<close>.
\<close>

definition wal_Read :: "wal_reader \<Rightarrow> byte list res \<times> wal_reader" where
  "wal_Read r =
     (if length (r_rest r) < recordHeaderSize then (Inl EOF, r\<lparr>r_rest := []\<rparr>)
      else
        let header = take recordHeaderSize (r_rest r);
            body = drop recordHeaderSize (r_rest r);
            dataLen = (get_le (take 4 header) :: u32);
            storedCRC = (get_le (drop 4 header) :: u32) in
        if dataLen < 4 then (Inl EOF, r\<lparr>r_rest := body\<rparr>)
        else
          let n = unat (dataLen - 4) in
          if length body < n then (Inl EOF, r\<lparr>r_rest := []\<rparr>)
          else
            let data = take n body; r' = r\<lparr>r_rest := drop n body\<rparr> in
            if crc32_ChecksumIEEE data \<noteq> storedCRC then (Inl EOF, r')
            else (Inr data, r'\<lparr>r_offset := r_offset r + int recordHeaderSize + int n\<rparr>))"

lemma wal_Read_consumes:
  assumes "wal_Read r = (Inr data, r')"
  shows "length (r_rest r') < length (r_rest r)"
  using assms by (auto simp: wal_Read_def Let_def recordHeaderSize_def split: if_splits)

text \<open>The loop of \<^verbatim>\<open>Replay\<close>: read until the first error; an end of file ends it, any other error is returned.\<close>

function replay_loop :: "wal_reader \<Rightarrow> byte list list res" where
  "replay_loop r =
     (case wal_Read r of
        (Inl e, r') \<Rightarrow> if e = EOF then Inr [] else Inl e
      | (Inr data, r') \<Rightarrow> res_bind (replay_loop r') (\<lambda>es. Inr (data # es)))"
  by pat_completeness auto
termination
  by (relation "measure (\<lambda>r. length (r_rest r))") (auto dest: wal_Read_consumes [OF sym])

declare replay_loop.simps [simp del]

definition Replay :: "byte list option \<Rightarrow> int \<Rightarrow> byte list list res" where
  "Replay file off = res_bind (NewReaderAt file off) replay_loop"

subsection \<open>Reading back what was written\<close>

text \<open>A record's length field holds the data's length plus 4, so the data has to be shorter than \<open>2 ^ 32 - 4\<close> bytes.\<close>

definition fits_record :: "byte list \<Rightarrow> bool" where
  "fits_record data \<longleftrightarrow> length data + 4 < 2 ^ 32"

abbreviation wal_log :: "byte list list \<Rightarrow> byte list" where
  "wal_log ds \<equiv> concat (map wal_record ds)"

lemma length_wal_record [simp]: "length (wal_record data) = recordHeaderSize + length data"
  by (simp add: wal_record_def recordHeaderSize_def)

lemma record_header:
  assumes "fits_record data"
  shows "take 4 (take recordHeaderSize (wal_record data @ rest)) = put_le 4 ((of_nat (length data) :: u32) + 4)"
    and "drop 4 (take recordHeaderSize (wal_record data @ rest)) = put_le 4 (crc32_ChecksumIEEE data)"
    and "drop recordHeaderSize (wal_record data @ rest) = data @ rest"
  by (simp_all add: wal_record_def recordHeaderSize_def)

lemma record_length_field:
  assumes "fits_record data"
  shows "\<not> (of_nat (length data) :: u32) + 4 < 4"
    and "unat ((of_nat (length data) :: u32) + 4 - 4) = length data"
proof -
  have l: "unat (of_nat (length data) :: u32) = length data"
    using assms by (simp add: fits_record_def unat_of_nat)
  have "unat ((of_nat (length data) :: u32) + 4) = length data + 4"
    using assms by (simp add: fits_record_def unat_word_ariths unat_of_nat)
  then show "\<not> (of_nat (length data) :: u32) + 4 < 4"
    by (simp add: word_less_nat_alt)
  show "unat ((of_nat (length data) :: u32) + 4 - 4) = length data"
    using l by simp
qed

lemma wal_Read_record:
  assumes "fits_record data"
  shows "wal_Read \<lparr>r_rest = wal_record data @ rest, r_offset = off\<rparr> =
    (Inr data, \<lparr>r_rest = rest, r_offset = off + int (length (wal_record data))\<rparr>)"
  unfolding wal_Read_def Let_def wal_reader.simps record_header [OF assms] get_put_le_32
  using record_length_field [OF assms] by (simp add: recordHeaderSize_def)

text \<open>A proper prefix of a record is read as the end of the file.\<close>

lemma wal_Read_torn:
  assumes "fits_record data" and "k < length (wal_record data)"
  shows "fst (wal_Read \<lparr>r_rest = take k (wal_record data), r_offset = off\<rparr>) = Inl EOF"
proof (cases "k < recordHeaderSize")
  case True
  then show ?thesis using assms(2) by (simp add: wal_Read_def)
next
  case False
  then have t: "take k (wal_record data) = put_le 4 ((of_nat (length data) :: u32) + 4)
      @ put_le 4 (crc32_ChecksumIEEE data) @ take (k - 8) data"
    by (simp add: wal_record_def recordHeaderSize_def)
  have "k - 8 < length data" using assms(2) False by (simp add: recordHeaderSize_def)
  then show ?thesis
    unfolding t wal_Read_def Let_def
    using record_length_field [OF assms(1)] by (simp add: recordHeaderSize_def)
qed

lemma replay_loop_record:
  assumes "fits_record data"
  shows "replay_loop \<lparr>r_rest = wal_record data @ rest, r_offset = off\<rparr> =
    res_bind (replay_loop \<lparr>r_rest = rest, r_offset = off + int (length (wal_record data))\<rparr>)
      (\<lambda>es. Inr (data # es))"
  by (subst replay_loop.simps) (simp add: wal_Read_record [OF assms])

lemma replay_loop_EOF:
  "fst (wal_Read r) = Inl EOF \<Longrightarrow> replay_loop r = Inr []"
  by (subst replay_loop.simps) (cases "wal_Read r", simp)

lemma replay_loop_Nil [simp]: "replay_loop \<lparr>r_rest = [], r_offset = off\<rparr> = Inr []"
  by (rule replay_loop_EOF) (simp add: wal_Read_def recordHeaderSize_def)

lemma replay_loop_log:
  assumes "\<forall>d\<in>set ds. fits_record d"
    and "\<And>off. replay_loop \<lparr>r_rest = rest, r_offset = off\<rparr> = Inr es"
  shows "replay_loop \<lparr>r_rest = wal_log ds @ rest, r_offset = off\<rparr> = Inr (ds @ es)"
  using assms(1) by (induction ds arbitrary: off) (simp_all add: assms(2) replay_loop_record)

text \<open>The number of records that lie wholly within the first \<open>k\<close> bytes of a log.\<close>

fun whole_records :: "nat \<Rightarrow> byte list list \<Rightarrow> nat" where
  "whole_records k [] = 0"
| "whole_records k (d # ds) =
     (if length (wal_record d) \<le> k then Suc (whole_records (k - length (wal_record d)) ds) else 0)"

lemma replay_loop_cut:
  assumes "\<forall>d\<in>set ds. fits_record d"
  shows "replay_loop \<lparr>r_rest = take k (wal_log ds), r_offset = off\<rparr> = Inr (take (whole_records k ds) ds)"
  using assms
proof (induction ds arbitrary: k off)
  case Nil
  then show ?case by simp
next
  case (Cons d ds)
  show ?case
  proof (cases "length (wal_record d) \<le> k")
    case True
    then show ?thesis using Cons by (simp add: replay_loop_record)
  next
    case False
    then have "fst (wal_Read \<lparr>r_rest = take k (wal_record d), r_offset = off\<rparr>) = Inl EOF"
      using Cons.prems by (intro wal_Read_torn) auto
    then show ?thesis using False by (simp add: replay_loop_EOF)
  qed
qed

lemma whole_records_mono: "k \<le> k' \<Longrightarrow> whole_records k ds \<le> whole_records k' ds"
  by (induction ds arbitrary: k k') auto

lemma whole_records_log: "whole_records (length (wal_log ds) + n) (ds @ es) = length ds + whole_records n es"
  by (induction ds) (simp_all add: add.assoc)

subsection \<open>What the writer does to the log\<close>

text \<open>The log as the writer sees it: what is in the file and what is still buffered.\<close>

definition log_bytes :: "wal_writer \<Rightarrow> byte list" where
  "log_bytes w = f_data (w_file w) @ w_buf w"

text \<open>
  The invariant of the writer.  While the buffered writer has no error, the offset is the
  length of the log and the counter is the number of bytes that are not on disk yet.
\<close>

definition wal_wf :: "wal_writer \<Rightarrow> bool" where
  "wal_wf w \<longleftrightarrow> f_synced (w_file w) \<le> length (f_data (w_file w)) \<and>
     (\<not> w_bufErr w \<longrightarrow>
        w_offset w = int (length (log_bytes w)) \<and>
        w_bytesSinceFlush w = int (length (log_bytes w)) - int (f_synced (w_file w)))"

lemma file_Write_data:
  "file_Write f p = (n, e, f') \<Longrightarrow> f_data f' = f_data f @ take n p \<and> f_synced f' = f_synced f
     \<and> n \<le> length p \<and> (\<not> e \<longrightarrow> n = length p)"
  by (auto simp: file_Write_def Let_def split: if_splits)

lemma bufio_Flush_data:
  assumes "bufio_Flush (buf, err, f) = (e, buf', err', f')"
  shows "f_data f' @ buf' = f_data f @ buf" and "f_synced f' = f_synced f"
    and "\<not> e \<Longrightarrow> buf' = []" and "e = err'" and "length (f_data f) \<le> length (f_data f')"
    and "err \<Longrightarrow> e"
  using assms
  by (auto simp: bufio_Flush_def split: if_splits prod.splits dest!: file_Write_data)

lemma bufio_Write_data:
  assumes "bufio_Write (buf, err, f) p nn = (n, e, buf', err', f')"
  shows "\<exists>m \<le> length p. f_data f' @ buf' = f_data f @ buf @ take m p \<and> f_synced f' = f_synced f
    \<and> length (f_data f) \<le> length (f_data f') \<and> e = err' \<and> (\<not> e \<longrightarrow> m = length p \<and> n = nn + length p)"
  using assms
proof (induction "(buf, err, f)" p nn arbitrary: buf err f n e buf' err' f' rule: bufio_Write.induct)
  case (1 buf err f p nn)
  consider (direct) "int (length p) > bufioSize - int (length buf)" "\<not> err" "buf = []"
    | (fill) "int (length p) > bufioSize - int (length buf)" "\<not> err" "buf \<noteq> []"
    | (failed) err
    | (fits) "\<not> int (length p) > bufioSize - int (length buf)" "\<not> err"
    by blast
  then show ?case
  proof cases
    case direct
    obtain k e1 f1 where w: "file_Write f p = (k, e1, f1)" by (cases "file_Write f p") auto
    then have run: "bufio_Write ([], e1, f1) (drop k p) (nn + k) = (n, e, buf', err', f')"
      using "1.prems" direct by (simp add: bufio_Write.simps [of "[]" False f p nn])
    note F = file_Write_data [OF w]
    from "1.hyps"(1) [OF _ direct(3) w [symmetric] refl run] direct obtain m where
      m: "m \<le> length (drop k p)" "f_data f' @ buf' = f_data f1 @ take m (drop k p)"
         "f_synced f' = f_synced f1" "length (f_data f1) \<le> length (f_data f')" "e = err'"
         "\<not> e \<longrightarrow> m = length (drop k p) \<and> n = nn + k + length (drop k p)"
      by auto
    have "take (k + m) p = take k p @ take m (drop k p)" by (simp add: take_add)
    then show ?thesis
      using m F direct by (intro exI [of _ "k + m"]) auto
  next
    case fill
    let ?k = "nat (bufioSize - int (length buf))"
    obtain e1 buf1 err1 f1 where w: "bufio_Flush (buf @ take ?k p, err, f) = (e1, buf1, err1, f1)"
      by (cases "bufio_Flush (buf @ take ?k p, err, f)") auto
    then have run: "bufio_Write (buf1, err1, f1) (drop ?k p) (nn + ?k) = (n, e, buf', err', f')"
      using "1.prems" fill by (simp add: bufio_Write.simps [of buf] Let_def)
    note F = bufio_Flush_data [OF w]
    have "\<exists>m \<le> length (drop ?k p). f_data f' @ buf' = f_data f1 @ buf1 @ take m (drop ?k p) \<and>
        f_synced f' = f_synced f1 \<and> length (f_data f1) \<le> length (f_data f') \<and> e = err' \<and>
        (\<not> e \<longrightarrow> m = length (drop ?k p) \<and> n = nn + ?k + length (drop ?k p))"
      using "1.hyps"(2) [OF _ fill(3) refl w [symmetric]] run fill by blast
    then obtain m where
      m: "m \<le> length (drop ?k p)" "f_data f' @ buf' = f_data f1 @ buf1 @ take m (drop ?k p)"
         "f_synced f' = f_synced f1" "length (f_data f1) \<le> length (f_data f')" "e = err'"
         "\<not> e \<longrightarrow> m = length (drop ?k p) \<and> n = nn + ?k + length (drop ?k p)"
      by blast
    have t: "take (?k + m) p = take ?k p @ take m (drop ?k p)" by (simp add: take_add)
    have "f_data f' @ buf' = (f_data f1 @ buf1) @ take m (drop ?k p)" using m(2) by simp
    also have "\<dots> = f_data f @ buf @ take (?k + m) p" using F(1) t by simp
    finally show ?thesis
      using m F fill by (intro exI [of _ "?k + m"]) auto
  next
    case failed
    then show ?thesis
      using "1.prems" by (intro exI [of _ 0]) (simp add: bufio_Write.simps [of buf])
  next
    case fits
    then show ?thesis
      using "1.prems" by (intro exI [of _ "length p"]) (simp add: bufio_Write.simps [of buf])
  qed
qed

lemma wal_flush_log:
  assumes "wal_flush w = (e, w')"
  shows "log_bytes w' = log_bytes w" and "w_offset w' = w_offset w"
    and "w_closed w' = w_closed w" and "w_byteThreshold w' = w_byteThreshold w"
    and "wal_wf w \<Longrightarrow> wal_wf w'"
    and "e = None \<Longrightarrow> w_buf w' = [] \<and> f_synced (w_file w') = length (f_data (w_file w'))
      \<and> w_bytesSinceFlush w' = 0 \<and> \<not> w_bufErr w'"
proof -
  obtain e1 buf err f where F: "bufio_Flush (w_buf w, w_bufErr w, w_file w) = (e1, buf, err, f)"
    by (cases "bufio_Flush (w_buf w, w_bufErr w, w_file w)") auto
  note D = bufio_Flush_data [OF F]
  let ?w = "w\<lparr>w_buf := buf, w_bufErr := err, w_file := f\<rparr>"
  have w': "wal_flush w =
     (if e1 then (Some ErrIO, ?w)
      else if f_open f \<and> f_syncok f
           then (None, ?w\<lparr>w_file := f\<lparr>f_synced := length (f_data f)\<rparr>, w_bytesSinceFlush := 0\<rparr>)
           else (Some ErrIO, ?w))"
    by (simp add: wal_flush_def F file_Sync_def Let_def)
  show "log_bytes w' = log_bytes w" "w_offset w' = w_offset w"
    "w_closed w' = w_closed w" "w_byteThreshold w' = w_byteThreshold w"
    using assms w' D by (auto simp: log_bytes_def split: if_splits)
  then show "wal_wf w \<Longrightarrow> wal_wf w'"
    using assms w' D by (auto simp: wal_wf_def log_bytes_def split: if_splits)
  show "e = None \<Longrightarrow> w_buf w' = [] \<and> f_synced (w_file w') = length (f_data (w_file w'))
      \<and> w_bytesSinceFlush w' = 0 \<and> \<not> w_bufErr w'"
    using assms w' D by (auto split: if_splits)
qed

lemma Append_log_prefix:
  assumes "Append w d = (e, w')"
  shows "\<exists>k. log_bytes w' = log_bytes w @ take k (wal_record d)"
proof (cases "w_closed w")
  case True
  then show ?thesis using assms by (intro exI [of _ 0]) (simp add: Append_def)
next
  case False
  obtain n b buf err f where W:
    "bufio_Write (w_buf w, w_bufErr w, w_file w) (wal_record d) 0 = (n, b, buf, err, f)"
    by (cases "bufio_Write (w_buf w, w_bufErr w, w_file w) (wal_record d) 0") auto
  obtain m where "f_data f @ buf = log_bytes w @ take m (wal_record d)"
    using bufio_Write_data [OF W] by (auto simp: log_bytes_def)
  then show ?thesis
    using assms False W
    by (auto simp: Append_def Let_def log_bytes_def split: if_splits dest!: wal_flush_log(1))
qed

text \<open>The contract of a successful append.\<close>

lemma Append_ok:
  assumes "wal_wf w" and "Append w d = (None, w')"
  shows "wal_wf w'" and "log_bytes w' = log_bytes w @ wal_record d"
    and "w_offset w' = int (length (log_bytes w'))" and "\<not> w_bufErr w'" and "\<not> w_closed w'"
    and "w_byteThreshold w' = w_byteThreshold w"
    and "0 < w_byteThreshold w \<Longrightarrow> w_bytesSinceFlush w' < w_byteThreshold w"
proof -
  have opened: "\<not> w_closed w" using assms(2) by (auto simp: Append_def)
  obtain n b buf err f where W:
    "bufio_Write (w_buf w, w_bufErr w, w_file w) (wal_record d) 0 = (n, b, buf, err, f)"
    by (cases "bufio_Write (w_buf w, w_bufErr w, w_file w) (wal_record d) 0") auto
  have nb: "\<not> b" using assms(2) opened W by (auto simp: Append_def Let_def)
  have err: "\<not> w_bufErr w"
    using W nb by (auto simp: bufio_Write.simps split: if_splits)
  have D: "f_data f @ buf = log_bytes w @ wal_record d" "f_synced f = f_synced (w_file w)"
    "n = length (wal_record d)" "\<not> err" "length (f_data (w_file w)) \<le> length (f_data f)"
    using bufio_Write_data [OF W] nb by (auto simp: log_bytes_def)
  let ?w = "w\<lparr>w_buf := buf, w_bufErr := err, w_file := f,
      w_bytesSinceFlush := w_bytesSinceFlush w + int n, w_offset := w_offset w + int n\<rparr>"
  have log: "log_bytes ?w = log_bytes w @ wal_record d" using D(1) by (simp add: log_bytes_def)
  have wf: "wal_wf ?w"
    using assms(1) err D unfolding wal_wf_def log by simp
  have w': "(None, w') = (if w_bytesSinceFlush ?w \<ge> w_byteThreshold ?w then wal_flush ?w else (None, ?w))"
    using assms(2) opened W nb by (simp add: Append_def Let_def)
  show "wal_wf w'" "log_bytes w' = log_bytes w @ wal_record d" "\<not> w_bufErr w'" "\<not> w_closed w'"
    "w_byteThreshold w' = w_byteThreshold w"
    "0 < w_byteThreshold w \<Longrightarrow> w_bytesSinceFlush w' < w_byteThreshold w"
    using w' wf log D(4) opened wal_flush_log [of ?w None w'] by (auto split: if_splits)
  then show "w_offset w' = int (length (log_bytes w'))" by (simp add: wal_wf_def)
qed

subsection \<open>The log as an interface\<close>

text \<open>
  What the engine relies on: a successful append extends the log by one framed entry and the
  offset stays the length of the log.  The engine's handlers append several entries in a row.
\<close>

locale append_log =
  fixes app :: "'w \<Rightarrow> byte list \<Rightarrow> go_error option \<times> 'w"
    and contents :: "'w \<Rightarrow> byte list"
    and off :: "'w \<Rightarrow> int"
    and wf :: "'w \<Rightarrow> bool"
    and frame :: "byte list \<Rightarrow> byte list"
  assumes app_wf: "wf w \<Longrightarrow> app w d = (None, w') \<Longrightarrow> wf w'"
    and app_contents: "wf w \<Longrightarrow> app w d = (None, w') \<Longrightarrow> contents w' = contents w @ frame d"
    and app_off: "wf w \<Longrightarrow> app w d = (None, w') \<Longrightarrow> off w' = int (length (contents w'))"
    and app_fail: "app w d = (Some e, w') \<Longrightarrow> \<exists>k. contents w' = contents w @ take k (frame d)"
begin

lemma app_prefix: "wf w \<Longrightarrow> app w d = (e, w') \<Longrightarrow> \<exists>k. contents w' = contents w @ take k (frame d)"
  using app_contents app_fail by (cases e) (metis take_all_iff order_refl, blast)

lemma app_monotone: "wf w \<Longrightarrow> app w d = (e, w') \<Longrightarrow> length (contents w) \<le> length (contents w')"
  using app_prefix by fastforce

end

interpretation walog: append_log Append log_bytes wal_Offset wal_wf wal_record
proof
  fix w d w' e
  show "wal_wf w \<Longrightarrow> Append w d = (None, w') \<Longrightarrow> wal_wf w'" by (rule Append_ok(1))
  show "wal_wf w \<Longrightarrow> Append w d = (None, w') \<Longrightarrow> log_bytes w' = log_bytes w @ wal_record d"
    by (rule Append_ok(2))
  show "wal_wf w \<Longrightarrow> Append w d = (None, w') \<Longrightarrow> wal_Offset w' = int (length (log_bytes w'))"
    unfolding wal_Offset_def by (rule Append_ok(3))
  show "Append w d = (Some e, w') \<Longrightarrow> \<exists>k. log_bytes w' = log_bytes w @ take k (wal_record d)"
    by (rule Append_log_prefix)
qed

text \<open>A run of appends that all succeed.\<close>

fun Append_all :: "wal_writer \<Rightarrow> byte list list \<Rightarrow> wal_writer option" where
  "Append_all w [] = Some w"
| "Append_all w (d # ds) = (case Append w d of (None, w') \<Rightarrow> Append_all w' ds | (Some e, w') \<Rightarrow> None)"

lemma Append_all_log:
  "wal_wf w \<Longrightarrow> Append_all w ds = Some w' \<Longrightarrow> wal_wf w' \<and> log_bytes w' = log_bytes w @ wal_log ds"
proof (induction ds arbitrary: w)
  case Nil
  then show ?case by simp
next
  case (Cons d ds)
  then obtain w1 where w1: "Append w d = (None, w1)" "Append_all w1 ds = Some w'"
    by (auto split: prod.splits option.splits)
  then show ?case
    using Cons.IH [of w1] walog.app_wf [OF Cons.prems(1) w1(1)]
      walog.app_contents [OF Cons.prems(1) w1(1)] by simp
qed

text \<open>What a crash can leave of the file: a prefix that holds at least the synced bytes.\<close>

definition crash_image :: "wal_writer \<Rightarrow> byte list \<Rightarrow> bool" where
  "crash_image w d \<longleftrightarrow>
     (\<exists>k. f_synced (w_file w) \<le> k \<and> k \<le> length (f_data (w_file w)) \<and> d = take k (f_data (w_file w)))"

lemma crash_imageI:
  "f_synced (w_file w) \<le> k \<Longrightarrow> k \<le> length (f_data (w_file w)) \<Longrightarrow>
     d = take k (f_data (w_file w)) \<Longrightarrow> crash_image w d"
  by (auto simp: crash_image_def)

lemma Replay_at:
  assumes "\<forall>d\<in>set (ds1 @ ds2). fits_record d"
  shows "Replay (Some (take k (wal_log (ds1 @ ds2)))) (int (length (wal_log ds1))) =
    Inr (take (whole_records (k - length (wal_log ds1)) ds2) ds2)"
proof -
  have "drop (length (wal_log ds1)) (take k (wal_log (ds1 @ ds2))) = take (k - length (wal_log ds1)) (wal_log ds2)"
    by (simp only: drop_take map_append concat_append drop_append_length)
  moreover have "NewReaderAt (Some f) (int n) = Inr \<lparr>r_rest = drop n f, r_offset = int n\<rparr>" for f n
    by (cases n) (simp_all add: NewReaderAt_def nat_add_distrib)
  ultimately have "Replay (Some (take k (wal_log (ds1 @ ds2)))) (int (length (wal_log ds1))) =
      replay_loop \<lparr>r_rest = take (k - length (wal_log ds1)) (wal_log ds2), r_offset = int (length (wal_log ds1))\<rparr>"
    by (simp only: Replay_def res_bind_simps)
  then show ?thesis
    using replay_loop_cut [of ds2] assms by simp
qed

subsection \<open>Properties\<close>

text \<open>
  C7: Replay of a log that was cut at any byte, from the offset of any record, returns exactly
  the records after that offset that lie wholly before the cut, in order; a record cut in the
  middle is taken for the end of the file.
\<close>

theorem wal_replay_cut:
  assumes "\<forall>d\<in>set (ds1 @ ds2). fits_record d"
  shows "Replay (Some (take k (wal_log (ds1 @ ds2)))) (int (length (wal_log ds1))) =
    Inr (take (whole_records (k - length (wal_log ds1)) ds2) ds2)"
  using assms by (rule Replay_at)

theorem wal_replay_cut_witness:
  "Replay (Some (take 30 (wal_log ([[1, 2]] @ [[3], [4, 5, 6]])))) (int (length (wal_log [[1, 2]]))) =
    Inr (take (whole_records (30 - length (wal_log [[1, 2]])) [[3], [4, 5, 6]]) [[3], [4, 5, 6]])
   \<and> whole_records (30 - length (wal_log [[1, 2]])) [[3], [4, 5, 6]] = 2"
  using wal_replay_cut [of "[[1, 2]]" "[[3], [4, 5, 6]]" 30]
  by (simp add: fits_record_def recordHeaderSize_def)

text \<open>
  C6: Crash safety.  After any run of successful appends to an empty log and a successful sync,
  whatever prefix of the file a crash leaves, replay from the start returns all the appended
  records, none lost, none invented, in the order of the appends.
\<close>

theorem wal_synced_records_survive:
  assumes "wal_wf w" and "log_bytes w = []" and "Append_all w ds = Some w1"
    and "wal_Sync w1 = (None, w2)" and "\<forall>d\<in>set ds. fits_record d" and "crash_image w2 img"
  shows "Replay (Some img) 0 = Inr ds"
proof -
  have "log_bytes w1 = wal_log ds" using Append_all_log [OF assms(1,3)] assms(2) by simp
  then have "log_bytes w2 = wal_log ds" "w_buf w2 = []"
    "f_synced (w_file w2) = length (f_data (w_file w2))"
    using wal_flush_log [of w1 None w2] assms(4) by (auto simp: wal_Sync_def)
  then have "img = take (length (wal_log ds)) (wal_log ds)"
    using assms(6) by (auto simp: crash_image_def log_bytes_def)
  then show ?thesis
    using Replay_at [of "[]" ds "length (wal_log ds)"] whole_records_log [of ds 0 "[]"] assms(5) by simp
qed

text \<open>A fresh writer on an empty file, for the examples.\<close>

definition ex_writer :: wal_writer where
  "ex_writer = \<lparr>w_file = \<lparr>f_data = [], f_synced = 0, f_free = 1000, f_syncok = True, f_open = True\<rparr>,
     w_buf = [], w_bufErr = False, w_fsyncInterval = defaultFsyncInterval,
     w_byteThreshold = defaultByteThreshold, w_bytesSinceFlush = 0,
     w_ticker = Some defaultFsyncInterval, w_offset = 0, w_closed = False\<rparr>"

definition ex_appended :: wal_writer where
  "ex_appended = the (Append_all ex_writer [[7], []])"

definition ex_synced :: wal_writer where
  "ex_synced = snd (wal_Sync ex_appended)"

lemma ex_writer_new:
  "NewWriter (Inr (w_file ex_writer)) [] = Inr ex_writer"
  by (simp add: NewWriter_def ex_writer_def)

lemma ex_writer_wf: "wal_wf ex_writer" "log_bytes ex_writer = []"
  by (simp_all add: ex_writer_def wal_wf_def log_bytes_def)

lemma ex_appended_run: "Append_all ex_writer [[7], []] = Some ex_appended"
  by code_simp

lemma ex_appended_synced: "f_synced (w_file ex_appended) = 0"
  by code_simp

lemma ex_synced_run: "wal_Sync ex_appended = (None, ex_synced)"
  by code_simp

theorem wal_synced_records_survive_witness:
  "crash_image ex_synced (f_data (w_file ex_synced)) \<and>
   Replay (Some (f_data (w_file ex_synced))) 0 = Inr [[7], []]"
proof -
  have img: "crash_image ex_synced (f_data (w_file ex_synced))"
    using wal_flush_log(6) [of ex_appended None ex_synced] ex_synced_run
    by (auto simp: crash_image_def wal_Sync_def)
  have fits: "\<forall>d\<in>set [[7], []]. fits_record d" by (simp add: fits_record_def)
  show ?thesis
    using img wal_synced_records_survive [OF ex_writer_wf ex_appended_run ex_synced_run fits img] by blast
qed

text \<open>
  Between two syncs a crash can lose records, but only a suffix of them: what replay returns
  is always a prefix of the appended records that holds at least the ones synced whole.
\<close>

theorem wal_crash_loses_suffix:
  assumes "wal_wf w" and "log_bytes w = wal_log ds" and "\<forall>d\<in>set ds. fits_record d"
    and "crash_image w img"
  shows "\<exists>n. whole_records (f_synced (w_file w)) ds \<le> n \<and> n \<le> length ds \<and> Replay (Some img) 0 = Inr (take n ds)"
proof -
  obtain k where k: "f_synced (w_file w) \<le> k" "k \<le> length (f_data (w_file w))"
    "img = take k (f_data (w_file w))"
    using assms(4) by (auto simp: crash_image_def)
  have "img = take k (wal_log ds)"
    using k assms(2) by (metis log_bytes_def take_append append_Nil2 diff_is_0_eq take0)
  then have "Replay (Some img) 0 = Inr (take (whole_records k ds) ds)"
    using Replay_at [of "[]" ds k] assms(3) by simp
  moreover have "whole_records k ds \<le> length ds"
    by (induction ds arbitrary: k) auto
  ultimately show ?thesis using whole_records_mono [OF k(1)] by blast
qed

theorem wal_crash_loses_suffix_witness:
  "crash_image ex_appended [] \<and> (\<exists>n \<le> 2. Replay (Some []) 0 = Inr (take n [[7], []]))"
proof -
  have wf: "wal_wf ex_appended" "log_bytes ex_appended = wal_log [[7], []]"
    using Append_all_log [OF ex_writer_wf(1) ex_appended_run] ex_writer_wf(2) by simp_all
  have img: "crash_image ex_appended []"
    by (rule crash_imageI [where k = 0]) (simp_all add: ex_appended_synced)
  have fits: "\<forall>d\<in>set [[7], []]. fits_record d" by (simp add: fits_record_def)
  show ?thesis using img wal_crash_loses_suffix [OF wf fits img] by (auto simp: numeral_2_eq_2)
qed

text \<open>
  An append that returns nil has added exactly its record at the end of the log, has moved
  the offset to the log's new length, and leaves fewer unsynced bytes than the byte threshold; an
  append that returns an error has added at most a prefix of the record.
\<close>

theorem wal_append_contract:
  assumes "wal_wf w" and "0 < w_byteThreshold w" and "Append w d = (e, w')"
  shows "(e = None \<longrightarrow> wal_wf w' \<and> log_bytes w' = log_bytes w @ wal_record d \<and>
            w_offset w' = w_offset w + int (length (wal_record d)) \<and>
            int (length (log_bytes w')) - int (f_synced (w_file w')) < w_byteThreshold w')
       \<and> (e \<noteq> None \<longrightarrow> (\<exists>k. log_bytes w' = log_bytes w @ take k (wal_record d)))"
proof (cases e)
  case None
  note ok = Append_ok [OF assms(1) assms(3) [unfolded None]]
  have "\<not> w_bufErr w"
    using assms(3) None by (auto simp: Append_def bufio_Write.simps split: if_splits prod.splits)
  then have "w_offset w = int (length (log_bytes w))" using assms(1) by (simp add: wal_wf_def)
  moreover have "w_bytesSinceFlush w' = int (length (log_bytes w')) - int (f_synced (w_file w'))"
    using ok(1,4) by (simp add: wal_wf_def)
  ultimately show ?thesis using None ok assms(2) by simp
next
  case (Some x)
  then show ?thesis using Append_log_prefix [OF assms(3)] by simp
qed

theorem wal_append_contract_witness:
  "fst (Append ex_writer []) = None \<and> w_offset (snd (Append ex_writer [])) = 8 \<and>
   log_bytes (snd (Append ex_writer [])) = wal_record []"
proof -
  have "fst (Append ex_writer []) = None" by code_simp
  then show ?thesis
    using wal_append_contract [OF ex_writer_wf(1) _ prod.collapse [symmetric], of "[]"] ex_writer_wf(2)
    by (simp add: ex_writer_def defaultByteThreshold_def recordHeaderSize_def)
qed

text \<open>
  C15: Corruption is detected: if the data of a record no longer matches its checksum, replay
  returns the records before it and stops, whatever follows.
\<close>

theorem wal_corruption_stops_replay:
  assumes "\<forall>d\<in>set ds. fits_record d" and "fits_record d" and "length d' = length d"
    and "crc32_ChecksumIEEE d' \<noteq> crc32_ChecksumIEEE d"
  shows "Replay (Some (wal_log ds @ put_le 4 ((of_nat (length d) :: u32) + 4) @
      put_le 4 (crc32_ChecksumIEEE d) @ d' @ rest)) 0 = Inr ds"
proof -
  let ?r = "put_le 4 ((of_nat (length d) :: u32) + 4) @ put_le 4 (crc32_ChecksumIEEE d) @ d' @ rest"
  have "fst (wal_Read \<lparr>r_rest = ?r, r_offset = off\<rparr>) = Inl EOF" for off
    using record_length_field [OF assms(2)] assms(3,4)
    by (simp add: wal_Read_def recordHeaderSize_def Let_def)
  then have "replay_loop \<lparr>r_rest = ?r, r_offset = off\<rparr> = Inr []" for off
    by (rule replay_loop_EOF)
  from replay_loop_log [OF assms(1) this] show ?thesis
    by (simp add: Replay_def NewReaderAt_def)
qed

theorem wal_corruption_stops_replay_witness:
  "crc32_ChecksumIEEE [8] \<noteq> crc32_ChecksumIEEE [7] \<and>
   Replay (Some (wal_log [[]] @ put_le 4 ((of_nat (length [7 :: byte]) :: u32) + 4) @
      put_le 4 (crc32_ChecksumIEEE [7]) @ [8] @ wal_record [])) 0 = Inr [[]]"
proof -
  have ne: "crc32_ChecksumIEEE [8] \<noteq> crc32_ChecksumIEEE [7]" by code_simp
  have "\<forall>d\<in>set [[]]. fits_record d" "fits_record [7]" "length [8 :: byte] = length [7 :: byte]"
    by (simp_all add: fits_record_def)
  from wal_corruption_stops_replay [OF this ne] ne show ?thesis by blast
qed

text \<open>
  The log is not truncated when it is reopened after a crash.  If the crash tore a record
  after its header, records appended and synced afterwards are invisible to replay as long as
  they fit in the space the torn record's length field claims: they are read as its data.
\<close>

theorem wal_torn_tail_hides_appends:
  assumes "\<forall>d\<in>set ds. fits_record d" and "fits_record d" and "recordHeaderSize \<le> k"
    and "k + length (wal_log es) < length (wal_record d)"
  shows "Replay (Some (wal_log ds @ take k (wal_record d) @ wal_log es)) 0 = Inr ds"
proof -
  have t: "take k (wal_record d) = put_le 4 ((of_nat (length d) :: u32) + 4) @
      put_le 4 (crc32_ChecksumIEEE d) @ take (k - 8) d"
    using assms(3) by (simp add: wal_record_def recordHeaderSize_def)
  have len: "k - 8 + length (wal_log es) < length d" "k - 8 < length d"
    using assms(3,4) by (simp_all add: recordHeaderSize_def)
  have "fst (wal_Read \<lparr>r_rest = take k (wal_record d) @ wal_log es, r_offset = off\<rparr>) = Inl EOF" for off
    using record_length_field [OF assms(2)] len
    unfolding t by (simp add: wal_Read_def recordHeaderSize_def Let_def del: length_concat)
  then have "replay_loop \<lparr>r_rest = take k (wal_record d) @ wal_log es, r_offset = off\<rparr> = Inr []" for off
    by (rule replay_loop_EOF)
  from replay_loop_log [OF assms(1) this] show ?thesis
    by (simp add: Replay_def NewReaderAt_def)
qed

theorem wal_torn_tail_hides_appends_witness:
  "Replay (Some (wal_log [[9]] @ take 10 (wal_record (replicate 28 0)) @ wal_log [[1, 2, 3]])) 0 = Inr [[9]]"
  by (rule wal_torn_tail_hides_appends) (simp_all add: fits_record_def recordHeaderSize_def)

end
