(* ===== verification/Memtable.thy ===== *)
theory Memtable
  imports Wal
begin

text \<open>
  Package \<^verbatim>\<open>internal/memtable\<close>: the in-memory write buffer, a map from series to points kept in
  order of time.  The lemmas show the invariant, that an insert adds exactly the given points,
  and that a frozen table refuses writes until it is cleared.
\<close>

subsection \<open>Data\<close>

record point =
  Timestamp :: i64
  Value :: f64

definition ts :: "point \<Rightarrow> int" where
  "ts p = sint (Timestamp p)"

text \<open>The map of the source has an entry per series; the mutex plays no part in a sequential model.\<close>

record memtable =
  m_series :: "(u64, point list) gomap"
  m_sizeBytes :: int
  m_frozen :: bool

definition memtable_New :: memtable where
  "memtable_New = \<lparr>m_series = [], m_sizeBytes = 0, m_frozen = False\<rparr>"

subsection \<open>Operations\<close>

text \<open>
  \<^verbatim>\<open>Insert\<close> returns the table and the caller's slice, which it sorts in place.  \<open>srt\<close> is
  \<^verbatim>\<open>sort.Slice\<close> with the comparison of timestamps, which may order equal timestamps either way.
\<close>

definition memtable_Insert ::
  "(point list \<Rightarrow> point list) \<Rightarrow> memtable \<Rightarrow> u64 \<Rightarrow> point list \<Rightarrow> (memtable \<times> point list) res" where
  "memtable_Insert srt m seriesID points =
     (if m_frozen m then Inl Panic
      else if points = [] then Inr (m, points)
      else
        let points = srt points;
            existing = (case lookup (m_series m) seriesID of None \<Rightarrow> [] | Some pts \<Rightarrow> pts);
            needSort = (existing \<noteq> [] \<and> ts (hd points) < ts (last existing));
            appended = existing @ points;
            stored = (if needSort then srt appended else appended)
        in Inr (m\<lparr>m_series := store (m_series m) seriesID stored,
                  m_sizeBytes := m_sizeBytes m + int (length points) * 16\<rparr>, points))"

definition memtable_Get :: "memtable \<Rightarrow> u64 \<Rightarrow> point list" where
  "memtable_Get m seriesID = (case lookup (m_series m) seriesID of None \<Rightarrow> [] | Some pts \<Rightarrow> pts)"

definition memtable_GetAll :: "memtable \<Rightarrow> (u64, point list) gomap" where
  "memtable_GetAll m = m_series m"

definition memtable_SizeBytes :: "memtable \<Rightarrow> int" where
  "memtable_SizeBytes m = m_sizeBytes m"

text \<open>
  \<^verbatim>\<open>Freeze\<close> returns the receiver, now frozen, and a snapshot that shares its map.  The map is
  never written again through the receiver: an insert panics and \<^verbatim>\<open>Clear\<close> installs a new map.
\<close>

definition memtable_Freeze :: "memtable \<Rightarrow> memtable \<times> memtable" where
  "memtable_Freeze m =
     (let m = m\<lparr>m_frozen := True\<rparr>
      in (m, \<lparr>m_series = m_series m, m_sizeBytes = m_sizeBytes m, m_frozen = True\<rparr>))"

definition memtable_Clear :: "memtable \<Rightarrow> memtable" where
  "memtable_Clear m = m\<lparr>m_series := [], m_sizeBytes := 0, m_frozen := False\<rparr>"

definition memtable_Len :: "memtable \<Rightarrow> nat" where
  "memtable_Len m = length (m_series m)"

definition memtable_IsFrozen :: "memtable \<Rightarrow> bool" where
  "memtable_IsFrozen m = m_frozen m"

subsection \<open>Invariant\<close>

text \<open>
  One entry per series, never empty, ordered by time; the size is 16 bytes for every point.
\<close>

definition series_sorted :: "(u64, point list) gomap \<Rightarrow> bool" where
  "series_sorted s \<longleftrightarrow> map_wf s \<and> (\<forall>(i, pts)\<in>set s. pts \<noteq> [] \<and> sorted (map ts pts))"

definition points_in :: "(u64, point list) gomap \<Rightarrow> nat" where
  "points_in s = sum_list (map (length \<circ> snd) s)"

definition memtable_wf :: "memtable \<Rightarrow> bool" where
  "memtable_wf m \<longleftrightarrow> series_sorted (m_series m) \<and> m_sizeBytes m = 16 * int (points_in (m_series m))"

lemma memtable_New_wf [simp, wf_intros]: "memtable_wf memtable_New"
  by (simp add: memtable_wf_def memtable_New_def series_sorted_def points_in_def)

lemma memtable_Get_New [simp]: "memtable_Get memtable_New i = []"
  by (simp add: memtable_Get_def memtable_New_def)

lemma memtable_Get_sorted: "memtable_wf m \<Longrightarrow> sorted (map ts (memtable_Get m i))"
  by (auto simp: memtable_Get_def memtable_wf_def series_sorted_def lookup_Some_iff split: option.splits)

lemma series_sorted_store:
  "series_sorted s \<Longrightarrow> pts \<noteq> [] \<Longrightarrow> sorted (map ts pts) \<Longrightarrow> series_sorted (store s i pts)"
  unfolding series_sorted_def
  by (auto simp: lookup_Some_iff [symmetric] split: if_splits)

lemma points_in_store:
  "map_wf s \<Longrightarrow> points_in (store s i pts) + length (case lookup s i of None \<Rightarrow> [] | Some ps \<Rightarrow> ps) =
     points_in s + length pts"
proof (induction s)
  case Nil
  then show ?case by (simp add: points_in_def store_def)
next
  case (Cons e s)
  obtain j ps where e: "e = (j, ps)" by (cases e)
  have s: "map_wf s" "i = j \<Longrightarrow> lookup s i = None"
    using Cons.prems by (auto simp: e map_wf_def lookup_None_iff image_iff)
  have IH: "points_in (store s i pts) + length (case lookup s i of None \<Rightarrow> [] | Some ps \<Rightarrow> ps) =
      points_in s + length pts" using Cons.IH [OF s(1)] .
  show ?case
    using IH by (cases "i = j") (auto simp: e points_in_def store_def)
qed

lemma last_sorted_append:
  assumes "sorted (map ts xs)" and "sorted (map ts ys)" and "ys \<noteq> []"
    and "\<not> (xs \<noteq> [] \<and> ts (hd ys) < ts (last xs))"
  shows "sorted (map ts (xs @ ys))"
proof -
  have "ts x \<le> ts y" if "x \<in> set xs" "y \<in> set ys" for x y
  proof -
    have "ts x \<le> ts (last xs)"
      using that(1) assms(1) by (induction xs) auto
    moreover have "ts (hd ys) \<le> ts y"
      using that(2) assms(2) by (cases ys) auto
    ultimately show ?thesis using assms(4) that(1) by (cases xs) auto
  qed
  then show ?thesis using assms(1,2) by (simp add: sorted_append)
qed

subsection \<open>What an insert does\<close>

abbreviation time_sorter :: "(point list \<Rightarrow> point list) \<Rightarrow> bool" where
  "time_sorter srt \<equiv> slice_sorter srt ts"

lemma memtable_Insert_frozen: "m_frozen m \<Longrightarrow> memtable_Insert srt m i pts = Inl Panic"
  by (simp add: memtable_Insert_def)

lemma memtable_Insert_ok:
  assumes "time_sorter srt" and "memtable_wf m" and "\<not> m_frozen m"
  obtains m' pts' where "memtable_Insert srt m i pts = Inr (m', pts')"
    and "memtable_wf m'" and "\<not> m_frozen m'" and "pts' = srt pts"
    and "\<And>j. mset (memtable_Get m' j) = mset (memtable_Get m j) + (if j = i then mset pts else {#})"
    and "m_sizeBytes m' = m_sizeBytes m + 16 * int (length pts)"
proof (cases "pts = []")
  case True
  show ?thesis
    by (rule that [of m "[]"]) (use True assms slice_sorter.srt_Nil [OF assms(1)] in \<open>simp_all add: memtable_Insert_def\<close>)
next
  case False
  let ?pts = "srt pts"
  let ?old = "memtable_Get m i"
  let ?sort = "?old \<noteq> [] \<and> ts (hd ?pts) < ts (last ?old)"
  let ?new = "if ?sort then srt (?old @ ?pts) else ?old @ ?pts"
  let ?m = "m\<lparr>m_series := store (m_series m) i ?new, m_sizeBytes := m_sizeBytes m + int (length ?pts) * 16\<rparr>"
  note S = slice_sorter.mset_srt [OF assms(1)] slice_sorter.sorted_srt [OF assms(1)]
    slice_sorter.length_srt [OF assms(1)] slice_sorter.srt_eq_Nil [OF assms(1)]
  have ins: "memtable_Insert srt m i pts = Inr (?m, ?pts)"
    using assms(3) False by (simp add: memtable_Insert_def memtable_Get_def Let_def)
  have old: "sorted (map ts ?old)" using assms(2) by (rule memtable_Get_sorted)
  have mset: "mset ?new = mset ?old + mset pts" using S(1) by simp
  then have new: "?new \<noteq> []" using False by (simp add: S(4))
  have sorted: "sorted (map ts ?new)"
    using last_sorted_append [OF old S(2) [of pts]] S(2) S(4) [of pts] False by auto
  have wf: "memtable_wf ?m"
    unfolding memtable_wf_def
  proof
    show "series_sorted (m_series ?m)"
      using assms(2) new sorted by (auto simp: memtable_wf_def intro!: series_sorted_store)
    have "map_wf (m_series m)" using assms(2) by (simp add: memtable_wf_def series_sorted_def)
    then have "points_in (store (m_series m) i ?new) + length ?old = points_in (m_series m) + length ?new"
      unfolding memtable_Get_def by (rule points_in_store)
    moreover have "length ?new = length ?old + length ?pts"
      using S(3) by simp
    ultimately have "points_in (store (m_series m) i ?new) = points_in (m_series m) + length ?pts"
      by linarith
    then show "m_sizeBytes ?m = 16 * int (points_in (m_series ?m))"
      using assms(2) by (simp add: memtable_wf_def)
  qed
  show ?thesis
  proof (rule that [OF ins wf])
    show "mset (memtable_Get ?m j) = mset (memtable_Get m j) + (if j = i then mset pts else {#})" for j
      using mset by (cases "j = i") (simp_all add: memtable_Get_def)
  qed (use assms(3) S in simp_all)
qed

text \<open>
  Several inserts in a row, as recovery and the write handlers make them.  An insert that panics
  ends the run.
\<close>

fun insert_all :: "(point list \<Rightarrow> point list) \<Rightarrow> memtable \<Rightarrow> (u64 \<times> point list) list \<Rightarrow> memtable res" where
  "insert_all srt m [] = Inr m"
| "insert_all srt m ((i, pts) # ws) =
     res_bind (memtable_Insert srt m i pts) (\<lambda>(m', _). insert_all srt m' ws)"

text \<open>The points that a list of writes holds for one series.\<close>

definition points_for :: "u64 \<Rightarrow> (u64 \<times> point list) list \<Rightarrow> point list" where
  "points_for i ws = concat (map snd (filter (\<lambda>w. fst w = i) ws))"

lemma points_for_simps [simp]:
  "points_for i [] = []"
  "points_for i ((j, pts) # ws) = (if j = i then pts @ points_for i ws else points_for i ws)"
  "points_for i (ws @ ws') = points_for i ws @ points_for i ws'"
  by (simp_all add: points_for_def)

lemma insert_all_ok:
  assumes "time_sorter srt" and "memtable_wf m" and "\<not> m_frozen m"
  shows "\<exists>m'. insert_all srt m ws = Inr m' \<and> memtable_wf m' \<and> \<not> m_frozen m' \<and>
    (\<forall>j. mset (memtable_Get m' j) = mset (memtable_Get m j) + mset (points_for j ws))"
  using assms(2,3)
proof (induction ws arbitrary: m)
  case Nil
  then show ?case by simp
next
  case (Cons w ws)
  obtain i pts where w: "w = (i, pts)" by (cases w)
  obtain m1 pts' where m1: "memtable_Insert srt m i pts = Inr (m1, pts')" "memtable_wf m1" "\<not> m_frozen m1"
    "\<And>j. mset (memtable_Get m1 j) = mset (memtable_Get m j) + (if j = i then mset pts else {#})"
    using memtable_Insert_ok [OF assms(1) Cons.prems] by metis
  from Cons.IH [OF m1(2,3)] show ?case
    using m1(1,4) by (auto simp: w)
qed

subsection \<open>The table as an interface\<close>

text \<open>
  What the engine relies on of its write buffer: an insert into a live buffer succeeds and adds
  the given points to the given series and nothing else.
\<close>

locale write_buffer =
  fixes ins :: "'m \<Rightarrow> u64 \<Rightarrow> point list \<Rightarrow> ('m \<times> point list) res"
    and get :: "'m \<Rightarrow> u64 \<Rightarrow> point list"
    and live :: "'m \<Rightarrow> bool"
  assumes ins_ok: "live m \<Longrightarrow> \<exists>m' pts'. ins m i pts = Inr (m', pts') \<and> live m' \<and>
      (\<forall>j. mset (get m' j) = mset (get m j) + (if j = i then mset pts else {#}))"
    and get_sorted: "live m \<Longrightarrow> sorted (map ts (get m j))"
begin

lemma ins_never_panics: "live m \<Longrightarrow> ins m i pts \<noteq> Inl e"
  using ins_ok [of m i pts] by auto

lemma ins_live: "live m \<Longrightarrow> ins m i pts = Inr (m', pts') \<Longrightarrow> live m'"
  using ins_ok [of m i pts] by auto

lemma ins_get: "live m \<Longrightarrow> ins m i pts = Inr (m', pts') \<Longrightarrow>
    mset (get m' j) = mset (get m j) + (if j = i then mset pts else {#})"
  using ins_ok [of m i pts] by force

lemma ins_keeps: "live m \<Longrightarrow> ins m i pts = Inr (m', pts') \<Longrightarrow> set (get m j) \<subseteq> set (get m' j)"
  using ins_get [of m i pts m' pts' j] by (metis set_mset_mono set_mset_mset mset_subset_eq_add_left)

end

definition memtable_live :: "memtable \<Rightarrow> bool" where
  "memtable_live m \<longleftrightarrow> memtable_wf m \<and> \<not> m_frozen m"

lemma memtable_write_buffer:
  assumes "time_sorter srt"
  shows "write_buffer (memtable_Insert srt) memtable_Get memtable_live"
proof
  fix m i pts j
  assume m: "memtable_live m"
  show "sorted (map ts (memtable_Get m j))"
    using m by (simp add: memtable_live_def memtable_Get_sorted)
  show "\<exists>m' pts'. memtable_Insert srt m i pts = Inr (m', pts') \<and> memtable_live m' \<and>
      (\<forall>j. mset (memtable_Get m' j) = mset (memtable_Get m j) + (if j = i then mset pts else {#}))"
    using memtable_Insert_ok [OF assms, of m i pts] m unfolding memtable_live_def by metis
qed

interpretation mtbuf: write_buffer "memtable_Insert (insertionSort ts)" memtable_Get memtable_live
  by (rule memtable_write_buffer) (rule insertionSort_sorter)

text \<open>
  Freezing keeps the contents: the snapshot answers every query as the table did, and neither
  accepts an insert; clearing the receiver afterwards gives an empty live table and leaves the
  snapshot's points alone.
\<close>

lemma memtable_freeze_snapshot:
  assumes "memtable_wf m" and "memtable_Freeze m = (m', snap)"
  shows "memtable_GetAll snap = memtable_GetAll m" and "memtable_wf snap"
    and "memtable_Insert srt snap i pts = Inl Panic" and "memtable_Insert srt m' i pts = Inl Panic"
    and "memtable_live (memtable_Clear m')" and "memtable_Len (memtable_Clear m') = 0"
  using assms
  by (auto simp: memtable_Freeze_def Let_def memtable_GetAll_def memtable_Insert_def memtable_wf_def
      memtable_live_def memtable_Clear_def memtable_Len_def series_sorted_def points_in_def)

subsection \<open>Properties\<close>

text \<open>
  C12: Inserting into a live memtable never panics, keeps every series ordered by time, adds
  exactly the given points to the given series (as a multiset, duplicates kept) and none to
  another, grows the size by 16 bytes a point, and leaves the caller's slice as \<^verbatim>\<open>sort.Slice\<close> arranges it:
  the same points, ordered by time; this whatever order \<^verbatim>\<open>sort.Slice\<close> gives to points with equal timestamps.
\<close>

theorem memtable_insert_adds_points:
  assumes "slice_sorter srt ts" and "memtable_wf m" and "\<not> m_frozen m"
  shows "\<exists>m' pts'. memtable_Insert srt m i pts = Inr (m', pts') \<and> memtable_wf m' \<and> \<not> m_frozen m' \<and>
     pts' = srt pts \<and> mset pts' = mset pts \<and> sorted (map ts pts') \<and> sorted (map ts (memtable_Get m' i)) \<and>
     (\<forall>j. mset (memtable_Get m' j) = mset (memtable_Get m j) + (if j = i then mset pts else {#})) \<and>
     memtable_SizeBytes m' = memtable_SizeBytes m + 16 * int (length pts)"
proof -
  obtain m' pts' where "memtable_Insert srt m i pts = Inr (m', pts')"
    "memtable_wf m'" "\<not> m_frozen m'" "pts' = srt pts"
    "\<And>j. mset (memtable_Get m' j) = mset (memtable_Get m j) + (if j = i then mset pts else {#})"
    "m_sizeBytes m' = m_sizeBytes m + 16 * int (length pts)"
    using memtable_Insert_ok [OF assms] by metis
  then show ?thesis
    using slice_sorter.mset_srt [OF assms(1)] slice_sorter.sorted_srt [OF assms(1)]
    by (auto simp: memtable_Get_sorted memtable_SizeBytes_def)
qed

theorem memtable_insert_adds_points_witness:
  "\<exists>m' pts'. memtable_Insert (insertionSort ts) memtable_New 7
       [\<lparr>Timestamp = 20, Value = 1\<rparr>, \<lparr>Timestamp = 10, Value = 2\<rparr>] = Inr (m', pts') \<and>
     map ts pts' = [10, 20] \<and> sorted (map ts (memtable_Get m' 7)) \<and> memtable_SizeBytes m' = 32 \<and>
     mset (memtable_Get m' 7) = {#\<lparr>Timestamp = 20, Value = 1\<rparr>, \<lparr>Timestamp = 10, Value = 2\<rparr>#}"
proof -
  have "map ts (insertionSort ts [\<lparr>Timestamp = 20, Value = 1\<rparr>, \<lparr>Timestamp = 10, Value = 2\<rparr>]) = [10, 20]" by code_simp
  then show ?thesis
    using memtable_insert_adds_points [OF insertionSort_sorter memtable_New_wf, of 7
      "[\<lparr>Timestamp = 20, Value = 1\<rparr>, \<lparr>Timestamp = 10, Value = 2\<rparr>]"]
    by (auto simp: memtable_New_def memtable_SizeBytes_def memtable_Get_def)
qed

text \<open>
  The order in which writes arrive does not matter: after any sequence of inserts into a new
  table, a series reads as all its points in order of time (where its timestamps differ).
\<close>

theorem memtable_arrival_order_irrelevant:
  assumes "slice_sorter srt ts" and "distinct (map ts (points_for i ws))"
  shows "\<exists>m. insert_all srt memtable_New ws = Inr m \<and>
    memtable_Get m i = sort_key ts (points_for i ws)"
proof -
  obtain m where m: "insert_all srt memtable_New ws = Inr m" "memtable_wf m"
    "mset (memtable_Get m i) = mset (points_for i ws)"
    using insert_all_ok [OF assms(1) memtable_New_wf, of ws] by (auto simp: memtable_New_def memtable_Get_def)
  have "sort_key ts (points_for i ws) = memtable_Get m i"
  proof (rule sorted_perm_unique)
    show "mset (sort_key ts (points_for i ws)) = mset (memtable_Get m i)" using m(3) by simp
    have "mset (map ts (sort_key ts (points_for i ws))) = mset (map ts (points_for i ws))" by simp
    then show "distinct (map ts (sort_key ts (points_for i ws)))"
      using assms(2) mset_eq_imp_distinct_iff by blast
  qed (use m(2) in \<open>simp_all add: memtable_Get_sorted\<close>)
  then show ?thesis using m(1) by auto
qed

theorem memtable_arrival_order_irrelevant_witness:
  "\<exists>m. insert_all (insertionSort ts) memtable_New
      [(1, [\<lparr>Timestamp = 30, Value = 3\<rparr>]), (2, [\<lparr>Timestamp = 5, Value = 9\<rparr>]),
       (1, [\<lparr>Timestamp = 20, Value = 2\<rparr>, \<lparr>Timestamp = 10, Value = 1\<rparr>])] = Inr m \<and>
    memtable_Get m 1 =
      [\<lparr>Timestamp = 10, Value = 1\<rparr>, \<lparr>Timestamp = 20, Value = 2\<rparr>, \<lparr>Timestamp = 30, Value = 3\<rparr>]"
  using memtable_arrival_order_irrelevant [OF insertionSort_sorter, of 1
      "[(1, [\<lparr>Timestamp = 30, Value = 3\<rparr>]), (2, [\<lparr>Timestamp = 5, Value = 9\<rparr>]),
        (1, [\<lparr>Timestamp = 20, Value = 2\<rparr>, \<lparr>Timestamp = 10, Value = 1\<rparr>])]"]
  by (simp add: ts_def)

end
