(* ===== verification/Bitstream.thy ===== *)
theory Bitstream
  imports Memtable
begin

text \<open>
  The bit writer and reader of \<^verbatim>\<open>internal/segment/gorilla.go\<close>: bits fill bytes from the most
  significant end.  The lemmas give both an abstract meaning, a list of booleans, against which
  the encoders are verified.
\<close>

subsection \<open>The writer\<close>

record bitWriter =
  bw_buf :: "byte list"
  bw_pos :: nat

definition newBitWriter :: bitWriter where
  "newBitWriter = \<lparr>bw_buf = [], bw_pos = 0\<rparr>"

text \<open>The index written is in range whenever \<open>bw_wf\<close> holds, which every caller keeps.\<close>

definition writeBit :: "bitWriter \<Rightarrow> byte \<Rightarrow> bitWriter" where
  "writeBit bw b =
     (let buf = (if bw_pos bw mod 8 = 0 then bw_buf bw @ [0] else bw_buf bw);
          i = bw_pos bw div 8;
          buf = (if b \<noteq> 0 then buf[i := (buf ! i) OR push_bit (7 - bw_pos bw mod 8) 1] else buf)
      in \<lparr>bw_buf = buf, bw_pos = bw_pos bw + 1\<rparr>)"

text \<open>\<^verbatim>\<open>writeBits(val, nbits)\<close>: from bit \<open>nbits - 1\<close> down to bit 0.\<close>

fun writeBits :: "bitWriter \<Rightarrow> u64 \<Rightarrow> nat \<Rightarrow> bitWriter" where
  "writeBits bw val 0 = bw"
| "writeBits bw val (Suc i) = writeBits (writeBit bw (ucast (drop_bit i val AND 1))) val i"

definition bw_bytes :: "bitWriter \<Rightarrow> byte list" where
  "bw_bytes bw = bw_buf bw"

subsection \<open>The reader\<close>

record bitReader =
  br_data :: "byte list"
  br_pos :: nat

definition newBitReader :: "byte list \<Rightarrow> bitReader" where
  "newBitReader data = \<lparr>br_data = data, br_pos = 0\<rparr>"

text \<open>Past the end, \<^verbatim>\<open>readBit\<close> gives 0 and does not move.\<close>

definition readBit :: "bitReader \<Rightarrow> byte \<times> bitReader" where
  "readBit br =
     (if br_pos br \<ge> length (br_data br) * 8 then (0, br)
      else (drop_bit (7 - br_pos br mod 8) (br_data br ! (br_pos br div 8)) AND 1,
            br\<lparr>br_pos := br_pos br + 1\<rparr>))"

fun readBits_loop :: "bitReader \<Rightarrow> nat \<Rightarrow> u64 \<Rightarrow> u64 \<times> bitReader" where
  "readBits_loop br 0 val = (val, br)"
| "readBits_loop br (Suc n) val =
     (case readBit br of (b, br') \<Rightarrow> readBits_loop br' n (push_bit 1 val OR ucast b))"

definition readBits :: "bitReader \<Rightarrow> nat \<Rightarrow> u64 \<times> bitReader" where
  "readBits br nbits = readBits_loop br nbits 0"

subsection \<open>Bit positions\<close>

definition get_bit :: "byte list \<Rightarrow> nat \<Rightarrow> bool" where
  "get_bit buf i = bit (buf ! (i div 8)) (7 - i mod 8)"

definition bw_wf :: "bitWriter \<Rightarrow> bool" where
  "bw_wf bw \<longleftrightarrow> length (bw_buf bw) = (bw_pos bw + 7) div 8 \<and>
     (\<forall>i. bw_pos bw \<le> i \<longrightarrow> i < 8 * length (bw_buf bw) \<longrightarrow> \<not> get_bit (bw_buf bw) i)"

definition bw_bits :: "bitWriter \<Rightarrow> bool list" where
  "bw_bits bw = map (get_bit (bw_buf bw)) [0..<bw_pos bw]"

text \<open>The \<open>n\<close> low bits of a value, most significant first.\<close>

fun val_bits :: "u64 \<Rightarrow> nat \<Rightarrow> bool list" where
  "val_bits v 0 = []"
| "val_bits v (Suc n) = bit v n # val_bits v n"

lemma length_val_bits [simp]: "length (val_bits v n) = n"
  by (induction n) simp_all

text \<open>The bits of the data from a position on begin with the given ones.\<close>

definition has_bits :: "byte list \<Rightarrow> nat \<Rightarrow> bool list \<Rightarrow> bool" where
  "has_bits data pos bs \<longleftrightarrow> pos + length bs \<le> 8 * length data \<and>
     (\<forall>k < length bs. get_bit data (pos + k) = bs ! k)"

lemma has_bits_Nil [simp]: "has_bits data pos [] \<longleftrightarrow> pos \<le> 8 * length data"
  by (simp add: has_bits_def)

lemma has_bits_Cons [simp]:
  "has_bits data pos (b # bs) \<longleftrightarrow>
     pos < 8 * length data \<and> get_bit data pos = b \<and> has_bits data (Suc pos) bs"
  unfolding has_bits_def by (auto simp: less_Suc_eq_0_disj)

lemma has_bits_le: "has_bits data pos bs \<Longrightarrow> pos \<le> 8 * length data"
  by (simp add: has_bits_def)

lemma has_bits_append [simp]:
  "has_bits data pos (bs @ cs) \<longleftrightarrow> has_bits data pos bs \<and> has_bits data (pos + length bs) cs"
  by (induction bs arbitrary: pos) (auto dest: has_bits_le)

lemma get_bit_append: "i < 8 * length xs \<Longrightarrow> get_bit (xs @ ys) i = get_bit xs i"
  by (simp add: get_bit_def nth_append less_mult_imp_div_less mult.commute)

lemma has_bits_append_data: "has_bits xs pos bs \<Longrightarrow> has_bits (xs @ ys) pos bs"
  by (auto simp: has_bits_def get_bit_append)

lemma get_bit_drop:
  assumes "8 * n + i < 8 * length xs"
  shows "get_bit (drop n xs) i = get_bit xs (8 * n + i)"
proof -
  have "(8 * n + i) div 8 = n + i div 8" "(8 * n + i) mod 8 = i mod 8" by simp_all
  then show ?thesis using assms by (simp add: get_bit_def)
qed

lemma has_bits_drop: "has_bits xs (8 * n + pos) bs \<Longrightarrow> has_bits (drop n xs) pos bs"
  by (cases "n \<le> length xs") (auto simp: has_bits_def get_bit_drop add.assoc)

lemma bw_has_bits: "bw_wf bw \<Longrightarrow> bw_bits bw = xs @ bs \<Longrightarrow> has_bits (bw_buf bw) (length xs) bs"
proof -
  assume wf: "bw_wf bw" and eq: "bw_bits bw = xs @ bs"
  have len: "bw_pos bw = length xs + length bs" using arg_cong [OF eq, of length] by (simp add: bw_bits_def)
  have "bw_pos bw \<le> 8 * length (bw_buf bw)" using wf by (simp add: bw_wf_def)
  moreover have "get_bit (bw_buf bw) (length xs + k) = bs ! k" if "k < length bs" for k
  proof -
    have "(xs @ bs) ! (length xs + k) = get_bit (bw_buf bw) (length xs + k)"
      unfolding eq [symmetric] using that len by (simp add: bw_bits_def)
    then show ?thesis by simp
  qed
  ultimately show ?thesis using len by (simp add: has_bits_def)
qed

subsection \<open>Writing appends to the bits\<close>

lemma newBitWriter_wf [simp]: "bw_wf newBitWriter" "bw_bits newBitWriter = []"
  by (simp_all add: bw_wf_def bw_bits_def newBitWriter_def)

text \<open>Setting bit \<open>j\<close> of a buffer, counted from the most significant bit of its first byte.\<close>

lemma get_bit_set:
  assumes "j < 8 * length buf"
  shows "get_bit (buf[j div 8 := (buf ! (j div 8)) OR push_bit (7 - j mod 8) 1]) i
    \<longleftrightarrow> get_bit buf i \<or> i = j"
proof (cases "i div 8 = j div 8")
  case False
  then show ?thesis by (auto simp: get_bit_def)
next
  case True
  have j: "j div 8 < length buf" using assms by (simp add: less_mult_imp_div_less mult.commute)
  have one: "bit (push_bit (7 - j mod 8) (1 :: byte)) n \<longleftrightarrow> n = 7 - j mod 8" for n
    by (auto simp only: bit_push_bit_iff bit_1_iff) auto
  have "7 - i mod 8 = 7 - j mod 8 \<longleftrightarrow> i = j"
  proof
    assume "7 - i mod 8 = 7 - j mod 8"
    moreover have "i mod 8 < 8" "j mod 8 < 8" by simp_all
    ultimately have "i mod 8 = j mod 8" by linarith
    then show "i = j" using True by (metis div_mult_mod_eq)
  qed simp
  then show ?thesis using True j by (simp only: get_bit_def nth_list_update_eq bit_or_iff one)
qed

lemma get_bit_grow: "i < 8 * length (buf @ [0]) \<Longrightarrow> get_bit (buf @ [0 :: byte]) i \<longleftrightarrow> i < 8 * length buf \<and> get_bit buf i"
proof (cases "i < 8 * length buf")
  case False
  assume "i < 8 * length (buf @ [0 :: byte])"
  then have "i div 8 = length buf" using False by simp
  then show ?thesis using False by (simp add: get_bit_def)
qed (simp add: get_bit_append)

lemma writeBit_bits:
  assumes "bw_wf bw"
  shows "bw_wf (writeBit bw b)" and "bw_bits (writeBit bw b) = bw_bits bw @ [b \<noteq> 0]"
proof -
  let ?p = "bw_pos bw"
  let ?g = "if ?p mod 8 = 0 then bw_buf bw @ [0] else bw_buf bw"
  have l: "length (bw_buf bw) = (?p + 7) div 8" using assms by (simp add: bw_wf_def)
  have "(?p + 7) div 8 + (if ?p mod 8 = 0 then 1 else 0) = (Suc ?p + 7) div 8" by presburger
  then have len: "length ?g = (Suc ?p + 7) div 8" using l by (cases "?p mod 8 = 0") simp_all
  then have p: "?p < 8 * length ?g" by presburger
  have unset: "\<not> get_bit (bw_buf bw) i" if "?p \<le> i" "i < 8 * length (bw_buf bw)" for i
    using assms that by (auto simp: bw_wf_def)
  have g: "get_bit ?g i \<longleftrightarrow> i < ?p \<and> get_bit (bw_buf bw) i" if "i < 8 * length ?g" for i
  proof (cases "?p mod 8 = 0")
    case True
    have "8 * length (bw_buf bw) = ?p" using assms True by (simp add: bw_wf_def) presburger
    then show ?thesis using get_bit_grow [of i "bw_buf bw"] that True by auto
  next
    case False
    then show ?thesis using unset [of i] that by (cases "i < ?p") simp_all
  qed
  let ?b = "if b \<noteq> 0 then ?g[?p div 8 := (?g ! (?p div 8)) OR push_bit (7 - ?p mod 8) 1] else ?g"
  have w: "writeBit bw b = \<lparr>bw_buf = ?b, bw_pos = Suc ?p\<rparr>"
    by (simp add: writeBit_def Let_def)
  have lb: "length ?b = length ?g" by simp
  have gb: "get_bit ?b i \<longleftrightarrow> (i < ?p \<and> get_bit (bw_buf bw) i) \<or> (i = ?p \<and> b \<noteq> 0)" if "i < 8 * length ?g" for i
    using g [OF that] get_bit_set [OF p, of i] by auto
  show "bw_wf (writeBit bw b)"
    unfolding bw_wf_def w bitWriter.simps lb using len gb by auto
  have "map (get_bit ?b) [0..<?p] = map (get_bit (bw_buf bw)) [0..<?p]"
    using gb p by (intro map_cong) auto
  then show "bw_bits (writeBit bw b) = bw_bits bw @ [b \<noteq> 0]"
    unfolding bw_bits_def w bitWriter.simps using gb [OF p] by simp
qed

lemma bw_pos_writeBit [simp]: "bw_pos (writeBit bw b) = Suc (bw_pos bw)"
  by (simp add: writeBit_def Let_def)

lemma ucast_one_bit: "(ucast (drop_bit i v AND 1 :: u64) :: byte) \<noteq> 0 \<longleftrightarrow> bit v i"
proof -
  have "drop_bit i v AND 1 = of_bool (bit v i)"
    by (simp add: and_one_eq bit_iff_odd_drop_bit mod_2_eq_odd)
  then show ?thesis by simp
qed

lemma writeBits_bits:
  assumes "bw_wf bw"
  shows "bw_wf (writeBits bw v n) \<and> bw_bits (writeBits bw v n) = bw_bits bw @ val_bits v n"
  using assms
proof (induction n arbitrary: bw)
  case 0
  then show ?case by simp
next
  case (Suc n)
  let ?bw = "writeBit bw (ucast (drop_bit n v AND 1))"
  have "bw_wf ?bw" "bw_bits ?bw = bw_bits bw @ [bit v n]"
    using writeBit_bits [OF Suc.prems] ucast_one_bit by simp_all
  with Suc.IH [of ?bw] show ?case by simp
qed

subsection \<open>Reading takes from the bits\<close>

lemma readBit_bits:
  assumes "has_bits data pos (b # bs)"
  shows "readBit \<lparr>br_data = data, br_pos = pos\<rparr> = (of_bool b, \<lparr>br_data = data, br_pos = Suc pos\<rparr>)"
proof -
  have "drop_bit k (x :: byte) AND 1 = of_bool (bit x k)" for k x
    by (simp add: and_one_eq bit_iff_odd_drop_bit mod_2_eq_odd)
  then show ?thesis
    using assms by (simp add: readBit_def get_bit_def mult.commute)
qed

lemma readBits_loop_bits:
  assumes "has_bits data pos (val_bits v n)"
  shows "readBits_loop \<lparr>br_data = data, br_pos = pos\<rparr> n acc =
    (push_bit n acc OR take_bit n v, \<lparr>br_data = data, br_pos = pos + n\<rparr>)"
  using assms
proof (induction n arbitrary: pos acc)
  case 0
  then show ?case by simp
next
  case (Suc n)
  have split: "push_bit n (push_bit 1 acc OR ucast (of_bool (bit v n) :: byte)) OR take_bit n v =
      push_bit (Suc n) acc OR take_bit (Suc n) v"
  proof (rule bit_word_eqI)
    fix m assume m: "m < LENGTH(64)"
    note bits = bit_or_iff bit_push_bit_iff bit_take_bit_iff bit_ucast_iff bit_of_bool_iff
    consider "m < n" | "m = n" | k where "m = n + Suc k"
      using less_imp_Suc_add by (metis linorder_neqE_nat add_Suc_right)
    then show "bit (push_bit n (push_bit 1 acc OR ucast (of_bool (bit v n) :: byte)) OR take_bit n v) m
        = bit (push_bit (Suc n) acc OR take_bit (Suc n) v) m"
      using m by cases (simp_all only: bits, auto)
  qed
  have hb: "has_bits data pos (bit v n # val_bits v n)" using Suc.prems by simp
  then have "has_bits data (Suc pos) (val_bits v n)" by simp
  from Suc.IH [OF this] show ?case
    using readBit_bits [OF hb] split by simp
qed

lemma readBits_bits:
  "has_bits data pos (val_bits v n) \<Longrightarrow>
    readBits \<lparr>br_data = data, br_pos = pos\<rparr> n = (take_bit n v, \<lparr>br_data = data, br_pos = pos + n\<rparr>)"
  using readBits_loop_bits [of data pos v n 0] by (simp add: readBits_def)

subsection \<open>What a piece of an encoder emits\<close>

text \<open>
  \<open>emits bw bw' bs\<close>: going from \<open>bw\<close> to \<open>bw'\<close> appended the bits \<open>bs\<close> and left the bytes
  that were complete before untouched.
\<close>

definition emits :: "bitWriter \<Rightarrow> bitWriter \<Rightarrow> bool list \<Rightarrow> bool" where
  "emits bw bw' bs \<longleftrightarrow> bw_wf bw' \<and> bw_bits bw' = bw_bits bw @ bs \<and>
     take (bw_pos bw div 8) (bw_buf bw') = take (bw_pos bw div 8) (bw_buf bw)"

lemma length_bw_bits [simp]: "length (bw_bits bw) = bw_pos bw"
  by (simp add: bw_bits_def)

lemma emits_wf: "emits bw bw' bs \<Longrightarrow> bw_wf bw'"
  by (simp add: emits_def)

lemma emits_pos: "emits bw bw' bs \<Longrightarrow> bw_pos bw' = bw_pos bw + length bs"
  unfolding emits_def by (metis length_append length_bw_bits)

lemma emits_refl: "bw_wf bw \<Longrightarrow> emits bw bw []"
  by (simp add: emits_def)

lemma emits_trans [trans]:
  assumes "emits bw1 bw2 bs" and "emits bw2 bw3 cs"
  shows "emits bw1 bw3 (bs @ cs)"
proof -
  let ?n = "bw_pos bw1 div 8" and ?m = "bw_pos bw2 div 8"
  have le: "?n \<le> ?m" using emits_pos [OF assms(1)] by (simp add: div_le_mono)
  have cut: "take ?n xs = take ?n (take ?m xs)" for xs :: "byte list" using le by simp
  have "take ?n (bw_buf bw3) = take ?n (take ?m (bw_buf bw3))" by (rule cut)
  also have "\<dots> = take ?n (take ?m (bw_buf bw2))" using assms(2) by (simp add: emits_def)
  also have "\<dots> = take ?n (bw_buf bw1)" using assms(1) by (simp only: cut [symmetric] emits_def)
  finally show ?thesis using assms by (simp add: emits_def)
qed

lemma emits_writeBit: "bw_wf bw \<Longrightarrow> emits bw (writeBit bw b) [b \<noteq> 0]"
  by (auto simp: emits_def writeBit_bits) (auto simp: writeBit_def Let_def bw_wf_def)

lemma emits_writeBits: "bw_wf bw \<Longrightarrow> emits bw (writeBits bw v n) (val_bits v n)"
proof (induction n arbitrary: bw)
  case 0
  then show ?case by (simp add: emits_refl)
next
  case (Suc n)
  let ?bw = "writeBit bw (ucast (drop_bit n v AND 1))"
  have "emits bw ?bw [bit v n]" using emits_writeBit [OF Suc.prems, of "ucast (drop_bit n v AND 1)"] by (simp add: ucast_one_bit)
  also have "emits ?bw (writeBits ?bw v n) (val_bits v n)"
    using Suc.IH writeBit_bits(1) [OF Suc.prems] by blast
  finally show ?case by simp
qed

text \<open>The bits emitted can be read back at the position where the writer stood.\<close>

lemma emits_has_bits: "emits bw bw' bs \<Longrightarrow> has_bits (bw_buf bw') (bw_pos bw) bs"
  using bw_has_bits [of bw' "bw_bits bw" bs] by (simp add: emits_def)

end
