(* ===== verification/Gorilla.thy ===== *)
theory Gorilla
  imports Bitstream
begin

text \<open>
  The compression of \<^verbatim>\<open>internal/segment/gorilla.go\<close>: delta-of-delta timestamps and XOR-ed
  values.  The lemmas show what bits each encoder emits, that each decoder reads them back, and
  for which inputs the whole series round-trips; two theorems show the inputs for which it does not.
\<close>

subsection \<open>Counting zeros\<close>

text \<open>
  The loops of \<^verbatim>\<open>leadingZeros64\<close> and \<^verbatim>\<open>trailingZeros64\<close>.  They are entered with \<open>x \<noteq> 0\<close>, and a
  shift that loses a zero keeps it so; the guard \<open>x \<noteq> 0\<close> only makes the functions total.
\<close>

function leadingZeros_loop :: "nat \<Rightarrow> u64 \<Rightarrow> nat" where
  "leadingZeros_loop n x =
     (if x AND 0x8000000000000000 = 0 \<and> x \<noteq> 0 then leadingZeros_loop (n + 1) (push_bit 1 x) else n)"
  by pat_completeness auto
termination
proof (relation "measure (\<lambda>(n, x). 2 ^ 64 - unat x)", goal_cases)
  case (2 n x)
  then have a: "x AND 0x8000000000000000 = 0" and nz: "x \<noteq> 0" by simp_all
  have "bit (0x8000000000000000 :: u64) 63"
    using bit_exp_iff [of 63 63, where 'a = u64] by simp
  then have "\<not> bit x 63" using a by (metis bit_0_eq bit_and_iff bot_apply bot_bool_def)
  then have "take_bit 63 x = x"
  proof (intro bit_word_eqI)
    fix n assume "n < LENGTH(64)" and "\<not> bit x 63"
    then show "bit (take_bit 63 x) n = bit x n"
      by (cases "n = 63") (simp_all add: bit_take_bit_iff)
  qed
  then have lt: "unat x < 2 ^ 63"
    by (metis take_bit_nat_less_exp unsigned_take_bit_eq)
  have "unat (push_bit 1 x) = take_bit 64 (push_bit 1 (unat x))"
    by (simp only: unsigned_push_bit_eq) simp
  also have "\<dots> = 2 * unat x" using lt by (simp add: take_bit_nat_eq_self)
  finally have "unat (push_bit 1 x) = 2 * unat x" .
  moreover have "unat x \<noteq> 0" using nz by (simp add: unat_eq_zero)
  ultimately show ?case using lt by simp
qed simp

declare leadingZeros_loop.simps [simp del]

definition leadingZeros64 :: "u64 \<Rightarrow> nat" where
  "leadingZeros64 x = (if x = 0 then 64 else leadingZeros_loop 0 x)"

function trailingZeros_loop :: "nat \<Rightarrow> u64 \<Rightarrow> nat" where
  "trailingZeros_loop n x =
     (if x AND 1 = 0 \<and> x \<noteq> 0 then trailingZeros_loop (n + 1) (drop_bit 1 x) else n)"
  by pat_completeness auto
termination
proof (relation "measure (\<lambda>(n, x). unat x)", goal_cases)
  case (2 n x)
  have "unat (drop_bit 1 x) = unat x div 2"
    by (simp only: unat_drop_bit_eq) (simp add: drop_bit_eq_div)
  moreover have "unat x \<noteq> 0" using 2 by (simp add: unat_eq_zero)
  ultimately show ?case by simp
qed simp

declare trailingZeros_loop.simps [simp del]

definition trailingZeros64 :: "u64 \<Rightarrow> nat" where
  "trailingZeros64 x = (if x = 0 then 64 else trailingZeros_loop 0 x)"

subsection \<open>Timestamps\<close>

text \<open>The bytes of a varint appended at a byte boundary.\<close>

definition append_bytes :: "bitWriter \<Rightarrow> byte list \<Rightarrow> bitWriter" where
  "append_bytes bw d = \<lparr>bw_buf = bw_buf bw @ d, bw_pos = bw_pos bw + length d * 8\<rparr>"

text \<open>One round of the encoding loop: the delta of deltas in one of five formats.\<close>

definition encode_dod :: "bitWriter \<Rightarrow> i64 \<Rightarrow> bitWriter" where
  "encode_dod bw dod =
     (if dod = 0 then writeBit bw 0
      else if sint dod \<ge> -63 \<and> sint dod \<le> 64 then writeBits (writeBits bw 2 2) (dod + 63) 7
      else if sint dod \<ge> -255 \<and> sint dod \<le> 256 then writeBits (writeBits bw 6 3) (dod + 255) 9
      else if sint dod \<ge> -2047 \<and> sint dod \<le> 2048 then writeBits (writeBits bw 14 4) (dod + 2047) 12
      else
        let bw = writeBits bw 15 4;
            bw = writeBits bw 0 ((8 - bw_pos bw mod 8) mod 8)
        in append_bytes bw (put_varint dod))"

fun encode_ts_loop :: "bitWriter \<Rightarrow> i64 \<Rightarrow> i64 \<Rightarrow> i64 list \<Rightarrow> bitWriter" where
  "encode_ts_loop bw prevTs prevDelta [] = bw"
| "encode_ts_loop bw prevTs prevDelta (t # rest) =
     (let delta = t - prevTs; dod = delta - prevDelta
      in encode_ts_loop (encode_dod bw dod) t delta rest)"

fun gorillaEncodeTimestamps :: "point list \<Rightarrow> byte list" where
  "gorillaEncodeTimestamps [] = []"
| "gorillaEncodeTimestamps [p] = put_le 8 (Timestamp p)"
| "gorillaEncodeTimestamps (p0 # p1 # ps) =
     (let bw = append_bytes newBitWriter (put_le 8 (Timestamp p0));
          prevDelta = Timestamp p1 - Timestamp p0;
          bw = append_bytes bw (put_varint prevDelta)
      in bw_bytes (encode_ts_loop bw (Timestamp p1) prevDelta (map Timestamp ps)))"

text \<open>
  One round of the decoding loop.  In the last format the code aligns the reader, whose position
  counts from byte 8 of the data, and then reads the varint at that position of the data itself.
\<close>

definition decode_dod :: "byte list \<Rightarrow> bitReader \<Rightarrow> (i64 \<times> bitReader) res" where
  "decode_dod data br =
     (case readBit br of (b, br) \<Rightarrow> if b = 0 then Inr (0, br) else
      case readBit br of (b, br) \<Rightarrow> if b = 0 then (case readBits br 7 of (v, br) \<Rightarrow> Inr (v - 63, br)) else
      case readBit br of (b, br) \<Rightarrow> if b = 0 then (case readBits br 9 of (v, br) \<Rightarrow> Inr (v - 255, br)) else
      case readBit br of (b, br) \<Rightarrow> if b = 0 then (case readBits br 12 of (v, br) \<Rightarrow> Inr (v - 2047, br)) else
        let br = br\<lparr>br_pos := br_pos br + (8 - br_pos br mod 8) mod 8\<rparr> in
        if int (length data) - int (br_pos br div 8) \<le> 0 then Inl ErrCorrupt
        else (case varint (drop (br_pos br div 8) data) of (dod64, n2) \<Rightarrow>
          if n2 \<le> 0 then Inl ErrCorrupt
          else Inr (dod64, br\<lparr>br_pos := br_pos br + nat n2 * 8\<rparr>)))"

fun decode_ts_loop :: "byte list \<Rightarrow> bitReader \<Rightarrow> nat \<Rightarrow> i64 \<Rightarrow> i64 \<Rightarrow> i64 list res" where
  "decode_ts_loop data br 0 delta prev = Inr []"
| "decode_ts_loop data br (Suc k) delta prev =
     res_bind (decode_dod data br) (\<lambda>(dod, br').
       let delta = delta + dod; t = prev + delta in
       res_bind (decode_ts_loop data br' k delta t) (\<lambda>rest. Inr (t # rest)))"

definition gorillaDecodeTimestamps :: "byte list \<Rightarrow> nat \<Rightarrow> i64 list res" where
  "gorillaDecodeTimestamps data numPoints =
     (if numPoints = 0 then Inr []
      else if numPoints = 1 then
        (if length data < 8 then Inl ErrCorrupt else Inr [get_le (take 8 data)])
      else if length data < 8 then Inl Panic
      else
        let br = newBitReader (drop 8 data); t0 = get_le (take 8 data) in
        case varint (drop 8 data) of (delta, n) \<Rightarrow>
          if n \<le> 0 then Inl ErrCorrupt
          else
            let t1 = t0 + delta in
            res_bind (decode_ts_loop data (br\<lparr>br_pos := nat n * 8\<rparr>) (numPoints - 2) delta t1)
              (\<lambda>rest. Inr (t0 # t1 # rest)))"

subsection \<open>Values\<close>

text \<open>
  The state of the value loops besides the bit stream: \<open>prevVal\<close>, \<open>prevLeading\<close> and
  \<open>prevTrailing\<close>; the two counts are \<^verbatim>\<open>uint8\<close>, and \<open>prevLeading\<close> starts at \<^verbatim>\<open>^uint8(0)\<close>.
\<close>

fun encode_value_loop :: "bitWriter \<Rightarrow> u64 \<Rightarrow> byte \<Rightarrow> byte \<Rightarrow> u64 list \<Rightarrow> bitWriter" where
  "encode_value_loop bw prevVal prevLeading prevTrailing [] = bw"
| "encode_value_loop bw prevVal prevLeading prevTrailing (curVal # vals) =
     (let x = prevVal XOR curVal in
      if x = 0 then encode_value_loop (writeBit bw 0) prevVal prevLeading prevTrailing vals
      else
        let leading = of_nat (leadingZeros64 x) :: byte;
            trailing = of_nat (trailingZeros64 x) :: byte;
            bw = writeBit bw 1 in
        if leading \<ge> prevLeading \<and> trailing \<ge> prevTrailing then
          let bw = writeBit bw 0;
              middleBits = nat (64 - uint prevLeading - uint prevTrailing);
              bw = writeBits bw (drop_bit (unat prevTrailing) x) middleBits
          in encode_value_loop bw curVal prevLeading prevTrailing vals
        else
          let bw = writeBit bw 1;
              bw = writeBits bw (ucast leading) 5;
              bw = writeBits bw (ucast trailing) 6;
              middleBits = nat (64 - uint leading - uint trailing);
              bw = writeBits bw (drop_bit (unat trailing) x) middleBits
          in encode_value_loop bw curVal leading trailing vals)"

fun gorillaEncodeValues :: "point list \<Rightarrow> byte list" where
  "gorillaEncodeValues [] = []"
| "gorillaEncodeValues (p0 # ps) =
     (let bw = append_bytes newBitWriter (put_le 8 (Value p0))
      in bw_bytes (encode_value_loop bw (Value p0) (NOT 0) 0 (map Value ps)))"

fun decode_value_loop :: "bitReader \<Rightarrow> nat \<Rightarrow> u64 \<Rightarrow> byte \<Rightarrow> byte \<Rightarrow> u64 list" where
  "decode_value_loop br 0 prevVal prevLeading prevTrailing = []"
| "decode_value_loop br (Suc k) prevVal prevLeading prevTrailing =
     (case readBit br of (b, br) \<Rightarrow>
        if b = 0 then prevVal # decode_value_loop br k prevVal prevLeading prevTrailing
        else (case readBit br of (b, br) \<Rightarrow>
          if b = 0 then
            let middleBits = nat (64 - uint prevLeading - uint prevTrailing) in
            case readBits br middleBits of (valBits, br) \<Rightarrow>
              let newVal = prevVal XOR push_bit (unat prevTrailing) valBits
              in newVal # decode_value_loop br k newVal prevLeading prevTrailing
          else
            (case readBits br 5 of (l, br) \<Rightarrow> case readBits br 6 of (t, br) \<Rightarrow>
              let leading = ucast l :: byte; trailing = ucast t :: byte;
                  middleBits = nat (64 - uint leading - uint trailing) in
              case readBits br middleBits of (valBits, br) \<Rightarrow>
                let newVal = prevVal XOR push_bit (unat trailing) valBits
                in newVal # decode_value_loop br k newVal leading trailing)))"

definition gorillaDecodeValues :: "byte list \<Rightarrow> nat \<Rightarrow> f64 list res" where
  "gorillaDecodeValues data numPoints =
     (if numPoints = 0 then Inr []
      else if length data < 8 then Inl ErrCorrupt
      else
        let v0 = get_le (take 8 data) in
        if numPoints = 1 then Inr [v0]
        else Inr (v0 # decode_value_loop (newBitReader (drop 8 data)) (numPoints - 1) v0 (NOT 0) 0))"

subsection \<open>Series\<close>

definition gorillaEncodeSeries :: "point list \<Rightarrow> byte list" where
  "gorillaEncodeSeries points =
     (let tss = gorillaEncodeTimestamps points; vs = gorillaEncodeValues points
      in put_uvarint (of_nat (length tss)) @ tss @ vs)"

text \<open>
  The length is converted to \<^verbatim>\<open>int\<close> and added to \<open>n\<close> in 64 bits; slicing to an end before its
  start panics.
\<close>

definition gorillaDecodeSeries :: "byte list \<Rightarrow> nat \<Rightarrow> point list res" where
  "gorillaDecodeSeries data numPoints =
     (case uvarint data of (tsLen, n) \<Rightarrow>
        if n \<le> 0 then Inl ErrCorrupt
        else
          let tsEnd = sint (word_of_int n + tsLen) in
          if tsEnd > int (length data) then Inl ErrCorrupt
          else if tsEnd < n then Inl Panic
          else
            res_bind (slice data (nat n) (nat tsEnd)) (\<lambda>td.
            res_bind (gorillaDecodeTimestamps td numPoints) (\<lambda>tss.
            res_bind (gorillaDecodeValues (drop (nat tsEnd) data) numPoints) (\<lambda>vs.
              Inr (map (\<lambda>(t, v). \<lparr>Timestamp = t, Value = v\<rparr>) (zip tss vs))))))"

subsection \<open>The timestamp codec\<close>

text \<open>The deltas of deltas that the first four formats cover, and the bits each stands for.\<close>

definition small_dod :: "i64 \<Rightarrow> bool" where
  "small_dod dod \<longleftrightarrow> - 2047 \<le> sint dod \<and> sint dod \<le> 2048"

definition dod_bits :: "i64 \<Rightarrow> bool list" where
  "dod_bits dod =
     (if dod = 0 then [False]
      else if sint dod \<ge> -63 \<and> sint dod \<le> 64 then [True, False] @ val_bits (dod + 63) 7
      else if sint dod \<ge> -255 \<and> sint dod \<le> 256 then [True, True, False] @ val_bits (dod + 255) 9
      else [True, True, True, False] @ val_bits (dod + 2047) 12)"

lemma control_bits:
  "val_bits 2 2 = [True, False]" "val_bits 6 3 = [True, True, False]"
  "val_bits 14 4 = [True, True, True, False]"
  by code_simp+

lemma encode_dod_emits:
  assumes "bw_wf bw" and "small_dod dod"
  shows "emits bw (encode_dod bw dod) (dod_bits dod)"
proof -
  have two: "emits bw (writeBits (writeBits bw c n) v m) (val_bits c n @ val_bits v m)" for c n v m
    using emits_writeBits [OF assms(1)] emits_writeBits emits_wf emits_trans by blast
  show ?thesis
    using assms emits_writeBit [OF assms(1), of 0] two [of 2 2] two [of 6 3] two [of 14 4]
    by (auto simp: encode_dod_def dod_bits_def small_dod_def control_bits)
qed

lemma bias_roundtrip:
  fixes dod :: i64
  assumes "0 \<le> sint dod + b" and "sint dod + b < 2 ^ n" and "n < 63"
  shows "take_bit n (dod + word_of_int b) - word_of_int b = dod"
proof -
  have "(2::int) ^ n < 2 ^ 64" using assms(3) by (intro power_strict_increasing) simp_all
  have eq: "dod + word_of_int b = word_of_int (sint dod + b)" by simp
  have "uint (dod + word_of_int b) = sint dod + b"
    unfolding eq uint_word_of_int_eq using assms(1,2) \<open>2 ^ n < 2 ^ 64\<close>
    by (intro take_bit_int_eq_self) simp_all
  then have "take_bit n (dod + word_of_int b) = dod + word_of_int b"
    using assms(1,2) by (simp add: word_uint_eq_iff unsigned_take_bit_eq take_bit_int_eq_self)
  then show ?thesis by simp
qed

lemma decode_dod_bits:
  assumes "has_bits d pos (dod_bits dod)" and "small_dod dod"
  shows "decode_dod data \<lparr>br_data = d, br_pos = pos\<rparr> =
    Inr (dod, \<lparr>br_data = d, br_pos = pos + length (dod_bits dod)\<rparr>)"
proof -
  note R = readBit_bits [where bs = "[]"] readBits_bits
  consider "dod = 0"
    | (b7) "dod \<noteq> 0" "sint dod \<ge> -63 \<and> sint dod \<le> 64"
    | (b9) "dod \<noteq> 0" "\<not> (sint dod \<ge> -63 \<and> sint dod \<le> 64)" "sint dod \<ge> -255 \<and> sint dod \<le> 256"
    | (b12) "dod \<noteq> 0" "\<not> (sint dod \<ge> -63 \<and> sint dod \<le> 64)" "\<not> (sint dod \<ge> -255 \<and> sint dod \<le> 256)"
    by blast
  then show ?thesis
  proof cases
    case 1
    then show ?thesis using assms(1) R(1) [of d pos False] by (simp add: dod_bits_def decode_dod_def)
  next
    case b7
    then have bits: "dod_bits dod = [True, False] @ val_bits (dod + 63) 7"
      by (auto simp: dod_bits_def)
    then have hb: "has_bits d pos ([True, False] @ val_bits (dod + 63) 7)"
      and len: "length (dod_bits dod) = 9"
      using assms(1) by simp_all
    have "take_bit 7 (dod + 63) - 63 = dod" using bias_roundtrip [of dod 63 7] b7 by simp
    then show ?thesis
      using hb len R(1) [of d pos True] R(1) [of d "Suc pos" False] R(2) [of d "Suc (Suc pos)" "dod + 63" 7]
      by (simp add: decode_dod_def)
  next
    case b9
    then have bits: "dod_bits dod = [True, True, False] @ val_bits (dod + 255) 9"
      by (auto simp: dod_bits_def)
    then have hb: "has_bits d pos ([True, True, False] @ val_bits (dod + 255) 9)"
      and len: "length (dod_bits dod) = 12"
      using assms(1) by simp_all
    have "take_bit 9 (dod + 255) - 255 = dod" using bias_roundtrip [of dod 255 9] b9 by simp
    then show ?thesis
      using hb len R(1) [of d pos True] R(1) [of d "Suc pos" True] R(1) [of d "Suc (Suc pos)" False]
        R(2) [of d "Suc (Suc (Suc pos))" "dod + 255" 9]
      by (simp add: decode_dod_def)
  next
    case b12
    then have bits: "dod_bits dod = [True, True, True, False] @ val_bits (dod + 2047) 12"
      by (auto simp: dod_bits_def)
    then have hb: "has_bits d pos ([True, True, True, False] @ val_bits (dod + 2047) 12)"
      and len: "length (dod_bits dod) = 16"
      using assms(1) by simp_all
    have "take_bit 12 (dod + 2047) - 2047 = dod"
      using bias_roundtrip [of dod 2047 12] assms(2) by (simp add: small_dod_def)
    then show ?thesis
      using hb len R(1) [of d pos True] R(1) [of d "Suc pos" True] R(1) [of d "Suc (Suc pos)" True]
        R(1) [of d "Suc (Suc (Suc pos))" False] R(2) [of d "Suc (Suc (Suc (Suc pos)))" "dod + 2047" 12]
      by (simp add: decode_dod_def)
  qed
qed

text \<open>The deltas of deltas of a sequence of timestamps.\<close>

fun dods :: "i64 \<Rightarrow> i64 \<Rightarrow> i64 list \<Rightarrow> i64 list" where
  "dods prevTs prevDelta [] = []"
| "dods prevTs prevDelta (t # rest) = (t - prevTs - prevDelta) # dods t (t - prevTs) rest"

fun timestamps_compress :: "i64 list \<Rightarrow> bool" where
  "timestamps_compress (t0 # t1 # rest) = (\<forall>d\<in>set (dods t1 (t1 - t0) rest). small_dod d)"
| "timestamps_compress _ = True"

lemma encode_ts_loop_emits:
  assumes "bw_wf bw" and "\<forall>d\<in>set (dods prevTs prevDelta tss). small_dod d"
  shows "emits bw (encode_ts_loop bw prevTs prevDelta tss) (concat (map dod_bits (dods prevTs prevDelta tss)))"
  using assms
proof (induction bw prevTs prevDelta tss rule: encode_ts_loop.induct)
  case (1 bw prevTs prevDelta)
  then show ?case by (simp add: emits_refl)
next
  case (2 bw prevTs prevDelta t tss)
  let ?d = "t - prevTs - prevDelta"
  have e: "emits bw (encode_dod bw ?d) (dod_bits ?d)"
    using "2.prems" by (intro encode_dod_emits) simp_all
  also have "emits (encode_dod bw ?d) (encode_ts_loop (encode_dod bw ?d) t (t - prevTs) tss)
      (concat (map dod_bits (dods t (t - prevTs) tss)))"
    using "2.IH" [OF refl refl emits_wf [OF e]] "2.prems" by simp
  finally show ?case by (simp add: Let_def)
qed

lemma decode_ts_loop_bits:
  assumes "has_bits d pos (concat (map dod_bits (dods prevTs prevDelta tss)))"
    and "\<forall>x\<in>set (dods prevTs prevDelta tss). small_dod x"
  shows "decode_ts_loop data \<lparr>br_data = d, br_pos = pos\<rparr> (length tss) prevDelta prevTs = Inr tss"
  using assms
proof (induction tss arbitrary: pos prevTs prevDelta)
  case Nil
  then show ?case by simp
next
  case (Cons t tss)
  let ?d = "t - prevTs - prevDelta"
  have d: "decode_dod data \<lparr>br_data = d, br_pos = pos\<rparr> = Inr (?d, \<lparr>br_data = d, br_pos = pos + length (dod_bits ?d)\<rparr>)"
    using Cons.prems by (intro decode_dod_bits) simp_all
  show ?case
    using Cons.IH [of "pos + length (dod_bits ?d)" t "t - prevTs"] Cons.prems d by simp
qed

text \<open>The state in which the loop starts: whole bytes only.\<close>

lemma append_bytes_aligned:
  assumes "bw_wf bw" and "bw_pos bw = 8 * length (bw_buf bw)"
  shows "bw_wf (append_bytes bw d)" and "bw_pos (append_bytes bw d) = 8 * length (bw_buf (append_bytes bw d))"
  using assms by (simp_all add: bw_wf_def append_bytes_def)

lemma emits_keeps_prefix:
  assumes "emits bw bw' bs" and "bw_pos bw = 8 * length (bw_buf bw)"
  shows "\<exists>rest. bw_buf bw' = bw_buf bw @ rest"
proof -
  have "take (length (bw_buf bw)) (bw_buf bw') = bw_buf bw"
    using assms by (simp add: emits_def)
  then show ?thesis by (metis append_take_drop_id)
qed

lemma gorillaDecodeTimestamps_encode:
  assumes "timestamps_compress (map Timestamp pts)"
  shows "gorillaDecodeTimestamps (gorillaEncodeTimestamps pts) (length pts) = Inr (map Timestamp pts)"
proof (cases pts rule: gorillaEncodeTimestamps.cases)
  case (3 p0 p1 ps)
  let ?t0 = "Timestamp p0" and ?t1 = "Timestamp p1" and ?tss = "map Timestamp ps"
  let ?init = "append_bytes newBitWriter (put_le 8 ?t0)"
  let ?bw1 = "append_bytes ?init (put_varint (?t1 - ?t0))"
  let ?bw = "encode_ts_loop ?bw1 ?t1 (?t1 - ?t0) ?tss"
  let ?bits = "concat (map dod_bits (dods ?t1 (?t1 - ?t0) ?tss))"
  have new: "bw_pos newBitWriter = 8 * length (bw_buf newBitWriter)" by (simp add: newBitWriter_def)
  note al0 = append_bytes_aligned [OF newBitWriter_wf(1) new, of "put_le 8 ?t0"]
  note al1 = append_bytes_aligned [OF al0, of "put_varint (?t1 - ?t0)"]
  have buf1: "bw_buf ?bw1 = put_le 8 ?t0 @ put_varint (?t1 - ?t0)"
    by (simp add: append_bytes_def newBitWriter_def)
  have em: "emits ?bw1 ?bw ?bits"
    using assms by (intro encode_ts_loop_emits al1(1)) (simp add: 3)
  obtain rest where rest: "bw_buf ?bw = put_le 8 ?t0 @ put_varint (?t1 - ?t0) @ rest"
    using emits_keeps_prefix [OF em al1(2)] buf1 by auto
  have "has_bits (bw_buf ?bw) (bw_pos ?bw1) ?bits" using em by (rule emits_has_bits)
  moreover have "bw_pos ?bw1 = 8 * 8 + 8 * length (put_varint (?t1 - ?t0))"
    by (simp only: al1(2) buf1 length_append length_put_le) simp
  ultimately have "has_bits (drop 8 (bw_buf ?bw)) (8 * length (put_varint (?t1 - ?t0))) ?bits"
    using has_bits_drop by simp
  then have loop: "decode_ts_loop (bw_buf ?bw)
      \<lparr>br_data = drop 8 (bw_buf ?bw), br_pos = 8 * length (put_varint (?t1 - ?t0))\<rparr>
      (length ?tss) (?t1 - ?t0) ?t1 = Inr ?tss"
    by (rule decode_ts_loop_bits) (use assms 3 in simp)
  have enc: "gorillaEncodeTimestamps pts = bw_buf ?bw" by (simp add: 3 Let_def bw_bytes_def)
  have head: "take 8 (bw_buf ?bw) = put_le 8 ?t0"
    "varint (drop 8 (bw_buf ?bw)) = (?t1 - ?t0, int (length (put_varint (?t1 - ?t0))))"
    "\<not> length (bw_buf ?bw) < 8"
    by (simp_all add: rest varint_put)
  show ?thesis
    unfolding enc gorillaDecodeTimestamps_def Let_def newBitReader_def head
    using loop length_put_varint_pos [of "?t1 - ?t0"] head(3) by (simp add: 3 mult.commute)
qed (simp_all add: gorillaDecodeTimestamps_def)

subsection \<open>The value codec\<close>

lemma and_top_bit: "(x AND 0x8000000000000000 = 0) \<longleftrightarrow> \<not> bit (x :: u64) 63"
proof -
  have top: "(0x8000000000000000 :: u64) = 2 ^ 63" by simp
  show ?thesis unfolding top by (rule and_exp_eq_0_iff_not_bit)
qed

lemma leadingZeros_loop_bits:
  "x \<noteq> 0 \<Longrightarrow> \<exists>k < 64. leadingZeros_loop n x = n + k \<and> bit x (63 - k) \<and> (\<forall>j. bit x j \<longrightarrow> j \<le> 63 - k)"
proof (induction n x rule: leadingZeros_loop.induct)
  case (1 n x)
  show ?case
  proof (cases "bit x 63")
    case True
    have "j \<le> 63" if "bit x j" for j using bit_imp_le_length [OF that] by simp
    then show ?thesis
      using True by (intro exI [of _ 0]) (simp add: leadingZeros_loop.simps [of n x] and_top_bit)
  next
    case False
    have sh: "bit (push_bit 1 x) j \<longleftrightarrow> 0 < j \<and> j < 64 \<and> bit x (j - 1)" for j
      by (auto simp only: bit_push_bit_iff) auto
    obtain i where i: "bit x i" using "1.prems" bit_eq_iff [of x 0] by auto
    have "i < 64" using bit_imp_le_length [OF i] by simp
    then have "i < 63" using i False by (cases "i = 63") auto
    then have "bit (push_bit 1 x) (Suc i)" using i sh by simp
    then have "push_bit 1 x \<noteq> 0" by (metis bit_0_eq bot_apply bot_bool_def)
    then obtain k where k: "k < 64" "leadingZeros_loop (n + 1) (push_bit 1 x) = n + 1 + k"
      "bit (push_bit 1 x) (63 - k)" "\<And>j. bit (push_bit 1 x) j \<Longrightarrow> j \<le> 63 - k"
      using "1.IH" False "1.prems" and_top_bit by blast
    have "k < 63" using k(3) sh [of "63 - k"] by simp
    moreover have "leadingZeros_loop n x = n + Suc k"
      using False "1.prems" k(2) by (simp only: leadingZeros_loop.simps [of n x] and_top_bit) simp
    moreover have "bit x (63 - Suc k)" using k(3) sh [of "63 - k"] by simp
    moreover have "j \<le> 63 - Suc k" if "bit x j" for j
    proof -
      have "j < 63" using bit_imp_le_length [OF that] that False by (cases "j = 63") auto
      then show ?thesis using k(4) [of "Suc j"] sh [of "Suc j"] that by simp
    qed
    ultimately show ?thesis by (intro exI [of _ "Suc k"]) auto
  qed
qed

lemma leadingZeros64_bits:
  assumes "x \<noteq> 0"
  shows "leadingZeros64 x < 64" and "bit x (63 - leadingZeros64 x)"
    and "bit x j \<Longrightarrow> j \<le> 63 - leadingZeros64 x"
  using leadingZeros_loop_bits [OF assms, of 0] assms by (auto simp: leadingZeros64_def)

lemma trailingZeros_loop_bits:
  "x \<noteq> 0 \<Longrightarrow> \<exists>k. trailingZeros_loop n x = n + k \<and> bit x k \<and> (\<forall>j. bit x j \<longrightarrow> k \<le> j)"
proof (induction n x rule: trailingZeros_loop.induct)
  case (1 n x)
  have low: "x AND 1 = 0 \<longleftrightarrow> \<not> bit x 0" by (simp add: and_one_eq bit_0 even_iff_mod_2_eq_zero)
  show ?case
  proof (cases "bit x 0")
    case True
    then show ?thesis
      using low by (intro exI [of _ 0]) (simp add: trailingZeros_loop.simps [of n x])
  next
    case False
    have sh: "bit (drop_bit 1 x) j \<longleftrightarrow> bit x (Suc j)" for j by (simp add: bit_drop_bit_eq)
    obtain i where i: "bit x i" using "1.prems" bit_eq_iff [of x 0] by auto
    then have "i \<noteq> 0" using False by (cases "i = 0") auto
    then have "bit (drop_bit 1 x) (i - 1)" using i sh by simp
    then have "drop_bit 1 x \<noteq> 0" by (metis bit_0_eq bot_apply bot_bool_def)
    then obtain k where k: "trailingZeros_loop (n + 1) (drop_bit 1 x) = n + 1 + k"
      "bit (drop_bit 1 x) k" "\<And>j. bit (drop_bit 1 x) j \<Longrightarrow> k \<le> j"
      using "1.IH" False "1.prems" low by blast
    have "trailingZeros_loop n x = n + Suc k"
      using False "1.prems" k(1) low by (simp only: trailingZeros_loop.simps [of n x]) simp
    moreover have "Suc k \<le> j" if "bit x j" for j
      using k(3) [of "j - 1"] sh [of "j - 1"] that False by (cases j) auto
    ultimately show ?thesis using k(2) sh by (intro exI [of _ "Suc k"]) auto
  qed
qed

lemma trailingZeros64_bits:
  assumes "x \<noteq> 0"
  shows "bit x (trailingZeros64 x)" and "bit x j \<Longrightarrow> trailingZeros64 x \<le> j"
    and "leadingZeros64 x + trailingZeros64 x \<le> 63"
proof -
  show t: "bit x (trailingZeros64 x)" "bit x j \<Longrightarrow> trailingZeros64 x \<le> j" for j
    using trailingZeros_loop_bits [OF assms, of 0] assms by (auto simp: trailingZeros64_def)
  show "leadingZeros64 x + trailingZeros64 x \<le> 63"
    using t(2) [OF leadingZeros64_bits(2) [OF assms]] leadingZeros64_bits(1) [OF assms] by linarith
qed

text \<open>A window of \<open>64 - l - t\<close> bits above the \<open>t\<close> lowest ones holds the whole value.\<close>

lemma window_recovers:
  assumes "x \<noteq> 0" and "l \<le> leadingZeros64 x" and "t \<le> trailingZeros64 x" and "l + t \<le> 63"
  shows "push_bit t (take_bit (64 - l - t) (drop_bit t x)) = x"
proof (rule bit_word_eqI)
  fix j assume j: "j < LENGTH(64)"
  have "t \<le> j \<and> j - t < 64 - l - t" if "bit x j"
    using trailingZeros64_bits(2) [OF assms(1) that] leadingZeros64_bits(3) [OF assms(1) that]
      leadingZeros64_bits(1) [OF assms(1)] assms by linarith
  then show "bit (push_bit t (take_bit (64 - l - t) (drop_bit t x))) j = bit x j"
    using j by (auto simp: bit_push_bit_iff bit_take_bit_iff bit_drop_bit_eq)
qed

text \<open>
  The values that the codec keeps: a value equal to its predecessor, or one whose difference
  has fewer than 32 leading zeros, the count being written in five bits.
\<close>

fun values_compress :: "u64 \<Rightarrow> u64 list \<Rightarrow> bool" where
  "values_compress prevVal [] = True"
| "values_compress prevVal (v # vs) =
     ((prevVal XOR v = 0 \<or> leadingZeros64 (prevVal XOR v) < 32) \<and> values_compress v vs)"

text \<open>The window of the previous value, once there is one, lies inside the 64 bits.\<close>

definition window_ok :: "byte \<Rightarrow> byte \<Rightarrow> bool" where
  "window_ok l t \<longleftrightarrow> l = NOT 0 \<or> unat l + unat t \<le> 63"

lemma middle_bits: "nat (64 - uint l - uint t) = 64 - unat l - unat t"
  by (simp only: uint_nat)

lemma unat_count: "k < 64 \<Longrightarrow> unat (of_nat k :: byte) = k"
  by (simp add: unat_of_nat)

lemma count_written:
  assumes "k < 2 ^ n" and "n \<le> 6"
  shows "ucast (take_bit n (ucast (of_nat k :: byte) :: u64)) = (of_nat k :: byte)"
proof (rule word_unat_eq_iff [THEN iffD2])
  have "(2::nat) ^ n \<le> 2 ^ 6" using assms(2) by (intro power_increasing) simp_all
  then have k: "k < 64" using assms(1) by simp
  then have "unat (ucast (of_nat k :: byte) :: u64) = k"
    by (simp add: unsigned_ucast_eq unat_of_nat take_bit_nat_eq_self)
  then have "unat (take_bit n (ucast (of_nat k :: byte) :: u64)) = k"
    using assms(1) by (simp add: unsigned_take_bit_eq take_bit_nat_eq_self)
  then show "unat (ucast (take_bit n (ucast (of_nat k :: byte) :: u64)) :: byte) = unat (of_nat k :: byte)"
    using k by (simp add: unsigned_ucast_eq unat_of_nat take_bit_nat_eq_self)
qed

lemma xor_back: "(a :: u64) XOR (a XOR b) = b"
  by (simp add: xor.assoc [symmetric])

text \<open>What the encoder emits for the rest of the values, the decoder reads back as these values.\<close>

definition value_codec :: "bitWriter \<Rightarrow> bitWriter \<Rightarrow> u64 \<Rightarrow> byte \<Rightarrow> byte \<Rightarrow> u64 list \<Rightarrow> bool" where
  "value_codec bw bw' prevVal pl pt vals \<longleftrightarrow> (\<exists>bs. emits bw bw' bs \<and>
     (\<forall>d pos. has_bits d pos bs \<longrightarrow>
        decode_value_loop \<lparr>br_data = d, br_pos = pos\<rparr> (length vals) prevVal pl pt = vals))"

lemma emits_writeBits_then:
  "emits bw bw' bs \<Longrightarrow> emits bw (writeBits bw' v n) (bs @ val_bits v n)"
  using emits_trans emits_wf emits_writeBits by blast

lemma emits_writeBit_then:
  "emits bw bw' bs \<Longrightarrow> emits bw (writeBit bw' b) (bs @ [b \<noteq> 0])"
  using emits_trans emits_wf emits_writeBit by blast

lemma value_codec_same:
  assumes "bw_wf bw" and "value_codec (writeBit bw 0) bw' v pl pt vals"
  shows "value_codec bw bw' v pl pt (v # vals)"
proof -
  obtain bs where em: "emits (writeBit bw 0) bw' bs" and rd: "\<And>d pos. has_bits d pos bs \<Longrightarrow>
      decode_value_loop \<lparr>br_data = d, br_pos = pos\<rparr> (length vals) v pl pt = vals"
    using assms(2) unfolding value_codec_def by blast
  have "emits bw bw' ([False] @ bs)"
    using emits_trans [OF emits_writeBit [OF assms(1), of 0] em] by simp
  moreover have "decode_value_loop \<lparr>br_data = d, br_pos = pos\<rparr> (length (v # vals)) v pl pt = v # vals"
    if "has_bits d pos ([False] @ bs)" for d pos
    using that rd [of d "Suc pos"] readBit_bits [of d pos False bs] by simp
  ultimately show ?thesis unfolding value_codec_def by blast
qed

lemma value_codec_reuse:
  assumes "bw_wf bw" and x: "prevVal XOR v = x" "x \<noteq> 0"
    and win: "unat pl \<le> leadingZeros64 x" "unat pt \<le> trailingZeros64 x" "unat pl + unat pt \<le> 63"
    and "value_codec (writeBits (writeBit (writeBit bw 1) 0) (drop_bit (unat pt) x) (64 - unat pl - unat pt))
      bw' v pl pt vals"
  shows "value_codec bw bw' prevVal pl pt (v # vals)"
proof -
  let ?n = "64 - unat pl - unat pt" and ?m = "drop_bit (unat pt) x"
  obtain bs where em: "emits (writeBits (writeBit (writeBit bw 1) 0) ?m ?n) bw' bs"
    and rd: "\<And>d pos. has_bits d pos bs \<Longrightarrow>
      decode_value_loop \<lparr>br_data = d, br_pos = pos\<rparr> (length vals) v pl pt = vals"
    using assms(7) unfolding value_codec_def by blast
  have "emits bw (writeBits (writeBit (writeBit bw 1) 0) ?m ?n) (([] @ [True]) @ [False] @ val_bits ?m ?n)"
    using emits_writeBits_then [OF emits_writeBit_then [OF emits_writeBit_then [OF emits_refl [OF assms(1)]], of 1], of 0]
    by simp
  from emits_trans [OF this em] have e: "emits bw bw' (True # False # val_bits ?m ?n @ bs)" by simp
  have bk: "prevVal XOR push_bit (unat pt) (take_bit ?n ?m) = v"
    using window_recovers [OF x(2) win] x(1) xor_back [of prevVal v] by simp
  have "decode_value_loop \<lparr>br_data = d, br_pos = pos\<rparr> (length (v # vals)) prevVal pl pt = v # vals"
    if h: "has_bits d pos (True # False # val_bits ?m ?n @ bs)" for d pos
    using h rd [of d "Suc (Suc pos) + ?n"] readBit_bits [of d pos True "[]"] readBit_bits [of d "Suc pos" False "[]"]
      readBits_bits [of d "Suc (Suc pos)" ?m ?n] bk
    by (simp add: middle_bits)
  then show ?thesis using e unfolding value_codec_def by blast
qed

lemma value_codec_fresh:
  assumes "bw_wf bw" and x: "prevVal XOR v = x" "x \<noteq> 0"
    and l: "leadingZeros64 x < 32"
    and lt: "nl = of_nat (leadingZeros64 x)" "nt = of_nat (trailingZeros64 x)"
    and "value_codec (writeBits (writeBits (writeBits (writeBit (writeBit bw 1) 1) (ucast nl) 5) (ucast nt) 6)
      (drop_bit (unat nt) x) (64 - unat nl - unat nt)) bw' v nl nt vals"
  shows "value_codec bw bw' prevVal pl pt (v # vals)"
proof -
  let ?n = "64 - unat nl - unat nt" and ?m = "drop_bit (unat nt) x"
  let ?b1 = "writeBit (writeBit bw 1) 1"
  let ?bw = "writeBits (writeBits (writeBits ?b1 (ucast nl) 5) (ucast nt) 6) ?m ?n"
  obtain bs where em: "emits ?bw bw' bs"
    and rd: "\<And>d pos. has_bits d pos bs \<Longrightarrow>
      decode_value_loop \<lparr>br_data = d, br_pos = pos\<rparr> (length vals) v nl nt = vals"
    using assms(7) unfolding value_codec_def by blast
  have b1: "emits bw ?b1 [True, True]"
    using emits_writeBit_then [OF emits_writeBit [OF assms(1), of 1], of 1] by simp
  have "emits bw ?bw ((([True, True] @ val_bits (ucast nl) 5) @ val_bits (ucast nt) 6) @ val_bits ?m ?n)"
    by (intro emits_writeBits_then b1)
  from emits_trans [OF this em]
  have e: "emits bw bw' (True # True # val_bits (ucast nl) 5 @ val_bits (ucast nt) 6 @ val_bits ?m ?n @ bs)"
    by (simp del: val_bits.simps)
  have bound: "leadingZeros64 x + trailingZeros64 x \<le> 63" by (rule trailingZeros64_bits(3) [OF x(2)])
  have un: "unat nl = leadingZeros64 x" "unat nt = trailingZeros64 x"
    using bound unat_count lt by simp_all
  have nl: "ucast (take_bit 5 (ucast nl :: u64)) = nl" using count_written [of _ 5] l lt by simp
  have nt: "ucast (take_bit 6 (ucast nt :: u64)) = nt" using count_written [of _ 6] bound lt by simp
  have bk: "prevVal XOR push_bit (unat nt) (take_bit ?n ?m) = v"
    using window_recovers [OF x(2), of "unat nl" "unat nt"] bound un x(1) xor_back [of prevVal v] by simp
  have "decode_value_loop \<lparr>br_data = d, br_pos = pos\<rparr> (length (v # vals)) prevVal pl pt = v # vals"
    if h: "has_bits d pos (True # True # val_bits (ucast nl) 5 @ val_bits (ucast nt) 6 @ val_bits ?m ?n @ bs)" for d pos
  proof -
    have h': "has_bits d (pos + 2) (val_bits (ucast nl) 5)" "has_bits d (pos + 7) (val_bits (ucast nt) 6)"
      "has_bits d (pos + 13) (val_bits ?m ?n)" "has_bits d (pos + 13 + ?n) bs"
      using h by (simp_all del: val_bits.simps add: add.commute)
    have step: "readBit \<lparr>br_data = d, br_pos = pos\<rparr> = (1, \<lparr>br_data = d, br_pos = Suc pos\<rparr>)"
      "readBit \<lparr>br_data = d, br_pos = Suc pos\<rparr> = (1, \<lparr>br_data = d, br_pos = pos + 2\<rparr>)"
      using h readBit_bits [of d pos True "[]"] readBit_bits [of d "Suc pos" True "[]"] by simp_all
    have "readBits \<lparr>br_data = d, br_pos = pos + 2\<rparr> 5 = (take_bit 5 (ucast nl), \<lparr>br_data = d, br_pos = pos + 7\<rparr>)"
      "readBits \<lparr>br_data = d, br_pos = pos + 7\<rparr> 6 = (take_bit 6 (ucast nt), \<lparr>br_data = d, br_pos = pos + 13\<rparr>)"
      using readBits_bits [OF h'(1)] readBits_bits [OF h'(2)] by (simp_all add: add.commute)
    then show ?thesis
      using step readBits_bits [OF h'(3)] rd [OF h'(4)] nl nt bk by (simp only: decode_value_loop.simps list.size
        add_0_right add_Suc_right prod.case Let_def middle_bits) simp
  qed
  then show ?thesis using e unfolding value_codec_def by blast
qed

lemma value_loop_codec:
  assumes "bw_wf bw" and "values_compress prevVal vals" and "window_ok pl pt"
  shows "value_codec bw (encode_value_loop bw prevVal pl pt vals) prevVal pl pt vals"
  using assms
proof (induction vals arbitrary: bw prevVal pl pt)
  case Nil
  have "decode_value_loop br (length []) prevVal pl pt = []" for br by simp
  then show ?case unfolding value_codec_def using emits_refl [OF Nil.prems(1)] by auto
next
  case (Cons v vals)
  let ?x = "prevVal XOR v" and ?nl = "of_nat (leadingZeros64 (prevVal XOR v)) :: byte"
    and ?nt = "of_nat (trailingZeros64 (prevVal XOR v)) :: byte"
  note W = writeBit_bits(1) writeBits_bits [THEN conjunct1]
  show ?case
  proof (cases "?x = 0")
    case True
    then have "v = prevVal" using xor_back [of prevVal v] by simp
    then show ?thesis
      using value_codec_same [OF Cons.prems(1)] Cons.IH [OF W(1) [OF Cons.prems(1)]] Cons.prems by simp
  next
    case False
    have bound: "leadingZeros64 ?x < 64" "leadingZeros64 ?x + trailingZeros64 ?x \<le> 63"
      using leadingZeros64_bits(1) [OF False] trailingZeros64_bits(3) [OF False] by simp_all
    then have un: "unat ?nl = leadingZeros64 ?x" "unat ?nt = trailingZeros64 ?x" by (simp_all add: unat_count)
    have ok: "leadingZeros64 ?x < 32" "values_compress v vals" using Cons.prems(2) False by simp_all
    show ?thesis
    proof (cases "?nl \<ge> pl \<and> ?nt \<ge> pt")
      case True
      then have le: "unat pl \<le> leadingZeros64 ?x" "unat pt \<le> trailingZeros64 ?x"
        using un by (simp_all add: word_le_nat_alt)
      moreover have "unat (NOT 0 :: byte) = 255" by code_simp
      ultimately have "pl \<noteq> NOT 0" using bound(1) by auto
      then have sum: "unat pl + unat pt \<le> 63" using Cons.prems(3) by (simp add: window_ok_def)
      let ?bw = "writeBits (writeBit (writeBit bw 1) 0) (drop_bit (unat pt) ?x) (64 - unat pl - unat pt)"
      have "bw_wf ?bw" using Cons.prems(1) by (intro W)
      from Cons.IH [OF this ok(2) Cons.prems(3)]
      have "value_codec bw (encode_value_loop ?bw v pl pt vals) prevVal pl pt (v # vals)"
        by (rule value_codec_reuse [OF Cons.prems(1) refl False le sum])
      then show ?thesis using True False by (simp add: middle_bits Let_def)
    next
      case fresh: False
      let ?bw = "writeBits (writeBits (writeBits (writeBit (writeBit bw 1) 1) (ucast ?nl) 5) (ucast ?nt) 6)
        (drop_bit (unat ?nt) ?x) (64 - unat ?nl - unat ?nt)"
      have "bw_wf ?bw" using Cons.prems(1) by (intro W)
      moreover have "window_ok ?nl ?nt" using bound un by (simp add: window_ok_def)
      ultimately have "value_codec ?bw (encode_value_loop ?bw v ?nl ?nt vals) v ?nl ?nt vals"
        using Cons.IH ok(2) by blast
      then have "value_codec bw (encode_value_loop ?bw v ?nl ?nt vals) prevVal pl pt (v # vals)"
        by (rule value_codec_fresh [OF Cons.prems(1) refl False ok(1) refl refl])
      moreover have "encode_value_loop bw prevVal pl pt (v # vals) = encode_value_loop ?bw v ?nl ?nt vals"
        using fresh False by (simp only: encode_value_loop.simps Let_def middle_bits if_False)
      ultimately show ?thesis by simp
    qed
  qed
qed

lemma gorillaDecodeValues_encode:
  assumes "pts \<noteq> []" and "values_compress (Value (hd pts)) (map Value (tl pts))"
  shows "gorillaDecodeValues (gorillaEncodeValues pts @ junk) (length pts) = Inr (map Value pts)"
proof -
  obtain p0 ps where pts: "pts = p0 # ps" using assms(1) by (cases pts) auto
  let ?init = "append_bytes newBitWriter (put_le 8 (Value p0))" and ?vs = "map Value ps"
  let ?bw = "encode_value_loop ?init (Value p0) (NOT 0) 0 ?vs"
  have new: "bw_pos newBitWriter = 8 * length (bw_buf newBitWriter)" by (simp add: newBitWriter_def)
  note al = append_bytes_aligned [OF newBitWriter_wf(1) new, of "put_le 8 (Value p0)"]
  have buf: "bw_buf ?init = put_le 8 (Value p0)" unfolding append_bytes_def newBitWriter_def by simp
  have "value_codec ?init ?bw (Value p0) (NOT 0) 0 ?vs"
    using assms(2) pts by (intro value_loop_codec al(1)) (simp_all add: window_ok_def)
  then obtain bs where em: "emits ?init ?bw bs" and rd: "\<And>d pos. has_bits d pos bs \<Longrightarrow>
      decode_value_loop \<lparr>br_data = d, br_pos = pos\<rparr> (length ?vs) (Value p0) (NOT 0) 0 = ?vs"
    unfolding value_codec_def by blast
  obtain rest where rest: "bw_buf ?bw = put_le 8 (Value p0) @ rest"
    using emits_keeps_prefix [OF em al(2)] buf by auto
  have "has_bits (bw_buf ?bw) (8 * 8 + 0) bs"
    using emits_has_bits [OF em] al(2) buf by simp
  then have loop: "decode_value_loop \<lparr>br_data = drop 8 (bw_buf ?bw @ junk), br_pos = 0\<rparr> (length ?vs) (Value p0) (NOT 0) 0 = ?vs"
    by (intro rd has_bits_drop has_bits_append_data)
  have enc: "gorillaEncodeValues pts = bw_buf ?bw" by (simp add: pts bw_bytes_def)
  have head: "take 8 (bw_buf ?bw @ junk) = put_le 8 (Value p0)" "\<not> length (bw_buf ?bw @ junk) < 8"
    unfolding rest by simp_all
  show ?thesis
    unfolding enc gorillaDecodeValues_def Let_def newBitReader_def head using loop head(2)
    by (cases ps) (simp_all add: pts)
qed

subsection \<open>Whole series\<close>

text \<open>The series that the format keeps.\<close>

definition series_compresses :: "point list \<Rightarrow> bool" where
  "series_compresses pts \<longleftrightarrow> timestamps_compress (map Timestamp pts) \<and>
     (pts \<noteq> [] \<longrightarrow> values_compress (Value (hd pts)) (map Value (tl pts)))"

lemma length_dod_bits: "length (dod_bits d) \<le> 16"
  by (simp add: dod_bits_def)

lemma length_concat_dod_bits: "length (concat (map dod_bits ds)) \<le> 16 * length ds"
proof (induction ds)
  case (Cons d ds)
  then show ?case using length_dod_bits [of d] by simp
qed simp

lemma length_dods [simp]: "length (dods p d tss) = length tss"
  by (induction tss arbitrary: p d) simp_all

lemma length_gorillaEncodeTimestamps:
  assumes "timestamps_compress (map Timestamp pts)"
  shows "length (gorillaEncodeTimestamps pts) \<le> 18 + 2 * length pts"
proof (cases pts rule: gorillaEncodeTimestamps.cases)
  case (3 p0 p1 ps)
  let ?d = "Timestamp p1 - Timestamp p0"
  let ?init = "append_bytes (append_bytes newBitWriter (put_le 8 (Timestamp p0))) (put_varint ?d)"
  let ?out = "encode_ts_loop ?init (Timestamp p1) ?d (map Timestamp ps)"
  have "bw_wf ?init" and pos: "bw_pos ?init \<le> 144"
    using length_put_varint_max [of ?d]
    by (auto simp: append_bytes_def newBitWriter_def bw_wf_def MaxVarintLen64_def)
  then have em: "emits ?init ?out (concat (map dod_bits (dods (Timestamp p1) ?d (map Timestamp ps))))"
    using assms by (intro encode_ts_loop_emits) (simp_all add: 3)
  have "bw_pos ?out \<le> 144 + 16 * length ps"
    using emits_pos [OF em] pos length_concat_dod_bits [of "dods (Timestamp p1) ?d (map Timestamp ps)"] by simp
  moreover have "length (bw_buf ?out) = (bw_pos ?out + 7) div 8"
    using emits_wf [OF em] by (simp add: bw_wf_def)
  ultimately show ?thesis by (simp add: 3 Let_def bw_bytes_def)
qed simp_all

lemma gorillaDecodeSeries_encode:
  assumes "series_compresses pts" and "length pts < 2 ^ 32"
  shows "gorillaDecodeSeries (gorillaEncodeSeries pts @ junk) (length pts) = Inr pts"
proof -
  let ?t = "gorillaEncodeTimestamps pts" and ?v = "gorillaEncodeValues pts"
  let ?u = "put_uvarint (of_nat (length ?t))"
  have len: "length ?t < 2 ^ 34"
    using length_gorillaEncodeTimestamps [of pts] assms by (simp add: series_compresses_def)
  have n: "0 < length ?u" "length ?u \<le> 10"
    using length_put_uvarint_max [of "of_nat (length ?t)"] by (simp_all add: MaxVarintLen64_def)
  have "sint (word_of_int (int (length ?u)) + (of_nat (length ?t) :: u64)) = int (length ?u + length ?t)"
  proof -
    have "word_of_int (int (length ?u)) + (of_nat (length ?t) :: u64) = word_of_int (int (length ?u + length ?t))"
      by simp
    moreover have "int (length ?u + length ?t) < 2 ^ 63" using n len by simp
    ultimately show ?thesis using sint_of_int [of "int (length ?u + length ?t)"] by simp
  qed
  moreover have "uvarint (?u @ ?t @ ?v @ junk) = (of_nat (length ?t), int (length ?u))" by (simp add: uvarint_put)
  moreover have "gorillaDecodeTimestamps ?t (length pts) = Inr (map Timestamp pts)"
    using assms(1) by (intro gorillaDecodeTimestamps_encode) (simp add: series_compresses_def)
  moreover have "gorillaDecodeValues (?v @ junk) (length pts) = Inr (map Value pts)"
    using assms(1) gorillaDecodeValues_encode [of pts]
    by (cases "pts = []") (simp_all add: series_compresses_def gorillaDecodeValues_def)
  moreover have "slice (?u @ ?t @ ?v @ junk) (length ?u) (length ?u + length ?t) = Inr ?t"
    by (rule slice_middle) simp_all
  moreover have "map (\<lambda>(t, v). \<lparr>Timestamp = t, Value = v\<rparr>) (zip (map Timestamp pts) (map Value pts)) = pts"
    by (induction pts) simp_all
  ultimately show ?thesis
    using n by (simp add: gorillaDecodeSeries_def gorillaEncodeSeries_def Let_def nat_int_add)
qed

text \<open>
  C16: a series whose deltas of deltas lie in [-2047, 2048] and whose neighbouring values are equal
  or differ in one of their 32 upper bits comes back from the V2 encoding unchanged, whatever follows it
  in the file.
\<close>

theorem gorilla_series_roundtrip:
  assumes "series_compresses pts" and "length pts < 2 ^ 32"
  shows "gorillaDecodeSeries (gorillaEncodeSeries pts @ junk) (length pts) = Inr pts"
  using assms by (rule gorillaDecodeSeries_encode)

definition ex_series :: "point list" where
  "ex_series = [\<lparr>Timestamp = 100, Value = 0x4000000000000000\<rparr>, \<lparr>Timestamp = 110, Value = 0x4008000000000000\<rparr>,
    \<lparr>Timestamp = 121, Value = 0x4008000000000000\<rparr>]"

lemma gorilla_series_roundtrip_witness:
  "gorillaDecodeSeries (gorillaEncodeSeries ex_series @ [1, 2]) 3 = Inr ex_series"
proof -
  have "series_compresses ex_series" "length ex_series = 3" by code_simp+
  then show ?thesis using gorilla_series_roundtrip [of ex_series "[1, 2]"] by simp
qed

text \<open>
  Such a series takes at most two bytes a point for its timestamps, besides the first timestamp
  and the first delta.
\<close>

theorem gorilla_timestamps_size:
  assumes "timestamps_compress (map Timestamp pts)"
  shows "length (gorillaEncodeTimestamps pts) \<le> 18 + 2 * length pts"
  using assms by (rule length_gorillaEncodeTimestamps)

lemma gorilla_timestamps_size_witness:
  "length (gorillaEncodeTimestamps ex_series) \<le> 24"
proof -
  have "timestamps_compress (map Timestamp ex_series)" by code_simp
  then show ?thesis using gorilla_timestamps_size [of ex_series] by (simp add: ex_series_def)
qed

definition ex_gap :: "point list" where
  "ex_gap = [\<lparr>Timestamp = 0, Value = 0\<rparr>, \<lparr>Timestamp = 0, Value = 0\<rparr>, \<lparr>Timestamp = 5000, Value = 0\<rparr>]"

text \<open>
  A delta of deltas outside [-2047, 2048] is written as a varint that the decoder looks for eight
  bytes too early: the third of three timestamps comes back wrong, and no error is reported.
\<close>

theorem gorilla_large_delta_misread:
  "gorillaDecodeTimestamps (gorillaEncodeTimestamps ex_gap) 3 = Inr [0, 0, 0] \<and>
    map Timestamp ex_gap = [0, 0, 5000]"
  by code_simp

subsection \<open>Values that the format does not keep\<close>

text \<open>Behind the bits written, the reader finds the zeros of the last byte, and then its own.\<close>

lemma readBits_loop_past:
  assumes "bw_wf bw" and "bw_pos bw \<le> 8 * n + pos" and "n \<le> length (bw_buf bw)"
  shows "fst (readBits_loop \<lparr>br_data = drop n (bw_buf bw), br_pos = pos\<rparr> k acc) = push_bit k acc"
  using assms(2)
proof (induction k arbitrary: pos acc)
  case (Suc k)
  let ?d = "drop n (bw_buf bw)"
  obtain pos' where "readBit \<lparr>br_data = ?d, br_pos = pos\<rparr> = (0, \<lparr>br_data = ?d, br_pos = pos'\<rparr>)" and "pos \<le> pos'"
  proof (cases "pos < 8 * length ?d")
    case True
    then have lt: "8 * n + pos < 8 * length (bw_buf bw)" using assms(3) by simp
    then have "get_bit ?d pos = get_bit (bw_buf bw) (8 * n + pos)" by (rule get_bit_drop)
    then have "has_bits ?d pos [False]"
      using assms(1) Suc.prems lt True has_bits_Nil [of ?d "Suc pos"] unfolding bw_wf_def has_bits_Cons by auto
    from readBit_bits [OF this] show ?thesis using that [of "Suc pos"] by simp
  next
    case False
    then show ?thesis using that [of pos] by (simp add: readBit_def mult.commute)
  qed
  then show ?case using Suc.IH [of pos' "push_bit 1 acc"] Suc.prems by simp
qed simp

lemma readBits_loop_split:
  "readBits_loop br (m + n) acc = (case readBits_loop br m acc of (v, br') \<Rightarrow> readBits_loop br' n v)"
  by (induction m arbitrary: br acc) (simp_all split: prod.splits)

lemma count_truncated:
  assumes "32 \<le> k" and "k < 64"
  shows "ucast (take_bit 5 (ucast (of_nat k :: byte) :: u64)) = (of_nat (k - 32) :: byte)"
proof (rule word_unat_eq_iff [THEN iffD2])
  have u: "unat (ucast (of_nat k :: byte) :: u64) = k"
    using assms by (simp add: unsigned_ucast_eq unat_of_nat take_bit_nat_eq_self)
  have "unat (take_bit 5 (ucast (of_nat k :: byte) :: u64)) = take_bit 5 k" by (simp add: unsigned_take_bit_eq u)
  also have "\<dots> = k - 32" using assms le_mod_geq [of 32 k] by (simp add: take_bit_eq_mod)
  finally show "unat (ucast (take_bit 5 (ucast (of_nat k :: byte) :: u64)) :: byte) = unat (of_nat (k - 32) :: byte)"
    using assms unat_count [of "k - 32"] by (simp add: unsigned_ucast_eq take_bit_nat_eq_self del: of_nat_diff)
qed

lemma shifted_difference:
  fixes x :: u64
  assumes "x \<noteq> 0" and "32 \<le> leadingZeros64 x"
  shows "push_bit 32 x \<noteq> x"
proof
  assume eq: "push_bit 32 x = x"
  have "bit x (63 - leadingZeros64 x)" by (rule leadingZeros64_bits(2) [OF assms(1)])
  then have "bit (push_bit 32 x) (63 - leadingZeros64 x + 32)"
    using assms(2) leadingZeros64_bits(1) [OF assms(1)] unfolding bit_push_bit_iff by auto
  then have "63 - leadingZeros64 x + 32 \<le> 63 - leadingZeros64 x"
    using leadingZeros64_bits(3) [OF assms(1)] eq by metis
  then show False by simp
qed

text \<open>The encoding of two values that differ: the first value, then 13 bits and the window.\<close>

lemma encode_two_values:
  assumes x: "Value p0 XOR Value p1 = x" "x \<noteq> 0"
  obtains bw where "bw_wf bw" and "gorillaEncodeValues [p0, p1] = bw_buf bw"
    and "take 8 (bw_buf bw) = put_le 8 (Value p0)" and "8 \<le> length (bw_buf bw)"
    and "bw_pos bw = 77 + (64 - leadingZeros64 x - trailingZeros64 x)"
    and "has_bits (drop 8 (bw_buf bw)) 0 ([True, True] @ val_bits (ucast (of_nat (leadingZeros64 x) :: byte)) 5 @
      val_bits (ucast (of_nat (trailingZeros64 x) :: byte)) 6 @
      val_bits (drop_bit (trailingZeros64 x) x) (64 - leadingZeros64 x - trailingZeros64 x))"
proof -
  let ?nl = "of_nat (leadingZeros64 x) :: byte" and ?nt = "of_nat (trailingZeros64 x) :: byte"
  let ?n = "64 - leadingZeros64 x - trailingZeros64 x" and ?m = "drop_bit (trailingZeros64 x) x"
  let ?init = "append_bytes newBitWriter (put_le 8 (Value p0))"
  let ?bits = "[True, True] @ val_bits (ucast ?nl) 5 @ val_bits (ucast ?nt) 6 @ val_bits ?m ?n"
  obtain bw where bw: "bw = writeBits (writeBits (writeBits (writeBit (writeBit ?init 1) 1) (ucast ?nl) 5) (ucast ?nt) 6) ?m ?n"
    by simp
  have bound: "leadingZeros64 x < 64" "leadingZeros64 x + trailingZeros64 x \<le> 63"
    using leadingZeros64_bits(1) [OF x(2)] trailingZeros64_bits(3) [OF x(2)] by simp_all
  then have un: "unat ?nl = leadingZeros64 x" "unat ?nt = trailingZeros64 x" by (simp_all add: unat_count)
  have "unat (NOT 0 :: byte) = 255" by code_simp
  then have "\<not> NOT 0 \<le> ?nl" using un bound by (simp add: word_le_nat_alt)
  then have enc: "gorillaEncodeValues [p0, p1] = bw_buf bw"
    using x un by (simp add: bw bw_bytes_def Let_def middle_bits)
  have al: "bw_wf ?init" "bw_pos ?init = 64" "bw_buf ?init = put_le 8 (Value p0)"
    unfolding append_bytes_def newBitWriter_def bw_wf_def by simp_all
  have em: "emits ?init bw ?bits"
    using emits_writeBits_then [OF emits_writeBits_then [OF emits_writeBits_then [OF
      emits_writeBit_then [OF emits_writeBit_then [OF emits_refl [OF al(1)], of 1], of 1], of "ucast ?nl" 5], of "ucast ?nt" 6], of ?m ?n]
    by (simp add: bw del: val_bits.simps)
  obtain rest where rest: "bw_buf bw = put_le 8 (Value p0) @ rest"
    using emits_keeps_prefix [OF em] al by auto
  have "has_bits (drop 8 (bw_buf bw)) 0 ?bits"
    using emits_has_bits [OF em] al(2) has_bits_drop [of "bw_buf bw" 8 0 ?bits] by (simp del: val_bits.simps has_bits_append)
  moreover have "bw_pos bw = 77 + ?n" using emits_pos [OF em] al(2) by simp
  moreover have "take 8 (bw_buf bw) = put_le 8 (Value p0)" "8 \<le> length (bw_buf bw)" unfolding rest by simp_all
  ultimately show thesis using that emits_wf [OF em] enc by blast
qed

text \<open>The decoder, reading 32 bits too many, finds zeros behind the window.\<close>

lemma decode_close_value:
  assumes x: "x \<noteq> 0" and l: "32 \<le> leadingZeros64 x" and wf: "bw_wf bw" "8 \<le> length (bw_buf bw)"
    and pos: "bw_pos bw = 77 + (64 - leadingZeros64 x - trailingZeros64 x)" and d: "d = drop 8 (bw_buf bw)"
    and hb: "has_bits d 0 ([True, True] @ val_bits (ucast (of_nat (leadingZeros64 x) :: byte)) 5 @
      val_bits (ucast (of_nat (trailingZeros64 x) :: byte)) 6 @
      val_bits (drop_bit (trailingZeros64 x) x) (64 - leadingZeros64 x - trailingZeros64 x))"
  shows "decode_value_loop \<lparr>br_data = d, br_pos = 0\<rparr> (Suc 0) v0 (NOT 0) 0 = [v0 XOR push_bit 32 x]"
proof -
  let ?nl = "of_nat (leadingZeros64 x) :: byte" and ?nt = "of_nat (trailingZeros64 x) :: byte"
  let ?n = "64 - leadingZeros64 x - trailingZeros64 x" and ?m = "drop_bit (trailingZeros64 x) x"
  have bound: "leadingZeros64 x < 64" "leadingZeros64 x + trailingZeros64 x \<le> 63"
    using leadingZeros64_bits(1) [OF x] trailingZeros64_bits(3) [OF x] by simp_all
  have h: "has_bits d 2 (val_bits (ucast ?nl) 5)" "has_bits d 7 (val_bits (ucast ?nt) 6)"
    "has_bits d 13 (val_bits ?m ?n)"
    using hb by (simp_all del: val_bits.simps add: numeral_2_eq_2)
  have rb: "readBit \<lparr>br_data = d, br_pos = 0\<rparr> = (1, \<lparr>br_data = d, br_pos = 1\<rparr>)"
    "readBit \<lparr>br_data = d, br_pos = 1\<rparr> = (1, \<lparr>br_data = d, br_pos = 2\<rparr>)"
    using hb readBit_bits [of d 0 True "[]"] readBit_bits [of d 1 True "[]"] by (simp_all del: val_bits.simps)
  have rl: "readBits \<lparr>br_data = d, br_pos = 2\<rparr> 5 = (take_bit 5 (ucast ?nl), \<lparr>br_data = d, br_pos = 7\<rparr>)"
    "readBits \<lparr>br_data = d, br_pos = 7\<rparr> 6 = (take_bit 6 (ucast ?nt), \<lparr>br_data = d, br_pos = 13\<rparr>)"
    using readBits_bits [OF h(1)] readBits_bits [OF h(2)] by simp_all
  have "bw_pos bw \<le> 8 * 8 + (13 + ?n)" using pos by simp
  from readBits_loop_past [OF wf(1) this wf(2)]
  have "fst (readBits \<lparr>br_data = d, br_pos = 13\<rparr> (?n + 32)) = push_bit 32 (take_bit ?n ?m)"
    using readBits_loop_bits [OF h(3), of 0] by (simp add: readBits_def readBits_loop_split d)
  then obtain br' where rv: "readBits \<lparr>br_data = d, br_pos = 13\<rparr> (?n + 32) = (push_bit 32 (take_bit ?n ?m), br')"
    by (metis prod.collapse)
  have "push_bit (trailingZeros64 x) (push_bit 32 (take_bit ?n ?m)) = push_bit 32 (push_bit (trailingZeros64 x) (take_bit ?n ?m))"
    by (simp only: push_bit_push_bit add.commute)
  then have val: "push_bit (trailingZeros64 x) (push_bit 32 (take_bit ?n ?m)) = push_bit 32 x"
    using window_recovers [OF x order.refl order.refl bound(2)] by (simp only:)
  have cl: "ucast (take_bit 5 (ucast ?nl :: u64)) = (of_nat (leadingZeros64 x - 32) :: byte)"
    using count_truncated [OF l] bound by simp
  have ct: "ucast (take_bit 6 (ucast ?nt :: u64)) = ?nt" using count_written [of _ 6] bound by simp
  have un: "unat (of_nat (leadingZeros64 x - 32) :: byte) = leadingZeros64 x - 32" "unat ?nt = trailingZeros64 x"
    using bound unat_count by simp_all
  have count: "64 - (leadingZeros64 x - 32) - trailingZeros64 x = ?n + 32" using bound l by linarith
  show ?thesis
    by (simp only: decode_value_loop.simps rb rl rv cl ct prod.case Let_def middle_bits un count val) simp
qed

lemma close_value_decoded:
  assumes x: "Value p0 XOR Value p1 = x" "x \<noteq> 0" and l: "32 \<le> leadingZeros64 x"
  shows "gorillaDecodeValues (gorillaEncodeValues [p0, p1]) 2 = Inr [Value p0, Value p0 XOR push_bit 32 x]"
proof (rule encode_two_values [OF x])
  fix bw
  assume bw: "bw_wf bw" "gorillaEncodeValues [p0, p1] = bw_buf bw" "take 8 (bw_buf bw) = put_le 8 (Value p0)"
    "8 \<le> length (bw_buf bw)" "bw_pos bw = 77 + (64 - leadingZeros64 x - trailingZeros64 x)"
    "has_bits (drop 8 (bw_buf bw)) 0 ([True, True] @ val_bits (ucast (of_nat (leadingZeros64 x) :: byte)) 5 @
      val_bits (ucast (of_nat (trailingZeros64 x) :: byte)) 6 @
      val_bits (drop_bit (trailingZeros64 x) x) (64 - leadingZeros64 x - trailingZeros64 x))"
  show ?thesis
    unfolding bw(2) gorillaDecodeValues_def Let_def newBitReader_def bw(3)
    using bw(4) decode_close_value [OF x(2) l bw(1,4,5) refl bw(6), of "Value p0"] by simp
qed

text \<open>A difference with 32 or more leading zeros is read back shifted by 32 bits, a wrong value.\<close>

theorem gorilla_close_values_misread:
  assumes "Value p0 XOR Value p1 \<noteq> 0" and "32 \<le> leadingZeros64 (Value p0 XOR Value p1)"
  shows "gorillaDecodeValues (gorillaEncodeValues [p0, p1]) 2 =
      Inr [Value p0, Value p0 XOR push_bit 32 (Value p0 XOR Value p1)] \<and>
    gorillaDecodeValues (gorillaEncodeValues [p0, p1]) 2 \<noteq> Inr (map Value [p0, p1])"
proof -
  let ?x = "Value p0 XOR Value p1"
  have "Value p0 XOR push_bit 32 ?x \<noteq> Value p1"
    using shifted_difference [OF assms] xor_back by metis
  then show ?thesis using close_value_decoded [OF refl assms] by simp
qed

lemma gorilla_close_values_misread_witness:
  "gorillaDecodeValues (gorillaEncodeValues [\<lparr>Timestamp = 0, Value = 5\<rparr>, \<lparr>Timestamp = 1, Value = 4\<rparr>]) 2
    = Inr [5, 0x100000005]"
proof -
  have "32 \<le> leadingZeros64 1" "(5 :: u64) XOR 4 = 1" "(5 :: u64) XOR push_bit 32 1 = 0x100000005" by code_simp+
  then show ?thesis
    using gorilla_close_values_misread [of "\<lparr>Timestamp = 0, Value = 5\<rparr>" "\<lparr>Timestamp = 1, Value = 4\<rparr>"]
    by simp
qed

end
