(* ===== verification/Go_Os.thy ===== *)
theory Go_Os
  imports Go_Prelude
begin

text \<open>
  What the repository uses of package \<^verbatim>\<open>os\<close> besides the log's own file: named files that are
  created, written in order, read at an offset, renamed and removed.  The environment decides on
  which paths an operation fails (\<open>o_denied\<close>) and how many bytes the device still takes
  (\<open>o_free\<close>), so every error return of the callers can happen.
\<close>

record os_state =
  o_files :: "string \<Rightarrow> byte list option"
  o_free :: nat
  o_denied :: "string \<Rightarrow> bool"

definition os_Create :: "string \<Rightarrow> os_state \<Rightarrow> go_error option \<times> os_state" where
  "os_Create path st =
     (if o_denied st path then (Some ErrIO, st)
      else (None, st\<lparr>o_files := (o_files st)(path \<mapsto> [])\<rparr>))"

text \<open>A write through a handle of a file that was created: the bytes that the device takes are appended.\<close>

definition os_Write :: "string \<Rightarrow> byte list \<Rightarrow> os_state \<Rightarrow> go_error option \<times> os_state" where
  "os_Write path p st =
     (let n = min (length p) (o_free st);
          old = (case o_files st path of None \<Rightarrow> [] | Some d \<Rightarrow> d)
      in (if n < length p then Some ErrIO else None,
          st\<lparr>o_files := (o_files st)(path \<mapsto> old @ take n p), o_free := o_free st - n\<rparr>))"

definition os_ReadFile :: "string \<Rightarrow> os_state \<Rightarrow> byte list res" where
  "os_ReadFile path st =
     (if o_denied st path then Inl ErrIO
      else case o_files st path of None \<Rightarrow> Inl ErrNotExist | Some d \<Rightarrow> Inr d)"

definition os_Remove :: "string \<Rightarrow> os_state \<Rightarrow> go_error option \<times> os_state" where
  "os_Remove path st =
     (if o_denied st path then (Some ErrIO, st)
      else if o_files st path = None then (Some ErrNotExist, st)
      else (None, st\<lparr>o_files := (o_files st)(path := None)\<rparr>))"

definition os_Rename :: "string \<Rightarrow> string \<Rightarrow> os_state \<Rightarrow> go_error option \<times> os_state" where
  "os_Rename old new st =
     (if o_denied st old \<or> o_denied st new then (Some ErrIO, st)
      else case o_files st old of None \<Rightarrow> (Some ErrNotExist, st)
        | Some d \<Rightarrow> (None, st\<lparr>o_files := (o_files st)(old := None, new \<mapsto> d)\<rparr>))"

text \<open>\<^verbatim>\<open>os.WriteFile\<close> creates or truncates, then writes.\<close>

definition os_WriteFile :: "string \<Rightarrow> byte list \<Rightarrow> os_state \<Rightarrow> go_error option \<times> os_state" where
  "os_WriteFile path p st =
     (case os_Create path st of (e, st) \<Rightarrow> if e \<noteq> None then (e, st) else os_Write path p st)"

text \<open>
  \<^verbatim>\<open>File.ReadAt\<close> on the contents: the bytes read and the error, \<open>EOF\<close> when the buffer was not
  filled.  The buffer is not longer than memory, and a negative offset is refused.
\<close>

definition ReadAt :: "byte list \<Rightarrow> nat \<Rightarrow> int \<Rightarrow> byte list \<times> go_error option" where
  "ReadAt d n off =
     (if off < 0 then ([], Some ErrIO)
      else let p = take n (drop (nat off) d) in (p, if length p < n then Some EOF else None))"

lemma os_Write_ok:
  assumes "os_Write path p st = (None, st')"
  shows "o_files st' = (o_files st)(path \<mapsto> (case o_files st path of None \<Rightarrow> [] | Some d \<Rightarrow> d) @ p)"
    and "o_denied st' = o_denied st"
  using assms by (auto simp: os_Write_def Let_def min_def split: if_splits)

lemma os_Write_other: "path' \<noteq> path \<Longrightarrow> o_files (snd (os_Write path p st)) path' = o_files st path'"
  by (simp add: os_Write_def Let_def)

lemma os_Create_ok:
  assumes "os_Create path st = (None, st')"
  shows "o_files st' = (o_files st)(path \<mapsto> [])" and "o_denied st' = o_denied st" and "\<not> o_denied st path"
  using assms by (auto simp: os_Create_def split: if_splits)

lemma os_Create_other: "path' \<noteq> path \<Longrightarrow> o_files (snd (os_Create path st)) path' = o_files st path'"
  by (simp add: os_Create_def)

lemma ReadAt_ok:
  "off \<ge> 0 \<Longrightarrow> nat off + n \<le> length d \<Longrightarrow> ReadAt d n off = (take n (drop (nat off) d), None)"
  by (simp add: ReadAt_def Let_def)

lemma ReadAt_drop: "drop k d = xs @ ys \<Longrightarrow> ReadAt d (length xs) (int k) = (xs, None)"
  by (simp add: ReadAt_def Let_def)

lemma os_Write_eq:
  assumes "o_files st path = Some old"
  shows "os_Write path p st =
    (if length p \<le> o_free st
     then (None, st\<lparr>o_files := (o_files st)(path \<mapsto> old @ p), o_free := o_free st - length p\<rparr>)
     else (Some ErrIO, st\<lparr>o_files := (o_files st)(path \<mapsto> old @ take (o_free st) p), o_free := 0\<rparr>))"
  using assms by (auto simp: os_Write_def Let_def min_def)

end
