(* ===== verification/Segment.thy ===== *)
theory Segment
  imports Gorilla Go_Os
begin

text \<open>
  Package \<^verbatim>\<open>internal/segment\<close>: the file that holds the points of a flushed memtable, its
  writer and its reader.  A file is a header, the encoded series, an index of 20-byte entries and a
  footer with a checksum and the position of the index.  The lemmas give the contents of a written
  file as a function of the series, and show that a reader opened on it finds each series.
\<close>

definition magic :: "byte list" where
  "magic = [0x43, 0x48, 0x44, 0x42]"

definition headerSize :: nat where
  "headerSize = 21"

definition footerSize :: nat where
  "footerSize = 12"

record SeriesPoints =
  SeriesID :: u64
  Points :: "point list"

record indexEntry =
  ie_seriesID :: u64
  ie_offset :: u64
  ie_numPoints :: u32

subsection \<open>The writer\<close>

text \<open>The struct \<^verbatim>\<open>Writer\<close>; its file is named by its path.\<close>

record seg_writer =
  sw_path :: string
  sw_offset :: i64
  sw_crc :: u32
  sw_version :: byte

definition seg_NewWriter :: "string \<Rightarrow> os_state \<Rightarrow> seg_writer res \<times> os_state" where
  "seg_NewWriter path st =
     (case os_Create path st of
        (Some e, st) \<Rightarrow> (Inl e, st)
      | (None, st) \<Rightarrow> (Inr \<lparr>sw_path = path, sw_offset = 0, sw_crc = 0, sw_version = 1\<rparr>, st))"

definition seg_NewWriterV2 :: "string \<Rightarrow> os_state \<Rightarrow> seg_writer res \<times> os_state" where
  "seg_NewWriterV2 path st =
     (case os_Create path st of
        (Some e, st) \<Rightarrow> (Inl e, st)
      | (None, st) \<Rightarrow> (Inr \<lparr>sw_path = path, sw_offset = 0, sw_crc = 0, sw_version = 2\<rparr>, st))"

definition seg_writeHeader :: "seg_writer \<Rightarrow> i64 \<Rightarrow> i64 \<Rightarrow> os_state \<Rightarrow> go_error option \<times> seg_writer \<times> os_state" where
  "seg_writeHeader w blockStart blockEnd st =
     (let buf = magic @ [sw_version w] @ put_le 8 blockStart @ put_le 8 blockEnd in
      case os_Write (sw_path w) buf st of
        (Some e, st) \<Rightarrow> (Some e, w, st)
      | (None, st) \<Rightarrow> (None, w\<lparr>sw_offset := sw_offset w + of_nat (length buf),
          sw_crc := crc32_Update (sw_crc w) buf\<rparr>, st))"

text \<open>The deltas between neighbouring timestamps.\<close>

fun put_deltas :: "i64 \<Rightarrow> point list \<Rightarrow> byte list" where
  "put_deltas prev [] = []"
| "put_deltas prev (p # ps) = put_varint (Timestamp p - prev) @ put_deltas (Timestamp p) ps"

fun encodePoints :: "point list \<Rightarrow> byte list" where
  "encodePoints [] = []"
| "encodePoints (p # ps) =
     put_le 8 (Timestamp p) @ put_deltas (Timestamp p) ps @ concat (map (\<lambda>p. put_le 8 (Value p)) (p # ps))"

definition encodeSeries :: "byte \<Rightarrow> point list \<Rightarrow> byte list" where
  "encodeSeries version points =
     (if points = [] then []
      else if version \<ge> 2 then gorillaEncodeSeries points
      else encodePoints points)"

text \<open>The loop over the series: the writer's counters, the index entries and the data buffer grow together.\<close>

fun encode_loop :: "seg_writer \<Rightarrow> indexEntry list \<Rightarrow> byte list \<Rightarrow> SeriesPoints list \<Rightarrow>
    seg_writer \<times> indexEntry list \<times> byte list" where
  "encode_loop w entries dataBuf [] = (w, entries, dataBuf)"
| "encode_loop w entries dataBuf (sp # sps) =
     (if Points sp = [] then encode_loop w entries dataBuf sps
      else
        let entry = \<lparr>ie_seriesID = SeriesID sp, ie_offset = sw_offset w, ie_numPoints = of_nat (length (Points sp))\<rparr>;
            seriesData = encodeSeries (sw_version w) (Points sp);
            w = w\<lparr>sw_offset := sw_offset w + of_nat (length seriesData), sw_crc := crc32_Update (sw_crc w) seriesData\<rparr>
        in encode_loop w (entries @ [entry]) (dataBuf @ seriesData) sps)"

definition put_entry :: "indexEntry \<Rightarrow> byte list" where
  "put_entry e = put_le 8 (ie_seriesID e) @ put_le 8 (ie_offset e) @ put_le 4 (ie_numPoints e)"

fun write_index :: "seg_writer \<Rightarrow> indexEntry list \<Rightarrow> os_state \<Rightarrow> go_error option \<times> seg_writer \<times> os_state" where
  "write_index w [] st = (None, w, st)"
| "write_index w (e # es) st =
     (let buf = put_entry e in
      case os_Write (sw_path w) buf st of
        (Some err, st) \<Rightarrow> (Some err, w, st)
      | (None, st) \<Rightarrow> write_index (w\<lparr>sw_offset := sw_offset w + 20, sw_crc := crc32_Update (sw_crc w) buf\<rparr>) es st)"

definition seg_writeFooter :: "seg_writer \<Rightarrow> u64 \<Rightarrow> os_state \<Rightarrow> go_error option \<times> seg_writer \<times> os_state" where
  "seg_writeFooter w indexOffset st =
     (let buf = put_le 4 (sw_crc w) @ put_le 8 indexOffset in
      case os_Write (sw_path w) buf st of
        (Some e, st) \<Rightarrow> (Some e, w, st)
      | (None, st) \<Rightarrow> (None, w\<lparr>sw_offset := sw_offset w + of_nat footerSize\<rparr>, st))"

text \<open>\<open>srt\<close> is \<^verbatim>\<open>sort.Slice\<close> by \<open>SeriesID\<close>.\<close>

definition seg_Write :: "(SeriesPoints list \<Rightarrow> SeriesPoints list) \<Rightarrow> seg_writer \<Rightarrow> SeriesPoints list \<Rightarrow> i64 \<Rightarrow> i64 \<Rightarrow>
    os_state \<Rightarrow> go_error option \<times> seg_writer \<times> os_state" where
  "seg_Write srt w seriesList blockStart blockEnd st =
     (let seriesList = srt seriesList in
      case seg_writeHeader w blockStart blockEnd st of
        (Some e, w, st) \<Rightarrow> (Some e, w, st)
      | (None, w, st) \<Rightarrow>
        (case encode_loop w [] [] seriesList of (w, entries, dataBuf) \<Rightarrow>
          (case os_Write (sw_path w) dataBuf st of
             (Some e, st) \<Rightarrow> (Some e, w, st)
           | (None, st) \<Rightarrow>
             let idxOffset = sw_offset w in
             (case write_index w entries st of
                (Some e, w, st) \<Rightarrow> (Some e, w, st)
              | (None, w, st) \<Rightarrow> seg_writeFooter w idxOffset st))))"

subsection \<open>The reader\<close>

text \<open>
  The struct \<^verbatim>\<open>Reader\<close>; its open file is represented by the contents.  The errors of
  \<^verbatim>\<open>Stat\<close> on an open file are left out.
\<close>

record seg_reader =
  rd_file :: "byte list"
  rd_index :: "indexEntry list"
  rd_blockStart :: i64
  rd_blockEnd :: i64
  rd_version :: byte

definition readFooter :: "seg_reader \<Rightarrow> unit res" where
  "readFooter r = (if length (rd_file r) < headerSize + footerSize then Inl ErrCorrupt else Inr ())"

definition readHeader :: "seg_reader \<Rightarrow> seg_reader res" where
  "readHeader r =
     (case ReadAt (rd_file r) headerSize 0 of
        (buf, Some e) \<Rightarrow> Inl e
      | (buf, None) \<Rightarrow>
          if take 4 buf \<noteq> magic then Inl ErrCorrupt
          else Inr (r\<lparr>rd_version := buf ! 4, rd_blockStart := get_le (take 8 (drop 5 buf)),
                      rd_blockEnd := get_le (take 8 (drop 13 buf))\<rparr>))"

definition get_entry :: "byte list \<Rightarrow> indexEntry" where
  "get_entry buf = \<lparr>ie_seriesID = get_le (take 8 buf), ie_offset = get_le (take 8 (drop 8 buf)),
     ie_numPoints = get_le (take 4 (drop 16 buf))\<rparr>"

text \<open>\<^verbatim>\<open>footerOff\<close> and \<^verbatim>\<open>idxSize\<close> are \<^verbatim>\<open>int64\<close>; allocating the buffer is taken to succeed.\<close>

definition readIndex :: "seg_reader \<Rightarrow> seg_reader res" where
  "readIndex r =
     (let footerOff = (of_nat (length (rd_file r)) :: i64) - of_nat footerSize in
      case ReadAt (rd_file r) 8 (sint (footerOff + 4)) of
        (buf, Some e) \<Rightarrow> Inl e
      | (buf, None) \<Rightarrow>
          let idxOffset = get_le buf :: i64; idxSize = footerOff - idxOffset in
          if sint idxSize < 0 \<or> sint idxSize mod 20 \<noteq> 0 then Inl ErrCorrupt
          else
            let numEntries = nat (sint idxSize) div 20 in
            (case ReadAt (rd_file r) (nat (sint idxSize)) (sint idxOffset) of
               (idxBuf, Some e) \<Rightarrow> Inl e
             | (idxBuf, None) \<Rightarrow>
                 Inr (r\<lparr>rd_index := map (\<lambda>i. get_entry (take 20 (drop (i * 20) idxBuf))) [0..<numEntries]\<rparr>)))"

definition OpenReader :: "string \<Rightarrow> os_state \<Rightarrow> seg_reader res" where
  "OpenReader path st =
     res_bind (os_ReadFile path st) (\<lambda>d.
     let r = \<lparr>rd_file = d, rd_index = [], rd_blockStart = 0, rd_blockEnd = 0, rd_version = 0\<rparr> in
     res_bind (readFooter r) (\<lambda>_.
     res_bind (readHeader r) readIndex))"

text \<open>
  \<^verbatim>\<open>decodePoints(data[:n], numPoints)\<close>, where \<open>buf\<close> is the whole buffer under \<^verbatim>\<open>data\<close>:
  \<^verbatim>\<open>data[off:]\<close> ends at \<open>n\<close>, while \<^verbatim>\<open>data[off:off+8]\<close> may reach up to the capacity.
\<close>

fun decode_deltas :: "byte list \<Rightarrow> nat \<Rightarrow> nat \<Rightarrow> i64 \<Rightarrow> nat \<Rightarrow> (i64 list \<times> nat) res" where
  "decode_deltas buf n off prev 0 = Inr ([], off)"
| "decode_deltas buf n off prev (Suc k) =
     res_bind (slice (take n buf) off n) (\<lambda>d.
       case varint d of (delta, m) \<Rightarrow>
         if m \<le> 0 then Inl ErrCorrupt
         else let t = prev + delta in
           res_bind (decode_deltas buf n (off + nat m) t k) (\<lambda>(tss, off). Inr (t # tss, off)))"

fun decode_vals :: "byte list \<Rightarrow> nat \<Rightarrow> nat \<Rightarrow> f64 list res" where
  "decode_vals buf off 0 = Inr []"
| "decode_vals buf off (Suc k) =
     res_bind (slice buf off (off + 8)) (\<lambda>d.
     res_bind (decode_vals buf (off + 8) k) (\<lambda>vs. Inr (get_le d # vs)))"

definition decodePoints :: "byte list \<Rightarrow> nat \<Rightarrow> nat \<Rightarrow> point list res" where
  "decodePoints buf n numPoints =
     (if numPoints = 0 then Inr []
      else
        res_bind (slice buf 0 8) (\<lambda>d.
        let t0 = get_le d in
        res_bind (decode_deltas buf n 8 t0 (numPoints - 1)) (\<lambda>(tss, off).
        res_bind (decode_vals buf off numPoints) (\<lambda>vs.
          Inr (map (\<lambda>(t, v). \<lparr>Timestamp = t, Value = v\<rparr>) (zip (t0 # tss) vs))))))"

text \<open>An end of file is not an error here; the part of the buffer behind it stays 0.\<close>

definition decodeSeriesAt :: "seg_reader \<Rightarrow> int \<Rightarrow> nat \<Rightarrow> point list res" where
  "decodeSeriesAt r offset numPoints =
     (if rd_version r \<ge> 2 then
        (let maxSize = numPoints * 16 in
         case ReadAt (rd_file r) maxSize offset of (data, err) \<Rightarrow>
           if err \<noteq> None \<and> err \<noteq> Some EOF then Inl ErrIO
           else gorillaDecodeSeries data numPoints)
      else
        (let maxSize = 8 + numPoints * 8 + numPoints * 8 in
         case ReadAt (rd_file r) maxSize offset of (data, err) \<Rightarrow>
           if err \<noteq> None \<and> err \<noteq> Some EOF then Inl ErrIO
           else decodePoints (data @ replicate (maxSize - length data) 0) (length data) numPoints))"

text \<open>A series that is not in the index has no points and is no error.\<close>

definition ReadSeries :: "seg_reader \<Rightarrow> u64 \<Rightarrow> point list res" where
  "ReadSeries r seriesID =
     (let idx = sort_Search (length (rd_index r)) (\<lambda>i. ie_seriesID (rd_index r ! i) \<ge> seriesID) in
      if idx \<ge> length (rd_index r) \<or> ie_seriesID (rd_index r ! idx) \<noteq> seriesID then Inr []
      else let entry = rd_index r ! idx
        in decodeSeriesAt r (sint (ie_offset entry)) (unat (ie_numPoints entry)))"

fun readAll_loop :: "seg_reader \<Rightarrow> (u64, point list) gomap \<Rightarrow> indexEntry list \<Rightarrow> (u64, point list) gomap res" where
  "readAll_loop r m [] = Inr m"
| "readAll_loop r m (e # es) =
     res_bind (ReadSeries r (ie_seriesID e)) (\<lambda>pts. readAll_loop r (store m (ie_seriesID e) pts) es)"

definition ReadAll :: "seg_reader \<Rightarrow> (u64, point list) gomap res" where
  "ReadAll r = readAll_loop r [] (rd_index r)"

definition BlockRange :: "seg_reader \<Rightarrow> i64 \<times> i64" where
  "BlockRange r = (rd_blockStart r, rd_blockEnd r)"

definition NumSeries :: "seg_reader \<Rightarrow> nat" where
  "NumSeries r = length (rd_index r)"

definition ListSeries :: "seg_reader \<Rightarrow> u64 list" where
  "ListSeries r = map ie_seriesID (rd_index r)"

subsection \<open>What the writer leaves in the file\<close>

definition seg_header :: "byte \<Rightarrow> i64 \<Rightarrow> i64 \<Rightarrow> byte list" where
  "seg_header v bs be = magic @ [v] @ put_le 8 bs @ put_le 8 be"

definition seg_data :: "byte \<Rightarrow> SeriesPoints list \<Rightarrow> byte list" where
  "seg_data v sps = concat (map (encodeSeries v \<circ> Points) sps)"

fun seg_entries :: "byte \<Rightarrow> i64 \<Rightarrow> SeriesPoints list \<Rightarrow> indexEntry list" where
  "seg_entries v off [] = []"
| "seg_entries v off (sp # sps) =
     (if Points sp = [] then seg_entries v off sps
      else \<lparr>ie_seriesID = SeriesID sp, ie_offset = off, ie_numPoints = of_nat (length (Points sp))\<rparr>
        # seg_entries v (off + of_nat (length (encodeSeries v (Points sp)))) sps)"

definition seg_body :: "byte \<Rightarrow> i64 \<Rightarrow> i64 \<Rightarrow> SeriesPoints list \<Rightarrow> byte list" where
  "seg_body v bs be sps =
     seg_header v bs be @ seg_data v sps @ concat (map put_entry (seg_entries v (of_nat headerSize) sps))"

text \<open>The whole file: the body, a checksum, and where the index starts; the writer's checksum is that of the body.\<close>

definition seg_file_with :: "u32 \<Rightarrow> byte \<Rightarrow> i64 \<Rightarrow> i64 \<Rightarrow> SeriesPoints list \<Rightarrow> byte list" where
  "seg_file_with c v bs be sps =
     seg_body v bs be sps @ put_le 4 c @ put_le 8 (of_nat (headerSize + length (seg_data v sps)) :: u64)"

definition seg_file :: "byte \<Rightarrow> i64 \<Rightarrow> i64 \<Rightarrow> SeriesPoints list \<Rightarrow> byte list" where
  "seg_file v bs be sps = seg_file_with (crc32_ChecksumIEEE (seg_body v bs be sps)) v bs be sps"

lemma length_magic [simp]: "length magic = 4"
  by (simp add: magic_def)

lemma length_seg_header [simp]: "length (seg_header v bs be) = headerSize"
  by (simp add: seg_header_def headerSize_def)

lemma length_put_entry [simp]: "length (put_entry e) = 20"
  by (simp add: put_entry_def)

lemma encodeSeries_Nil [simp]: "encodeSeries v [] = []"
  by (simp add: encodeSeries_def)

lemma encode_loop_eq:
  "encode_loop w es buf sps =
    (w\<lparr>sw_offset := sw_offset w + of_nat (length (seg_data (sw_version w) sps)),
       sw_crc := crc32_Update (sw_crc w) (seg_data (sw_version w) sps)\<rparr>,
     es @ seg_entries (sw_version w) (sw_offset w) sps, buf @ seg_data (sw_version w) sps)"
proof (induction sps arbitrary: w es buf)
  case Nil
  then show ?case by (simp add: seg_data_def)
next
  case (Cons sp sps)
  then show ?case by (simp add: seg_data_def Let_def crc32_Update_append add.assoc)
qed

text \<open>Each step of the writer either appends all of its bytes or reports an error.\<close>

lemma write_index_eq:
  assumes "o_files st (sw_path w) = Some old"
  shows "if 20 * length es \<le> o_free st
    then write_index w es st =
      (None, w\<lparr>sw_offset := sw_offset w + 20 * of_nat (length es),
               sw_crc := crc32_Update (sw_crc w) (concat (map put_entry es))\<rparr>,
       st\<lparr>o_files := (o_files st)(sw_path w \<mapsto> old @ concat (map put_entry es)), o_free := o_free st - 20 * length es\<rparr>)
    else fst (write_index w es st) = Some ErrIO"
  using assms
proof (induction es arbitrary: w st old)
  case Nil
  then show ?case by (simp add: fun_upd_idem)
next
  case (Cons e es)
  show ?case
  proof (cases "20 \<le> o_free st")
    case True
    let ?st = "st\<lparr>o_files := (o_files st)(sw_path w \<mapsto> old @ put_entry e), o_free := o_free st - 20\<rparr>"
    let ?w = "w\<lparr>sw_offset := sw_offset w + 20, sw_crc := crc32_Update (sw_crc w) (put_entry e)\<rparr>"
    have step: "write_index w (e # es) st = write_index ?w es ?st"
      using True Cons.prems by (simp add: os_Write_eq Let_def)
    then show ?thesis
      using Cons.IH [of ?st ?w "old @ put_entry e"] True
      by (auto simp: step crc32_Update_append algebra_simps simp del: write_index.simps split: if_splits)
  next
    case False
    then show ?thesis using Cons.prems by (simp add: os_Write_eq Let_def)
  qed
qed

lemma seg_Write_eq:
  assumes w: "sw_offset w = 0" "sw_crc w = 0" and old: "o_files st (sw_path w) = Some []"
  shows "if length (seg_file (sw_version w) bs be (srt sps)) \<le> o_free st
    then \<exists>w'. seg_Write srt w sps bs be st =
      (None, w', st\<lparr>o_files := (o_files st)(sw_path w \<mapsto> seg_file (sw_version w) bs be (srt sps)),
                    o_free := o_free st - length (seg_file (sw_version w) bs be (srt sps))\<rparr>)
    else fst (seg_Write srt w sps bs be st) = Some ErrIO"
proof -
  let ?v = "sw_version w" and ?p = "sw_path w"
  let ?h = "seg_header ?v bs be" and ?d = "seg_data ?v (srt sps)"
  let ?es = "seg_entries ?v (of_nat headerSize) (srt sps)"
  let ?i = "concat (map put_entry ?es)"
  have len: "length (seg_file ?v bs be (srt sps)) = headerSize + length ?d + 20 * length ?es + 12"
    using length_concat_pieces [of put_entry 20 ?es] by (simp add: seg_file_def seg_file_with_def seg_body_def)
  have head: "seg_writeHeader w bs be st = (case os_Write ?p ?h st of (Some e, st) \<Rightarrow> (Some e, w, st)
      | (None, st) \<Rightarrow> (None, w\<lparr>sw_offset := of_nat headerSize, sw_crc := crc32_Update 0 ?h\<rparr>, st))"
    using w by (simp add: seg_writeHeader_def Let_def seg_header_def headerSize_def split: prod.splits option.splits)
  show ?thesis
  proof (cases "headerSize + length ?d \<le> o_free st")
    case False
    then show ?thesis
      using old len by (auto simp: seg_Write_def head os_Write_eq encode_loop_eq Let_def)
  next
    case True
    let ?w = "w\<lparr>sw_offset := of_nat headerSize + of_nat (length ?d), sw_crc := crc32_Update 0 (?h @ ?d)\<rparr>"
    let ?st = "st\<lparr>o_files := (o_files st)(?p \<mapsto> ?h @ ?d), o_free := o_free st - headerSize - length ?d\<rparr>"
    have free: "headerSize \<le> o_free st" "length ?d \<le> o_free st - headerSize" using True by simp_all
    have run: "seg_Write srt w sps bs be st = (case write_index ?w ?es ?st of
        (Some e, w, st) \<Rightarrow> (Some e, w, st)
      | (None, w, st) \<Rightarrow> seg_writeFooter w (of_nat headerSize + of_nat (length ?d)) st)"
      using old free by (simp add: seg_Write_def head os_Write_eq encode_loop_eq Let_def crc32_Update_append)
    note idx = write_index_eq [of ?st ?w "?h @ ?d" ?es]
    show ?thesis
    proof (cases "20 * length ?es \<le> o_free ?st")
      case False
      then have "fst (write_index ?w ?es ?st) = Some ErrIO" using idx by (simp split: if_splits)
      then obtain x where "write_index ?w ?es ?st = (Some ErrIO, x)" by (metis prod.collapse)
      then have "fst (seg_Write srt w sps bs be st) = Some ErrIO"
        unfolding run by (simp split: prod.splits)
      then show ?thesis using False len by auto
    next
      case True
      then show ?thesis
        using idx len w \<open>headerSize + length ?d \<le> o_free st\<close>
        by (auto simp: run seg_writeFooter_def Let_def os_Write_eq seg_file_def seg_file_with_def seg_body_def crc32_ChecksumIEEE_def
            crc32_Update_append)
    qed
  qed
qed

subsection \<open>Opening a written file\<close>

lemma get_put_entry [simp]: "get_entry (put_entry e) = e"
  by (simp add: get_entry_def put_entry_def)

lemma map_get_entry:
  "map (\<lambda>i. get_entry (take 20 (drop (i * 20) (concat (map put_entry es))))) [0..<length es] = es"
proof (rule nth_equalityI)
  fix i assume "i < length (map (\<lambda>i. get_entry (take 20 (drop (i * 20) (concat (map put_entry es))))) [0..<length es])"
  then show "map (\<lambda>i. get_entry (take 20 (drop (i * 20) (concat (map put_entry es))))) [0..<length es] ! i = es ! i"
    using concat_pieces [of put_entry 20 i es "[]"] by simp
qed simp

definition written_reader :: "u32 \<Rightarrow> byte \<Rightarrow> i64 \<Rightarrow> i64 \<Rightarrow> SeriesPoints list \<Rightarrow> seg_reader" where
  "written_reader c v bs be sps =
     \<lparr>rd_file = seg_file_with c v bs be sps, rd_index = seg_entries v (of_nat headerSize) sps,
      rd_blockStart = bs, rd_blockEnd = be, rd_version = v\<rparr>"

lemma length_seg_file:
  "length (seg_file_with c v bs be sps) =
    headerSize + length (seg_data v sps) + 20 * length (seg_entries v (of_nat headerSize) sps) + footerSize"
  using length_concat_pieces [of put_entry 20] by (simp add: seg_file_with_def seg_body_def footerSize_def)

lemma readHeader_written:
  assumes "rd_file r = seg_file_with c v bs be sps"
  shows "readHeader r = Inr (r\<lparr>rd_version := v, rd_blockStart := bs, rd_blockEnd := be\<rparr>)"
proof -
  have "take headerSize (rd_file r) = seg_header v bs be"
    using assms by (simp add: seg_file_with_def seg_body_def)
  then have r: "ReadAt (rd_file r) headerSize 0 = (seg_header v bs be, None)"
    by (simp add: ReadAt_def Let_def)
  show ?thesis unfolding readHeader_def r by (simp add: seg_header_def magic_def)
qed

lemma readIndex_written:
  assumes f: "rd_file r = seg_file_with c v bs be sps" and small: "length (seg_file_with c v bs be sps) < 2 ^ 63"
  shows "readIndex r = Inr (r\<lparr>rd_index := seg_entries v (of_nat headerSize) sps\<rparr>)"
proof -
  let ?es = "seg_entries v (of_nat headerSize) sps"
  let ?f = "seg_file_with c v bs be sps"
  let ?n = "headerSize + length (seg_data v sps)" and ?i = "concat (map put_entry ?es)"
  have li: "length ?i = 20 * length ?es" by (rule length_concat_pieces) simp
  have len: "length ?f = ?n + 20 * length ?es + 12" by (simp add: length_seg_file footerSize_def)
  have cont: "?f = (seg_header v bs be @ seg_data v sps) @ ?i @ put_le 4 c @ put_le 8 (of_nat ?n :: u64)"
    by (simp add: seg_file_with_def seg_body_def)
  have word: "sint (of_nat k :: i64) = int k" if "k \<le> length ?f" for k
    using sint_of_int [of "int k"] that small by simp
  have fo: "(of_nat (length ?f) :: i64) - of_nat footerSize + 4 = of_nat (length ?f - 8)"
    "(of_nat (length ?f) :: i64) - of_nat footerSize - of_nat ?n = of_nat (20 * length ?es)"
    using len by (simp_all add: footerSize_def)
  have foot: "ReadAt ?f 8 (sint ((of_nat (length ?f) :: i64) - of_nat footerSize + 4)) = (put_le 8 (of_nat ?n :: u64), None)"
  proof -
    have "drop (length ?f - 8) ?f = put_le 8 (of_nat ?n :: u64) @ []" unfolding len unfolding cont using li by simp
    from ReadAt_drop [OF this] show ?thesis
      unfolding fo using word [of "length ?f - 8"] by (simp only: length_put_le diff_le_self)
  qed
  have idx: "ReadAt ?f (20 * length ?es) (int ?n) = (?i, None)"
  proof -
    have "drop ?n ?f = ?i @ put_le 4 c @ put_le 8 (of_nat ?n :: u64)"
      unfolding cont by simp
    from ReadAt_drop [OF this] show ?thesis by (simp only: li)
  qed
  have sz: "sint (of_nat (20 * length ?es) :: i64) = int (20 * length ?es)" "sint (of_nat ?n :: i64) = int ?n"
    using word [of "20 * length ?es"] word [of ?n] len by simp_all
  show ?thesis
    unfolding readIndex_def f Let_def foot
    unfolding prod.case option.case get_put_le_64 fo(2) sz nat_int idx
    by (simp add: map_get_entry)
qed

lemma OpenReader_written:
  assumes "o_files st path = Some (seg_file_with c v bs be sps)" and "\<not> o_denied st path"
    and "length (seg_file_with c v bs be sps) < 2 ^ 63"
  shows "OpenReader path st = Inr (written_reader c v bs be sps)"
proof -
  let ?r = "\<lparr>rd_file = seg_file_with c v bs be sps, rd_index = [], rd_blockStart = 0, rd_blockEnd = 0, rd_version = 0\<rparr>"
  have "os_ReadFile path st = Inr (seg_file_with c v bs be sps)" using assms by (simp add: os_ReadFile_def)
  moreover have "readFooter ?r = Inr ()" by (simp add: readFooter_def length_seg_file)
  ultimately show ?thesis
    using readHeader_written [of ?r c v bs be sps]
      readIndex_written [of "?r\<lparr>rd_version := v, rd_blockStart := bs, rd_blockEnd := be\<rparr>" c v bs be sps] assms(3)
    by (simp add: OpenReader_def written_reader_def)
qed

subsection \<open>Reading a series back\<close>

lemma decode_deltas_put:
  assumes "length pre + length (put_deltas prev ps) \<le> n" and "n \<le> length (pre @ put_deltas prev ps @ rest)"
  shows "decode_deltas (pre @ put_deltas prev ps @ rest) n (length pre) prev (length ps) =
    Inr (map Timestamp ps, length pre + length (put_deltas prev ps))"
  using assms
proof (induction ps arbitrary: pre prev)
  case Nil
  then show ?case by simp
next
  case (Cons p ps)
  let ?d = "put_varint (Timestamp p - prev)" and ?ds = "put_deltas (Timestamp p) ps"
  let ?buf = "pre @ put_deltas prev (p # ps) @ rest"
  have "take n ?buf = (pre @ ?d) @ take (n - length (pre @ ?d)) (?ds @ rest)"
    using Cons.prems by simp
  then have "slice (take n ?buf) (length pre) n = Inr (?d @ take (n - length (pre @ ?d)) (?ds @ rest))"
    using Cons.prems by (simp add: slice_def)
  moreover have "decode_deltas ((pre @ ?d) @ ?ds @ rest) n (length (pre @ ?d)) (Timestamp p) (length ps) =
      Inr (map Timestamp ps, length (pre @ ?d) + length ?ds)"
    using Cons.prems by (intro Cons.IH) simp_all
  ultimately show ?case by (simp add: varint_put add.assoc Let_def del: take_append)
qed

lemma decode_vals_put:
  "decode_vals (pre @ concat (map (\<lambda>p. put_le 8 (Value p)) ps) @ rest) (length pre) (length ps) = Inr (map Value ps)"
proof (induction ps arbitrary: pre)
  case (Cons p ps)
  let ?v = "put_le 8 (Value p)" and ?vs = "concat (map (\<lambda>p. put_le 8 (Value p)) ps)"
  have "slice (pre @ ?v @ ?vs @ rest) (length pre) (length pre + 8) = Inr ?v" by (rule slice_middle) simp_all
  moreover have "decode_vals ((pre @ ?v) @ ?vs @ rest) (length (pre @ ?v)) (length ps) = Inr (map Value ps)"
    by (rule Cons.IH)
  ultimately show ?case by simp
qed simp

lemma zip_points: "map (\<lambda>(t, v). \<lparr>Timestamp = t, Value = v\<rparr>) (zip (map Timestamp pts) (map Value pts)) = pts"
  by (induction pts) simp_all

lemma decodePoints_encode:
  assumes "pts \<noteq> []" and "length (encodePoints pts) \<le> n" and "n \<le> length (encodePoints pts @ rest)"
  shows "decodePoints (encodePoints pts @ rest) n (length pts) = Inr pts"
proof -
  obtain p ps where pts: "pts = p # ps" using assms(1) by (cases pts) auto
  let ?t = "put_le 8 (Timestamp p)" and ?ds = "put_deltas (Timestamp p) ps"
    and ?vs = "concat (map (\<lambda>p. put_le 8 (Value p)) pts)"
  have enc: "encodePoints pts = ?t @ ?ds @ ?vs" by (simp add: pts)
  have "slice (?t @ ?ds @ ?vs @ rest) 0 8 = Inr ?t" by (simp add: slice_def)
  moreover have "decode_deltas (?t @ ?ds @ ?vs @ rest) n 8 (Timestamp p) (length ps) =
      Inr (map Timestamp ps, 8 + length ?ds)"
    using decode_deltas_put [of ?t "Timestamp p" ps n "?vs @ rest"] assms(2,3) by (simp add: enc)
  moreover have "decode_vals (?t @ ?ds @ ?vs @ rest) (8 + length ?ds) (length pts) = Inr (map Value pts)"
    using decode_vals_put [of "?t @ ?ds" pts rest] by simp
  moreover have "Timestamp p # map Timestamp ps = map Timestamp pts" by (simp add: pts)
  ultimately show ?thesis
    using zip_points [of pts] assms(1) by (simp add: decodePoints_def enc pts)
qed

text \<open>
  What the reader can find again: fewer than \<open>2 ^ 32\<close> points, encoded in no more bytes than it
  reads.  In version 1 that holds when no two neighbouring timestamps are \<open>2 ^ 55\<close> or more apart.
\<close>

definition series_fits :: "byte \<Rightarrow> point list \<Rightarrow> bool" where
  "series_fits v pts \<longleftrightarrow> length pts < 2 ^ 32 \<and>
     (if v \<ge> 2 then series_compresses pts \<and> length (gorillaEncodeSeries pts) \<le> 16 * length pts
      else length (encodePoints pts) \<le> 8 + 16 * length pts)"

fun close_timestamps :: "point list \<Rightarrow> bool" where
  "close_timestamps (p # q # ps) =
     (- (2 ^ 55) \<le> sint (Timestamp q - Timestamp p) \<and> sint (Timestamp q - Timestamp p) < 2 ^ 55 \<and>
      close_timestamps (q # ps))"
| "close_timestamps _ = True"

lemma length_put_deltas:
  "close_timestamps (p # ps) \<Longrightarrow> length (put_deltas (Timestamp p) ps) \<le> 8 * length ps"
proof (induction ps arbitrary: p)
  case (Cons q ps)
  then show ?case using length_put_varint [of 7 "Timestamp q - Timestamp p"] by fastforce
qed simp

lemma series_fits_v1:
  assumes "v < 2" and "close_timestamps pts" and "length pts < 2 ^ 32"
  shows "series_fits v pts"
proof (cases pts)
  case (Cons p ps)
  then show ?thesis
    using assms length_put_deltas [of p ps] length_concat_pieces [of "\<lambda>p. put_le 8 (Value p)" 8 ps]
    by (simp add: series_fits_def linorder_not_le [symmetric])
qed (use assms in \<open>simp add: series_fits_def linorder_not_le [symmetric]\<close>)

lemma decodeSeriesAt_written:
  assumes fits: "series_fits (rd_version r) pts" and ne: "pts \<noteq> []"
    and f: "rd_file r = pre @ encodeSeries (rd_version r) pts @ rest"
  shows "decodeSeriesAt r (int (length pre)) (length pts) = Inr pts"
proof (cases "rd_version r \<ge> 2")
  case True
  let ?e = "gorillaEncodeSeries pts" and ?m = "length pts * 16"
  have "length ?e \<le> ?m" using fits True by (simp add: series_fits_def)
  then have "ReadAt (rd_file r) ?m (int (length pre)) =
      (?e @ take (?m - length ?e) rest, if length (?e @ take (?m - length ?e) rest) < ?m then Some EOF else None)"
    using f True ne by (simp add: ReadAt_def Let_def encodeSeries_def)
  then show ?thesis
    using True fits gorillaDecodeSeries_encode [of pts]
    by (simp add: decodeSeriesAt_def Let_def series_fits_def)
next
  case False
  let ?e = "encodePoints pts" and ?m = "8 + length pts * 8 + length pts * 8"
  let ?r = "take (?m - length ?e) rest"
  have le: "length ?e \<le> ?m" using fits False by (simp add: series_fits_def)
  then have rd: "ReadAt (rd_file r) ?m (int (length pre)) = (?e @ ?r, if length (?e @ ?r) < ?m then Some EOF else None)"
    using f False ne by (simp add: ReadAt_def Let_def encodeSeries_def)
  have "decodePoints (?e @ ?r @ replicate (?m - length (?e @ ?r)) 0) (length (?e @ ?r)) (length pts) = Inr pts"
    by (rule decodePoints_encode [OF ne]) simp_all
  then show ?thesis using False unfolding decodeSeriesAt_def Let_def rd by simp
qed

lemma seg_entries_ids:
  "map ie_seriesID (seg_entries v off sps) = map SeriesID (filter (\<lambda>sp. Points sp \<noteq> []) sps)"
  by (induction sps arbitrary: off) simp_all

lemma seg_entries_at:
  assumes "sp \<in> set sps" and "Points sp \<noteq> []"
  shows "\<exists>pre post. seg_data v sps = pre @ encodeSeries v (Points sp) @ post \<and>
    \<lparr>ie_seriesID = SeriesID sp, ie_offset = off + of_nat (length pre), ie_numPoints = of_nat (length (Points sp))\<rparr>
      \<in> set (seg_entries v off sps)"
  using assms(1)
proof (induction sps arbitrary: off)
  case (Cons q sps)
  show ?case
  proof (cases "sp = q")
    case True
    then show ?thesis
      using assms(2) by (intro exI [of _ "[]"] exI [of _ "seg_data v sps"]) (simp add: seg_data_def)
  next
    case False
    let ?e = "encodeSeries v (Points q)"
    obtain pre post where "seg_data v sps = pre @ encodeSeries v (Points sp) @ post"
      "\<lparr>ie_seriesID = SeriesID sp, ie_offset = (off + of_nat (length ?e)) + of_nat (length pre),
        ie_numPoints = of_nat (length (Points sp))\<rparr> \<in> set (seg_entries v (off + of_nat (length ?e)) sps)"
      using Cons.IH [of "off + of_nat (length ?e)"] Cons.prems False by auto
    then show ?thesis
      by (intro exI [of _ "?e @ pre"] exI [of _ post]) (auto simp: seg_data_def add.assoc)
  qed
qed simp

text \<open>The binary search of the reader finds the entry of a series, wherever it stands in the sorted index.\<close>

lemma ReadSeries_entry:
  assumes "sorted (map ie_seriesID (rd_index r))" and "distinct (map ie_seriesID (rd_index r))"
  shows "e \<in> set (rd_index r) \<Longrightarrow>
      ReadSeries r (ie_seriesID e) = decodeSeriesAt r (sint (ie_offset e)) (unat (ie_numPoints e))"
    and "sid \<notin> ie_seriesID ` set (rd_index r) \<Longrightarrow> ReadSeries r sid = Inr []"
proof -
  let ?xs = "rd_index r"
  let ?idx = "\<lambda>sid. sort_Search (length ?xs) (\<lambda>i. ie_seriesID (?xs ! i) \<ge> sid)"
  have S: "drop (?idx sid) ?xs = filter (\<lambda>e. ie_seriesID e \<ge> sid) ?xs" for sid
    using sort_Search_sorted(3) [OF assms(1), of "\<lambda>k. k \<ge> sid"] by simp
  show "ReadSeries r sid = Inr []" if "sid \<notin> ie_seriesID ` set ?xs"
  proof (cases "?idx sid < length ?xs")
    case True
    have "?xs ! ?idx sid \<in> set ?xs" using True by (rule nth_mem)
    then have "ie_seriesID (?xs ! ?idx sid) \<noteq> sid" using that by (metis imageI)
    then show ?thesis by (simp add: ReadSeries_def Let_def)
  qed (simp add: ReadSeries_def Let_def)
  assume e: "e \<in> set ?xs"
  let ?i = "?idx (ie_seriesID e)"
  have ne: "filter (\<lambda>x. ie_seriesID x \<ge> ie_seriesID e) ?xs \<noteq> []" using e by (auto simp: filter_empty_conv)
  then have lt: "?i < length ?xs" using S [of "ie_seriesID e"] by (metis drop_all not_le)
  have "e \<in> set (drop ?i ?xs)" using e by (simp add: S)
  then obtain k where "k < length (drop ?i ?xs)" "drop ?i ?xs ! k = e" by (metis in_set_conv_nth)
  then have k: "?i + k < length ?xs" "?xs ! (?i + k) = e" using lt by simp_all
  have "ie_seriesID (?xs ! ?i) \<le> ie_seriesID e"
    using sorted_nth_mono [OF assms(1), of ?i "?i + k"] k by simp
  moreover have "ie_seriesID (?xs ! ?i) \<ge> ie_seriesID e"
  proof -
    have "?xs ! ?i \<in> set (drop ?i ?xs)" using lt by (metis Cons_nth_drop_Suc list.set_intros(1))
    then show ?thesis unfolding S by simp
  qed
  ultimately have same: "ie_seriesID (?xs ! ?i) = ie_seriesID e" by simp
  then have "?xs ! ?i = e" using assms(2) e lt by (meson distinct_map inj_onD nth_mem)
  then show "ReadSeries r (ie_seriesID e) = decodeSeriesAt r (sint (ie_offset e)) (unat (ie_numPoints e))"
    using lt by (simp add: ReadSeries_def Let_def)
qed

text \<open>A reader opened on a written file finds every series, whatever checksum the footer holds.\<close>

definition segment_ok :: "byte \<Rightarrow> SeriesPoints list \<Rightarrow> bool" where
  "segment_ok v sps \<longleftrightarrow> distinct (map SeriesID sps) \<and> sorted (map SeriesID sps) \<and>
     (\<forall>sp\<in>set sps. series_fits v (Points sp)) \<and> headerSize + length (seg_data v sps) < 2 ^ 63"

lemma sorted_filter_key: "sorted (map key xs) \<Longrightarrow> sorted (map key (filter P xs))"
  by (induction xs) auto

lemma written_index:
  assumes "segment_ok v sps"
  shows "sorted (map ie_seriesID (rd_index (written_reader c v bs be sps)))"
    and "distinct (map ie_seriesID (rd_index (written_reader c v bs be sps)))"
  using assms by (simp_all add: written_reader_def seg_entries_ids segment_ok_def sorted_filter_key distinct_map_filter)

text \<open>The reader goes to the place of a series in the file, whether or not the series fits.\<close>

lemma ReadSeries_located:
  assumes "distinct (map SeriesID sps)" and "sorted (map SeriesID sps)" and "headerSize + length (seg_data v sps) < 2 ^ 63"
    and "sp \<in> set sps" and "Points sp \<noteq> []" and "length (Points sp) < 2 ^ 32"
  shows "\<exists>pre rest. rd_file (written_reader c v bs be sps) = pre @ encodeSeries v (Points sp) @ rest \<and>
    ReadSeries (written_reader c v bs be sps) (SeriesID sp) =
      decodeSeriesAt (written_reader c v bs be sps) (int (length pre)) (length (Points sp))"
proof -
  let ?r = "written_reader c v bs be sps"
  obtain pre post where data: "seg_data v sps = pre @ encodeSeries v (Points sp) @ post"
    and e: "\<lparr>ie_seriesID = SeriesID sp, ie_offset = of_nat headerSize + of_nat (length pre),
      ie_numPoints = of_nat (length (Points sp))\<rparr> \<in> set (rd_index ?r)"
    using seg_entries_at [OF assms(4,5), of v "of_nat headerSize"] by (auto simp: written_reader_def)
  have whole: "rd_file ?r = (seg_header v bs be @ pre) @ encodeSeries v (Points sp) @ post @
      concat (map put_entry (seg_entries v (of_nat headerSize) sps)) @ put_le 4 c @
      put_le 8 (of_nat (headerSize + length (seg_data v sps)) :: u64)"
    by (simp add: written_reader_def seg_file_with_def seg_body_def data)
  have "sint (of_nat headerSize + of_nat (length pre) :: i64) = int (headerSize + length pre)"
    using sint_of_int [of "int (headerSize + length pre)"] assms(3) by (simp add: data)
  moreover have "unat (of_nat (length (Points sp)) :: u32) = length (Points sp)" using assms(6) by (simp add: unat_of_nat)
  moreover have "sorted (map ie_seriesID (rd_index ?r))" "distinct (map ie_seriesID (rd_index ?r))"
    using assms(1,2) by (simp_all add: written_reader_def seg_entries_ids sorted_filter_key distinct_map_filter)
  ultimately have "ReadSeries ?r (SeriesID sp) = decodeSeriesAt ?r (int (length (seg_header v bs be @ pre))) (length (Points sp))"
    using ReadSeries_entry(1) [OF _ _ e] by simp
  then show ?thesis using whole by blast
qed

lemma ReadSeries_written:
  assumes "segment_ok v sps" and "sp \<in> set sps"
  shows "ReadSeries (written_reader c v bs be sps) (SeriesID sp) = Inr (Points sp)"
proof (cases "Points sp = []")
  case True
  have "SeriesID sp' \<noteq> SeriesID sp" if "sp' \<in> set sps" "Points sp' \<noteq> []" for sp'
    using that assms True unfolding segment_ok_def by (metis distinct_map inj_onD)
  then have "SeriesID sp \<notin> ie_seriesID ` set (seg_entries v (of_nat headerSize) sps)"
    unfolding set_map [symmetric] seg_entries_ids by force
  then show ?thesis
    using ReadSeries_entry(2) [OF written_index [OF assms(1)]] True by (simp add: written_reader_def)
next
  case False
  let ?r = "written_reader c v bs be sps"
  have v: "rd_version ?r = v" by (simp add: written_reader_def)
  have fits: "series_fits (rd_version ?r) (Points sp)" using assms by (simp add: segment_ok_def v)
  have ok: "distinct (map SeriesID sps)" "sorted (map SeriesID sps)" "headerSize + length (seg_data v sps) < 2 ^ 63"
    "length (Points sp) < 2 ^ 32"
    using assms(1) fits by (simp_all add: segment_ok_def series_fits_def)
  obtain pre rest where "rd_file ?r = pre @ encodeSeries (rd_version ?r) (Points sp) @ rest"
    "ReadSeries ?r (SeriesID sp) = decodeSeriesAt ?r (int (length pre)) (length (Points sp))"
    using ReadSeries_located [OF ok(1-3) assms(2) False ok(4), of c bs be] unfolding v by blast
  then show ?thesis using decodeSeriesAt_written [OF fits False] by simp
qed

lemma ReadSeries_absent:
  assumes "segment_ok v sps" and "sid \<notin> SeriesID ` set sps"
  shows "ReadSeries (written_reader c v bs be sps) sid = Inr []"
proof -
  have "sid \<notin> ie_seriesID ` set (seg_entries v (of_nat headerSize) sps)"
    unfolding set_map [symmetric] seg_entries_ids using assms(2) by auto
  then show ?thesis
    using ReadSeries_entry(2) [OF written_index [OF assms(1)]] by (simp add: written_reader_def)
qed

lemma readAll_loop_eq:
  assumes "\<forall>e\<in>set es. ReadSeries r (ie_seriesID e) = Inr (f (ie_seriesID e))"
    and "distinct (map fst m @ map ie_seriesID es)"
  shows "readAll_loop r m es = Inr (m @ map (\<lambda>e. (ie_seriesID e, f (ie_seriesID e))) es)"
  using assms
proof (induction es arbitrary: m)
  case (Cons e es)
  have new: "store m k v = m @ [(k, v)]" if "k \<notin> fst ` set m" for k v
    using that by (induction m) (auto simp: store_def)
  have "store m (ie_seriesID e) (f (ie_seriesID e)) = m @ [(ie_seriesID e, f (ie_seriesID e))]"
    using Cons.prems(2) by (intro new) auto
  then show ?case using Cons.IH [of "m @ [(ie_seriesID e, f (ie_seriesID e))]"] Cons.prems by simp
qed simp

lemma ReadAll_written:
  assumes "segment_ok v sps"
  shows "ReadAll (written_reader c v bs be sps) =
    Inr (map (\<lambda>sp. (SeriesID sp, Points sp)) (filter (\<lambda>sp. Points sp \<noteq> []) sps))"
proof -
  let ?r = "written_reader c v bs be sps" and ?live = "filter (\<lambda>sp. Points sp \<noteq> []) sps"
  let ?f = "\<lambda>sid. case ReadSeries ?r sid of Inr pts \<Rightarrow> pts | Inl e \<Rightarrow> []"
  have ids: "map ie_seriesID (rd_index ?r) = map SeriesID ?live"
    by (simp add: written_reader_def seg_entries_ids)
  have "ReadSeries ?r (ie_seriesID e) = Inr (?f (ie_seriesID e))" if "e \<in> set (rd_index ?r)" for e
  proof -
    have "ie_seriesID e \<in> SeriesID ` set ?live" using that ids by (metis image_eqI set_map)
    then show ?thesis using ReadSeries_written [OF assms] by auto
  qed
  then have "ReadAll ?r = Inr (map (\<lambda>e. (ie_seriesID e, ?f (ie_seriesID e))) (rd_index ?r))"
    unfolding ReadAll_def using written_index(2) [OF assms] readAll_loop_eq [of "rd_index ?r" ?r ?f "[]"] by simp
  also have "map (\<lambda>e. (ie_seriesID e, ?f (ie_seriesID e))) (rd_index ?r) = map (\<lambda>i. (i, ?f i)) (map SeriesID ?live)"
    unfolding ids [symmetric] by simp
  also have "\<dots> = map (\<lambda>sp. (SeriesID sp, Points sp)) ?live"
    using ReadSeries_written [OF assms] by simp
  finally show ?thesis .
qed

subsection \<open>Writer and reader together\<close>

text \<open>A writer that \<^verbatim>\<open>NewWriter\<close> or \<^verbatim>\<open>NewWriterV2\<close> returned on \<open>path\<close>, and the files then.\<close>

definition fresh_writer :: "string \<Rightarrow> os_state \<Rightarrow> seg_writer \<Rightarrow> os_state \<Rightarrow> bool" where
  "fresh_writer path st w st' \<longleftrightarrow> seg_NewWriter path st = (Inr w, st') \<or> seg_NewWriterV2 path st = (Inr w, st')"

lemma fresh_writer_facts:
  assumes "fresh_writer path st w st'"
  shows "sw_offset w = 0" and "sw_crc w = 0" and "sw_path w = path" and "o_files st' path = Some []"
    and "\<not> o_denied st' path" and "o_free st' = o_free st" and "sw_version w = 1 \<or> sw_version w = 2"
    and "o_files st' = (o_files st)(path \<mapsto> [])" and "o_denied st' = o_denied st"
  using assms
  by (auto simp: fresh_writer_def seg_NewWriter_def seg_NewWriterV2_def os_Create_def split: if_splits prod.splits)

lemma seg_Write_written:
  assumes "fresh_writer path st0 w st" and "seg_Write srt w sps bs be st = (None, w', st')"
  shows "st' = st\<lparr>o_files := (o_files st)(path \<mapsto> seg_file (sw_version w) bs be (srt sps)),
                   o_free := o_free st - length (seg_file (sw_version w) bs be (srt sps))\<rparr>"
  using seg_Write_eq [of w st bs be srt sps] fresh_writer_facts(1-4) [OF assms(1)] assms(2)
  by (auto split: if_splits)

lemma seg_Write_outcome:
  assumes "fresh_writer path st0 w st"
  shows "fst (seg_Write srt w sps bs be st) =
    (if length (seg_file (sw_version w) bs be (srt sps)) \<le> o_free st then None else Some ErrIO)"
  using seg_Write_eq [of w st bs be srt sps] fresh_writer_facts(1-4) [OF assms]
  by (auto split: if_splits)

text \<open>What the series of a segment have to satisfy, in the order given to the writer.\<close>

definition writable :: "byte \<Rightarrow> SeriesPoints list \<Rightarrow> bool" where
  "writable v sps \<longleftrightarrow> distinct (map SeriesID sps) \<and> (\<forall>sp\<in>set sps. series_fits v (Points sp)) \<and>
     length (seg_file v 0 0 sps) < 2 ^ 63"

lemma length_seg_entries: "length (seg_entries v off sps) = length (filter (\<lambda>sp. Points sp \<noteq> []) sps)"
  by (metis length_map seg_entries_ids)

lemma length_seg_file_perm:
  assumes "mset sps' = mset sps"
  shows "length (seg_file_with c v bs be sps') = length (seg_file_with c' v bs' be' sps)"
proof -
  have "length (seg_data v qs) = sum_mset (image_mset (length \<circ> encodeSeries v \<circ> Points) (mset qs))" for qs
    by (induction qs) (simp_all add: seg_data_def)
  moreover have "length (filter P qs) = size (filter_mset P (mset qs))" for P and qs :: "SeriesPoints list"
    by (metis mset_filter size_mset)
  ultimately show ?thesis using assms by (simp add: length_seg_file length_seg_entries)
qed

lemma writable_sorted:
  assumes "writable v sps" and "slice_sorter srt SeriesID"
  shows "segment_ok v (srt sps)" and "length (seg_file_with c v bs be (srt sps)) < 2 ^ 63"
proof -
  note mset_srt = slice_sorter.mset_srt [OF assms(2)] and sorted_srt = slice_sorter.sorted_srt [OF assms(2)]
    and set_srt = slice_sorter.set_srt [OF assms(2)]
  show len: "length (seg_file_with c v bs be (srt sps)) < 2 ^ 63" for c bs be
    using assms(1) length_seg_file_perm [OF mset_srt] unfolding writable_def seg_file_def by metis
  have "distinct (map SeriesID (srt sps))"
    using assms(1) mset_srt unfolding writable_def by (metis mset_eq_imp_distinct_iff mset_map)
  then show "segment_ok v (srt sps)"
    using assms(1) sorted_srt set_srt len [of 0 0 0] by (simp add: writable_def segment_ok_def length_seg_file)
qed

text \<open>What was written is read back.\<close>

lemma segment_readback:
  assumes "slice_sorter srt SeriesID" and "fresh_writer path st0 w st" and "writable (sw_version w) sps"
    and "seg_Write srt w sps bs be st = (None, w', st')"
  shows "\<exists>r. OpenReader path st' = Inr r \<and> BlockRange r = (bs, be) \<and>
    (\<forall>sp\<in>set sps. ReadSeries r (SeriesID sp) = Inr (Points sp)) \<and>
    (\<forall>sid. sid \<notin> SeriesID ` set sps \<longrightarrow> ReadSeries r sid = Inr []) \<and>
    ReadAll r = Inr (map (\<lambda>sp. (SeriesID sp, Points sp)) (filter (\<lambda>sp. Points sp \<noteq> []) (srt sps)))"
proof -
  let ?f = "seg_file (sw_version w) bs be (srt sps)"
  let ?r = "written_reader (crc32_ChecksumIEEE (seg_body (sw_version w) bs be (srt sps))) (sw_version w) bs be (srt sps)"
  note ok = writable_sorted [OF assms(3,1)] and set = slice_sorter.set_srt [OF assms(1), of sps]
  have "o_files st' path = Some ?f" "\<not> o_denied st' path"
    using seg_Write_written [OF assms(2,4)] fresh_writer_facts(5) [OF assms(2)] by simp_all
  then have "OpenReader path st' = Inr ?r" using ok(2) unfolding seg_file_def by (rule OpenReader_written)
  then show ?thesis
    using ReadSeries_written [OF ok(1)] ReadSeries_absent [OF ok(1)] ReadAll_written [OF ok(1)] set
    by (intro exI [of _ ?r]) (simp add: BlockRange_def written_reader_def)
qed

text \<open>
  C9: a segment of series that fit the format, once written without an error, is found again: every
  series of it reads back point for point, every other series has no points, \<^verbatim>\<open>ReadAll\<close> returns the
  series that have points, and the block range is the one given; in both versions of the format and
  for every sorting routine with the contract of \<^verbatim>\<open>sort.Slice\<close>.  The condition \<open>writable\<close> asks for distinct
  identifiers, fewer than \<open>2 ^ 32\<close> points in a series and a file below \<open>2 ^ 63\<close> bytes, and that each series takes no more bytes
  than the reader fetches: 8 and 16 for each point in version 1 (so it is if neighbouring
  instants are less than \<open>2 ^ 55\<close> apart), 16 for each point in version 2.  Version 2 also requires
  \<open>series_compresses\<close>: no more than small deltas of deltas, and neighbouring values that are equal or
  differ in their leading 32 bits.  This leaves out what the code writes but cannot read: in version 2 a series of one point,
  large deltas of deltas and close values, in version 1 ten or more instants far apart.
\<close>

theorem segment_roundtrip:
  assumes "slice_sorter srt SeriesID" and "fresh_writer path st0 w st" and "writable (sw_version w) sps"
    and "seg_Write srt w sps bs be st = (None, w', st')"
  shows "\<exists>r. OpenReader path st' = Inr r \<and> BlockRange r = (bs, be) \<and>
    (\<forall>sp\<in>set sps. ReadSeries r (SeriesID sp) = Inr (Points sp)) \<and>
    (\<forall>sid. sid \<notin> SeriesID ` set sps \<longrightarrow> ReadSeries r sid = Inr []) \<and>
    ReadAll r = Inr (map (\<lambda>sp. (SeriesID sp, Points sp)) (filter (\<lambda>sp. Points sp \<noteq> []) (srt sps)))"
  using segment_readback [OF assms] .

definition ex_sps :: "SeriesPoints list" where
  "ex_sps = [\<lparr>SeriesID = 7, Points = ex_series\<rparr>, \<lparr>SeriesID = 3, Points = take 1 ex_series\<rparr>]"

definition ex_disk :: os_state where
  "ex_disk = \<lparr>o_files = (\<lambda>_. None), o_free = 1000, o_denied = (\<lambda>_. False)\<rparr>"

definition ex_path :: string where
  "ex_path = ''d/compacted-2.seg''"

lemma ex_sps_writable: "writable 1 ex_sps" "length (seg_file 1 bs be (insertionSort SeriesID ex_sps)) \<le> o_free ex_disk"
proof -
  have "\<forall>sp\<in>set ex_sps. close_timestamps (Points sp)" "\<forall>sp\<in>set ex_sps. length (Points sp) \<le> 3" by code_simp+
  then have "\<forall>sp\<in>set ex_sps. series_fits 1 (Points sp)" by (auto intro!: series_fits_v1)
  moreover have len: "length (seg_data 1 ex_sps) = 50" "length (filter (\<lambda>sp. Points sp \<noteq> []) ex_sps) = 2" by code_simp+
  moreover have "distinct (map SeriesID ex_sps)" by code_simp
  ultimately show "writable 1 ex_sps"
    by (simp add: writable_def seg_file_def length_seg_file length_seg_entries headerSize_def footerSize_def)
  have "length (seg_file 1 bs be (insertionSort SeriesID ex_sps)) = length (seg_file_with 0 1 0 0 ex_sps)"
    unfolding seg_file_def by (rule length_seg_file_perm) (rule go_insertion.mset_srt)
  then show "length (seg_file 1 bs be (insertionSort SeriesID ex_sps)) \<le> o_free ex_disk"
    using len by (simp add: ex_disk_def length_seg_file length_seg_entries headerSize_def footerSize_def)
qed

definition ex_segw :: seg_writer where
  "ex_segw = \<lparr>sw_path = ex_path, sw_offset = 0, sw_crc = 0, sw_version = 1\<rparr>"

definition ex_open :: os_state where
  "ex_open = ex_disk\<lparr>o_files := (o_files ex_disk)(ex_path \<mapsto> [])\<rparr>"

lemma ex_segw_fresh: "fresh_writer ex_path ex_disk ex_segw ex_open"
  by (simp add: fresh_writer_def seg_NewWriter_def os_Create_def ex_disk_def ex_open_def ex_segw_def)

lemma ex_written: "\<exists>w' st'. seg_Write (insertionSort SeriesID) ex_segw ex_sps 100 121 ex_open = (None, w', st')"
proof -
  have "fst (seg_Write (insertionSort SeriesID) ex_segw ex_sps 100 121 ex_open) = None"
    using seg_Write_outcome [OF ex_segw_fresh, of "insertionSort SeriesID" ex_sps 100 121] ex_sps_writable(2)
    by (simp add: ex_segw_def ex_open_def)
  then show ?thesis by (metis prod.collapse)
qed

lemma segment_roundtrip_witness:
  "\<exists>w' st' r. seg_Write (insertionSort SeriesID) ex_segw ex_sps 100 121 ex_open = (None, w', st') \<and>
    OpenReader ex_path st' = Inr r \<and> ReadSeries r 7 = Inr ex_series \<and> ReadSeries r 4 = Inr []"
proof -
  obtain w' st' where w: "seg_Write (insertionSort SeriesID) ex_segw ex_sps 100 121 ex_open = (None, w', st')"
    using ex_written by blast
  have v: "writable (sw_version ex_segw) ex_sps" using ex_sps_writable(1) by (simp add: ex_segw_def)
  show ?thesis
    using segment_roundtrip [OF insertionSort_sorter ex_segw_fresh v w] w by (auto simp: ex_sps_def)
qed

text \<open>
  C19: writing a segment succeeds exactly when the device takes all of its bytes; then the file holds
  the header, the data, the index and the footer, whose checksum is the CRC-32 of all that stands
  before it, though the code computes it piece by piece; no other file changes.
\<close>

theorem segment_write_contents:
  assumes "fresh_writer path st0 w st"
  shows "case seg_Write srt w sps bs be st of (err, w', st') \<Rightarrow>
    (err = None \<longleftrightarrow> length (seg_file (sw_version w) bs be (srt sps)) \<le> o_free st) \<and>
    (err = None \<longrightarrow>
      (\<exists>d. o_files st' = (o_files st)(path \<mapsto> d) \<and>
        d = seg_file (sw_version w) bs be (srt sps) \<and>
        get_le (take 4 (drop (length d - footerSize) d)) = crc32_ChecksumIEEE (take (length d - footerSize) d)))"
proof -
  let ?d = "seg_file (sw_version w) bs be (srt sps)" and ?b = "seg_body (sw_version w) bs be (srt sps)"
  obtain err w' st' where r: "seg_Write srt w sps bs be st = (err, w', st')" by (metis prod.collapse)
  have cut: "take (length ?d - footerSize) ?d = ?b"
    "take 4 (drop (length ?d - footerSize) ?d) = put_le 4 (crc32_ChecksumIEEE ?b)"
    by (simp_all add: seg_file_def seg_file_with_def footerSize_def)
  have "err = None \<longleftrightarrow> length ?d \<le> o_free st"
    using seg_Write_outcome [OF assms, of srt sps bs be] r by (simp split: if_splits)
  moreover have "o_files st' = (o_files st)(path \<mapsto> ?d)" if "err = None"
    using seg_Write_written [OF assms, of srt sps bs be w' st'] r that by simp
  ultimately show ?thesis using r cut by simp
qed

lemma segment_write_contents_witness:
  "fst (seg_Write (insertionSort SeriesID) ex_segw ex_sps 100 121 ex_open) = None"
  using segment_write_contents [OF ex_segw_fresh, where srt = "insertionSort SeriesID" and sps = ex_sps and bs = 100 and be = 121] ex_sps_writable(2)
  by (auto simp: ex_segw_def ex_open_def split: prod.splits)

text \<open>
  The checksum in the footer is never looked at: whatever four bytes stand there, the file opens
  and every series reads back.
\<close>

theorem segment_checksum_ignored:
  assumes "segment_ok v sps" and "length (seg_file v bs be sps) < 2 ^ 63"
    and "o_files st path = Some (seg_file_with c v bs be sps)" and "\<not> o_denied st path"
  shows "\<exists>r. OpenReader path st = Inr r \<and> (\<forall>sp\<in>set sps. ReadSeries r (SeriesID sp) = Inr (Points sp))"
proof -
  have "length (seg_file_with c v bs be sps) < 2 ^ 63"
    using assms(2) length_seg_file_perm [OF refl] unfolding seg_file_def by metis
  then show ?thesis using OpenReader_written [OF assms(3,4)] ReadSeries_written [OF assms(1)] by blast
qed

lemma segment_checksum_ignored_witness:
  "\<exists>r. OpenReader ex_path (ex_disk\<lparr>o_files := [ex_path \<mapsto> seg_file_with 0xDEADBEEF 1 0 0 (insertionSort SeriesID ex_sps)]\<rparr>) = Inr r \<and>
    ReadSeries r 7 = Inr ex_series"
proof -
  let ?sps = "insertionSort SeriesID ex_sps"
  have ok: "segment_ok 1 ?sps" "length (seg_file 1 0 0 ?sps) < 2 ^ 63"
    using writable_sorted [OF ex_sps_writable(1) insertionSort_sorter] unfolding seg_file_def by simp_all
  have "\<lparr>SeriesID = 7, Points = ex_series\<rparr> \<in> set ?sps"
    unfolding go_insertion.set_srt by (simp add: ex_sps_def)
  then show ?thesis
    using segment_checksum_ignored [OF ok, where st = "ex_disk\<lparr>o_files := [ex_path \<mapsto> seg_file_with 0xDEADBEEF 1 0 0 ?sps]\<rparr>"]
    by (force simp: ex_disk_def)
qed

text \<open>
  In version 2 a series of one point takes 17 bytes, of which the reader takes 16; reading it
  gives the error of a corrupt file, whatever the point is and whatever surrounds it.
\<close>

theorem segment_v2_single_point_unreadable:
  assumes "rd_version r \<ge> 2" and "rd_file r = pre @ encodeSeries (rd_version r) [p] @ rest"
  shows "decodeSeriesAt r (int (length pre)) 1 = Inl ErrCorrupt"
proof -
  let ?t = "put_le 8 (Timestamp p)" and ?v = "put_le 8 (Value p)"
  have "put_uvarint 8 = [8]" by (simp add: put_uvarint.simps)
  then have enc: "encodeSeries (rd_version r) [p] = 8 # ?t @ ?v"
    using assms(1)
    by (simp add: encodeSeries_def gorillaEncodeSeries_def bw_bytes_def append_bytes_def newBitWriter_def Let_def)
  then have rd: "ReadAt (rd_file r) 16 (int (length pre)) = (8 # ?t @ take 7 ?v, None)"
    using assms(2) by (simp add: ReadAt_def Let_def)
  have "uvarint (8 # xs) = (8, 1)" for xs
    using uvarint_put [of 8 xs] \<open>put_uvarint 8 = [8]\<close> by simp
  then have "gorillaDecodeSeries (8 # ?t @ take 7 ?v) 1 = Inl ErrCorrupt"
    by (simp add: gorillaDecodeSeries_def gorillaDecodeTimestamps_def gorillaDecodeValues_def slice_def)
  then show ?thesis using assms(1) rd by (simp add: decodeSeriesAt_def Let_def)
qed

lemma segment_v2_single_point_unreadable_witness:
  "decodeSeriesAt \<lparr>rd_file = encodeSeries 2 (take 1 ex_series), rd_index = [], rd_blockStart = 0, rd_blockEnd = 0,
     rd_version = 2\<rparr> 0 1 = Inl ErrCorrupt"
  using segment_v2_single_point_unreadable [where pre = "[]" and rest = "[]" and p = "hd ex_series"
    and r = "\<lparr>rd_file = encodeSeries 2 (take 1 ex_series), rd_index = [], rd_blockStart = 0, rd_blockEnd = 0, rd_version = 2\<rparr>"]
  by (simp add: ex_series_def)

subsection \<open>Instants far apart\<close>

text \<open>
  The reader fetches 8 bytes and 16 for each point, but a delta can take ten: if the encoding is
  longer, the values reach over the end of the buffer and \<^verbatim>\<open>data[off:off+8]\<close> panics.
\<close>

lemma decode_vals_short: "0 < k \<Longrightarrow> length buf < off + 8 * k \<Longrightarrow> decode_vals buf off k = Inl Panic"
proof (induction k arbitrary: off)
  case (Suc k)
  then show ?case by (cases "off + 8 \<le> length buf") (simp_all add: slice_def)
qed simp

lemma length_put_deltas_max: "length (put_deltas prev ps) \<le> 10 * length ps"
proof (induction ps arbitrary: prev)
  case (Cons p ps)
  then show ?case using add_mono [OF length_put_varint_max [of "Timestamp p - prev"] Cons.IH [of "Timestamp p"]] by (simp add: MaxVarintLen64_def)
qed simp

lemma decodePoints_wide:
  assumes "8 + 16 * length pts < length (encodePoints pts)" and "pts \<noteq> []"
  shows "decodePoints (take (8 + 16 * length pts) (encodePoints pts @ rest)) (8 + 16 * length pts) (length pts) = Inl Panic"
proof -
  obtain p ps where pts: "pts = p # ps" using assms(2) by (cases pts) auto
  let ?n = "8 + 16 * length pts" and ?t = "put_le 8 (Timestamp p)" and ?ds = "put_deltas (Timestamp p) ps"
    and ?vs = "concat (map (\<lambda>p. put_le 8 (Value p)) pts)"
  have enc: "encodePoints pts = ?t @ ?ds @ ?vs" by (simp add: pts)
  have D: "8 + length ?ds \<le> ?n" using length_put_deltas_max [of "Timestamp p" ps] by (simp add: pts)
  let ?cut = "take (?n - (8 + length ?ds)) (?vs @ rest)"
  have buf: "take ?n (encodePoints pts @ rest) = ?t @ ?ds @ ?cut" using D unfolding enc by simp
  have vs: "length ?vs = 8 * length pts" using length_concat_pieces [of "\<lambda>p. put_le 8 (Value p)" 8 pts] by simp
  have len: "length (?t @ ?ds @ ?cut) = ?n" using D assms(1) vs unfolding enc by simp
  have "slice (?t @ ?ds @ ?cut) 0 8 = Inr ?t" by (simp add: slice_def)
  moreover have "decode_deltas (?t @ ?ds @ ?cut) ?n 8 (Timestamp p) (length ps) = Inr (map Timestamp ps, 8 + length ?ds)"
    using decode_deltas_put [of ?t "Timestamp p" ps ?n ?cut] D len by simp
  moreover have "decode_vals (?t @ ?ds @ ?cut) (8 + length ?ds) (length pts) = Inl Panic"
    by (rule decode_vals_short) (use assms len vs in \<open>simp_all add: enc\<close>)
  ultimately show ?thesis using assms(2) unfolding buf by (simp add: decodePoints_def pts)
qed

text \<open>A series whose encoding takes more bytes than the reader fetches.\<close>

definition too_wide :: "point list \<Rightarrow> bool" where
  "too_wide pts \<longleftrightarrow> pts \<noteq> [] \<and> length pts < 2 ^ 32 \<and> 8 + 16 * length pts < length (encodePoints pts)"

lemma segment_wide_series:
  assumes "slice_sorter srt SeriesID" and "fresh_writer path st0 w st" and "sw_version w = 1"
    and "seg_Write srt w sps bs be st = (None, w', st')"
    and "distinct (map SeriesID sps)" and "length (seg_file 1 0 0 sps) < 2 ^ 63"
    and "sp \<in> set sps" and "too_wide (Points sp)"
  shows "\<exists>r. OpenReader path st' = Inr r \<and> ReadSeries r (SeriesID sp) = Inl Panic"
proof -
  let ?c = "crc32_ChecksumIEEE (seg_body 1 bs be (srt sps))" and ?n = "8 + 16 * length (Points sp)"
  let ?r = "written_reader ?c 1 bs be (srt sps)"
  note mset_srt = slice_sorter.mset_srt [OF assms(1), of sps] and wide = assms(8) [unfolded too_wide_def]
  have len: "length (seg_file_with c 1 bs be (srt sps)) < 2 ^ 63" for c
    using assms(6) length_seg_file_perm [OF mset_srt] unfolding seg_file_def by metis
  have "o_files st' path = Some (seg_file_with ?c 1 bs be (srt sps))" "\<not> o_denied st' path"
    using seg_Write_written [OF assms(2,4)] fresh_writer_facts(5) [OF assms(2)] assms(3) by (simp_all add: seg_file_def)
  from OpenReader_written [OF this len] have o: "OpenReader path st' = Inr ?r" .
  have "distinct (map SeriesID (srt sps))" using assms(5) mset_srt by (metis mset_eq_imp_distinct_iff mset_map)
  moreover have "headerSize + length (seg_data 1 (srt sps)) < 2 ^ 63" using len [of ?c] by (simp add: length_seg_file)
  moreover have "sp \<in> set (srt sps)" using assms(7) slice_sorter.set_srt [OF assms(1)] by simp
  ultimately obtain pre rest where f: "rd_file ?r = pre @ encodeSeries 1 (Points sp) @ rest"
    and rd: "ReadSeries ?r (SeriesID sp) = decodeSeriesAt ?r (int (length pre)) (length (Points sp))"
    using ReadSeries_located [of "srt sps" 1 sp ?c bs be] slice_sorter.sorted_srt [OF assms(1), of sps] wide by blast
  have enc: "encodeSeries 1 (Points sp) = encodePoints (Points sp)" using wide by (simp add: encodeSeries_def word_le_nat_alt)
  have v: "rd_version ?r = 1" by (simp add: written_reader_def)
  have m: "8 + length (Points sp) * 8 + length (Points sp) * 8 = ?n" by simp
  let ?d = "take ?n (encodePoints (Points sp) @ rest)"
  have l: "length ?d = ?n" using wide by simp
  have "ReadAt (rd_file ?r) ?n (int (length pre)) = (?d, None)"
    using wide l unfolding f enc by (simp add: ReadAt_def Let_def)
  then have "ReadSeries ?r (SeriesID sp) = decodePoints ?d ?n (length (Points sp))"
    unfolding rd decodeSeriesAt_def Let_def v m using l by (simp add: word_le_nat_alt del: take_append)
  then show ?thesis using o decodePoints_wide [of "Points sp" rest] wide by simp
qed

end
