(* ===== verification/Query.thy ===== *)
theory Query
  imports Go_Float Segment
begin

text \<open>
  Package \<^verbatim>\<open>internal/query\<close>: merging the points of one series from several sources, cutting out a
  time range, and summing up buckets.  The lemmas show that the merge is the stable sort of all
  points (but for points at the largest timestamp), that the binary searches cut exactly the range,
  and what every bucket holds.
\<close>

subsection \<open>Merge\<close>

text \<open>
  The loop keeps an index into each list; here it keeps the rest of each list from its index on.
  \<open>merge_best\<close> is the inner loop: the first list whose head has the least timestamp, among those
  below \<^verbatim>\<open>math.MaxInt64\<close>.
\<close>

fun merge_best :: "nat \<Rightarrow> nat option \<Rightarrow> i64 \<Rightarrow> point list list \<Rightarrow> nat option" where
  "merge_best i best bestTs [] = best"
| "merge_best i best bestTs ([] # rest) = merge_best (i + 1) best bestTs rest"
| "merge_best i best bestTs ((p # ps) # rest) =
     (if sint (Timestamp p) < sint bestTs then merge_best (i + 1) (Some i) (Timestamp p) rest
      else merge_best (i + 1) best bestTs rest)"

lemma merge_best_split:
  "(merge_best i best b rest = best \<and> (\<forall>l\<in>set rest. l \<noteq> [] \<longrightarrow> sint b \<le> ts (hd l))) \<or>
   (\<exists>pre x xs post. rest = pre @ (x # xs) # post \<and> merge_best i best b rest = Some (i + length pre) \<and>
      ts x < sint b \<and> (\<forall>l\<in>set pre. l \<noteq> [] \<longrightarrow> ts x < ts (hd l)) \<and> (\<forall>l\<in>set post. l \<noteq> [] \<longrightarrow> ts x \<le> ts (hd l)))"
  (is "?P i best b rest \<or> (\<exists>pre x xs post. ?Q i best b rest pre x xs post)")
proof (induction i best b rest rule: merge_best.induct)
  case (2 i best b rest)
  show ?case
  proof (rule disjE [OF "2.IH"])
    assume "\<exists>pre x xs post. ?Q (i + 1) best b rest pre x xs post"
    then obtain pre x xs post where "?Q (i + 1) best b rest pre x xs post" by blast
    then have "?Q i best b ([] # rest) ([] # pre) x xs post" by auto
    then show ?case by blast
  qed simp
next
  case (3 i best b p ps rest)
  have extend: "?Q i best b ((p # ps) # rest) ((p # ps) # pre) x xs post"
    if "?Q (i + 1) best' b' rest pre x xs post" "sint b' \<le> ts p" "sint b' \<le> sint b"
      "merge_best i best b ((p # ps) # rest) = merge_best (i + 1) best' b' rest" for best' b' pre x xs post
    using that by (auto simp del: merge_best.simps)
  show ?case
  proof (cases "ts p < sint b")
    case True
    then have r: "merge_best i best b ((p # ps) # rest) = merge_best (i + 1) (Some i) (Timestamp p) rest" by (simp add: ts_def)
    have IH: "?P (i + 1) (Some i) (Timestamp p) rest \<or> (\<exists>pre x xs post. ?Q (i + 1) (Some i) (Timestamp p) rest pre x xs post)"
      using "3.IH"(1) True by (simp add: ts_def)
    show ?thesis
    proof (rule disjE [OF IH])
      assume "?P (i + 1) (Some i) (Timestamp p) rest"
      then have "?Q i best b ((p # ps) # rest) [] p ps rest" using True r by (simp add: ts_def)
      then show ?thesis by blast
    next
      assume "\<exists>pre x xs post. ?Q (i + 1) (Some i) (Timestamp p) rest pre x xs post"
      then obtain pre x xs post where q: "?Q (i + 1) (Some i) (Timestamp p) rest pre x xs post" by blast
      have "sint (Timestamp p) \<le> ts p" "sint (Timestamp p) \<le> sint b" using True by (simp_all add: ts_def)
      from extend [OF q this r] show ?thesis by blast
    qed
  next
    case False
    then have r: "merge_best i best b ((p # ps) # rest) = merge_best (i + 1) best b rest" by (simp add: ts_def)
    have IH: "?P (i + 1) best b rest \<or> (\<exists>pre x xs post. ?Q (i + 1) best b rest pre x xs post)"
      using "3.IH"(2) False by (simp add: ts_def)
    show ?thesis
    proof (rule disjE [OF IH])
      assume "?P (i + 1) best b rest"
      then show ?thesis using False r by simp
    next
      assume "\<exists>pre x xs post. ?Q (i + 1) best b rest pre x xs post"
      then obtain pre x xs post where q: "?Q (i + 1) best b rest pre x xs post" by blast
      have "sint b \<le> ts p" "sint b \<le> sint b" using False by simp_all
      from extend [OF q this r] show ?thesis by blast
    qed
  qed
qed simp

function merge_loop :: "point list list \<Rightarrow> point list \<Rightarrow> point list" where
  "merge_loop rest result =
     (case merge_best 0 None MaxInt64 rest of
        None \<Rightarrow> result
      | Some b \<Rightarrow> merge_loop (rest[b := tl (rest ! b)]) (result @ [hd (rest ! b)]))"
  by pat_completeness auto
termination
proof (relation "measure (\<lambda>(rest, result). sum_list (map length rest))", goal_cases)
  case (2 rest result b)
  then obtain pre x xs post where "rest = pre @ (x # xs) # post" "b = length pre"
    using merge_best_split [of 0 None MaxInt64 rest] by auto
  then show ?case by simp
qed simp

declare merge_loop.simps [simp del]

definition Merge :: "point list list \<Rightarrow> point list" where
  "Merge points =
     (let total = sum_list (map length points); active = length (filter (\<lambda>p. length p > 0) points) in
      if total = 0 then []
      else if active = 0 then []
      else if active = 1 then hd (filter (\<lambda>p. length p > 0) points)
      else merge_loop points [])"

text \<open>An element that is less than all before it and not greater than all behind it is first in the stable sort.\<close>

lemma insort_least: "(\<forall>y\<in>set ys. key x \<le> key y) \<Longrightarrow> insort_key key x ys = x # ys"
  by (cases ys) simp_all

lemma sort_key_least_first:
  assumes "\<forall>a\<in>set as. key x < key a" and "\<forall>b\<in>set bs. key x \<le> key b"
  shows "sort_key key (as @ x # bs) = x # sort_key key (as @ bs)"
  using assms(1)
proof (induction as)
  case Nil
  then show ?case using assms(2) by (simp add: insort_least)
qed auto

lemma sorted_points_hd: "sorted (map ts l) \<Longrightarrow> p \<in> set l \<Longrightarrow> ts (hd l) \<le> ts p"
  by (cases l) auto

lemma ts_le_Max: "ts p \<le> sint MaxInt64"
proof -
  have "ts p < 2 ^ 63" using sint_lt [of "Timestamp p"] by (simp add: ts_def)
  then show ?thesis by simp
qed

text \<open>The merge is the stable sort of the concatenation; it ends at points with the largest timestamp.\<close>

lemma merge_loop_sort:
  assumes "\<forall>l\<in>set rest. sorted (map ts l)"
  shows "merge_loop rest result = result @ sort_key ts (filter (\<lambda>p. Timestamp p \<noteq> MaxInt64) (concat rest))"
  using assms
proof (induction rest result rule: merge_loop.induct)
  case (1 rest result)
  let ?keep = "\<lambda>p :: point. Timestamp p \<noteq> MaxInt64"
  have keep: "?keep p \<longleftrightarrow> ts p < sint MaxInt64" for p
    by (metis ts_le_Max ts_def order_less_le signed_word_eqI)
  show ?case
  proof (cases "merge_best 0 None MaxInt64 rest")
    case None
    then have high: "\<forall>l\<in>set rest. l \<noteq> [] \<longrightarrow> sint MaxInt64 \<le> ts (hd l)"
      using merge_best_split [of 0 None MaxInt64 rest] by auto
    have "\<not> ?keep p" if "l \<in> set rest" "p \<in> set l" for l p
    proof -
      have "l \<noteq> []" using that(2) by auto
      then have "sint MaxInt64 \<le> ts p"
        using high that sorted_points_hd [of l p] "1.prems" by (meson order_trans)
      then show ?thesis using keep by simp
    qed
    then have "filter ?keep (concat rest) = []" by (auto simp: filter_empty_conv)
    then show ?thesis using None by (simp add: merge_loop.simps [of rest])
  next
    case (Some b)
    then obtain pre x xs post where r: "rest = pre @ (x # xs) # post" "b = length pre" and x: "ts x < sint MaxInt64"
      and pre: "\<forall>l\<in>set pre. l \<noteq> [] \<longrightarrow> ts x < ts (hd l)" and post: "\<forall>l\<in>set post. l \<noteq> [] \<longrightarrow> ts x \<le> ts (hd l)"
      using merge_best_split [of 0 None MaxInt64 rest] by auto
    let ?rest = "pre @ xs # post"
    have step: "merge_loop rest result = merge_loop ?rest (result @ [x])"
      using Some r by (subst merge_loop.simps) simp
    have srt: "\<forall>l\<in>set ?rest. sorted (map ts l)" using "1.prems" r by auto
    have "rest[b := tl (rest ! b)] = ?rest" "hd (rest ! b) = x" using r by simp_all
    then have IH: "merge_loop ?rest (result @ [x]) = result @ [x] @ sort_key ts (filter ?keep (concat ?rest))"
      using "1.IH" [OF Some] srt by simp
    have "ts x < ts a" if a: "a \<in> set (filter ?keep (concat pre))" for a
    proof -
      obtain l where "l \<in> set pre" "a \<in> set l" using a by auto
      then show ?thesis using pre sorted_points_hd [of l a] "1.prems" r by fastforce
    qed
    moreover have "ts x \<le> ts c" if c: "c \<in> set (filter ?keep (xs @ concat post))" for c
    proof -
      consider "c \<in> set xs" | l where "l \<in> set post" "c \<in> set l" using c by auto
      then show ?thesis
      proof cases
        case 1
        then show ?thesis using "1.prems" r by auto
      next
        case 2
        then show ?thesis using post sorted_points_hd [of l c] "1.prems" r by fastforce
      qed
    qed
    ultimately have "sort_key ts (filter ?keep (concat pre) @ x # filter ?keep (xs @ concat post))
        = x # sort_key ts (filter ?keep (concat pre) @ filter ?keep (xs @ concat post))"
      by (intro sort_key_least_first) blast+
    then show ?thesis using step IH x keep [of x] by (simp add: r)
  qed
qed

subsection \<open>Filter\<close>

definition Filter :: "point list \<Rightarrow> i64 \<Rightarrow> i64 \<Rightarrow> point list" where
  "Filter points start stop =
     (if points = [] then []
      else
        let first = sort_Search (length points) (\<lambda>i. sint (Timestamp (points ! i)) \<ge> sint start);
            last = sort_Search (length points) (\<lambda>i. sint (Timestamp (points ! i)) > sint stop)
        in if first \<ge> last then [] else take (last - first) (drop first points))"

lemma Filter_sorted:
  assumes "sorted (map ts points)"
  shows "Filter points start stop = filter (\<lambda>p. sint start \<le> ts p \<and> ts p \<le> sint stop) points"
proof (cases "points = []")
  case False
  let ?f = "sort_Search (length points) (\<lambda>i. ts (points ! i) \<ge> sint start)"
    and ?l = "sort_Search (length points) (\<lambda>i. ts (points ! i) > sint stop)"
  have d: "drop ?f points = filter (\<lambda>p. ts p \<ge> sint start) points"
    using sort_Search_sorted(3) [OF assms, of "\<lambda>k. k \<ge> sint start"] by simp
  have t: "take ?l points = filter (\<lambda>p. \<not> ts p > sint stop) points"
    using sort_Search_sorted(2) [OF assms, of "\<lambda>k. k > sint stop"] by simp
  have "?f \<le> length points" using sort_Search_sorted(1) [OF assms, of "\<lambda>k. k \<ge> sint start"] by simp
  have tf: "take ?f points = filter (\<lambda>p. \<not> ts p \<ge> sint start) points"
    using sort_Search_sorted(2) [OF assms, of "\<lambda>k. k \<ge> sint start"] by simp
  have "filter (\<lambda>p. sint start \<le> ts p \<and> ts p \<le> sint stop) points = filter (\<lambda>p. ts p \<ge> sint start) (take ?l points)"
    unfolding t filter_filter by (rule filter_cong) auto
  also have "\<dots> = take (?l - ?f) (drop ?f points)"
  proof (cases "?f \<le> ?l")
    case True
    then have "take ?l points = take ?f points @ take (?l - ?f) (drop ?f points)"
      by (metis le_add_diff_inverse take_add)
    moreover have "filter (\<lambda>p. ts p \<ge> sint start) (take ?f points) = []" unfolding tf by (simp add: filter_empty_conv)
    moreover have "filter (\<lambda>p. ts p \<ge> sint start) (take (?l - ?f) (drop ?f points)) = take (?l - ?f) (drop ?f points)"
      unfolding d by (auto simp: filter_id_conv dest: in_set_takeD)
    ultimately show ?thesis by simp
  next
    case False
    then have "take ?l points = take ?l (take ?f points)" by simp
    then have "set (take ?l points) \<subseteq> set (take ?f points)" by (metis set_take_subset)
    then have "filter (\<lambda>p. ts p \<ge> sint start) (take ?l points) = []" unfolding tf by (auto simp: filter_empty_conv)
    then show ?thesis using False by simp
  qed
  finally show ?thesis using False by (simp add: Filter_def Let_def ts_def [symmetric])
qed (simp add: Filter_def)

lemma query_merge:
  assumes "\<forall>l\<in>set points. sorted (map ts l)"
  shows "Merge points =
    (if length (filter (\<lambda>l. l \<noteq> []) points) \<le> 1 then concat points
     else sort_key ts (filter (\<lambda>p. Timestamp p \<noteq> MaxInt64) (concat points)))"
proof -
  have total: "sum_list (map length points) = 0 \<longleftrightarrow> filter (\<lambda>l. l \<noteq> []) points = []"
    by (auto simp: filter_empty_conv)
  have cc: "concat points = concat (filter (\<lambda>l. l \<noteq> []) points)" by (induction points) auto
  have len: "filter (\<lambda>p. 0 < length p) points = filter (\<lambda>l. l \<noteq> []) points" by (rule filter_cong) auto
  consider "filter (\<lambda>l. l \<noteq> []) points = []" | l where "filter (\<lambda>l. l \<noteq> []) points = [l]"
    | "\<not> length (filter (\<lambda>l. l \<noteq> []) points) \<le> 1"
    by (cases "filter (\<lambda>l. l \<noteq> []) points" rule: remdups_adj.cases) auto
  then show ?thesis
  proof cases
    case 1
    then show ?thesis using total cc by (simp add: Merge_def)
  next
    case 2
    then show ?thesis using total cc len by (auto simp: Merge_def Let_def)
  next
    case 3
    then have "Merge points = merge_loop points []"
      using total len unfolding Merge_def Let_def by (auto simp del: length_greater_0_conv)
    then show ?thesis using 3 merge_loop_sort [OF assms, of "[]"] by simp
  qed
qed

text \<open>
  C10: merging lists that are ordered by time returns their points in the stable order of time, points
  of an earlier list before those of a later one at the same instant.  When at least two lists have
  points, those at the largest timestamp are dropped.
\<close>

theorem query_merge_is_stable_sort:
  assumes "\<forall>l\<in>set points. sorted (map ts l)"
  shows "Merge points =
    (if length (filter (\<lambda>l. l \<noteq> []) points) \<le> 1 then concat points
     else sort_key ts (filter (\<lambda>p. Timestamp p \<noteq> MaxInt64) (concat points)))"
  using assms by (rule query_merge)

definition ex_points :: "i64 list \<Rightarrow> point list" where
  "ex_points tss = map (\<lambda>t. \<lparr>Timestamp = t, Value = 0\<rparr>) tss"

lemma query_merge_is_stable_sort_witness:
  "Merge [ex_points [1, 4, MaxInt64], [], ex_points [2, 4]] = ex_points [1, 2, 4, 4]"
proof -
  have "\<forall>l\<in>set [ex_points [1, 4, MaxInt64], [], ex_points [2, 4]]. sorted (map ts l)" by code_simp
  from query_merge_is_stable_sort [OF this] show ?thesis by (simp add: ex_points_def ts_def)
qed

text \<open>C17: on points ordered by time, the two binary searches of the filter cut out exactly the points of the range, both ends included.\<close>

theorem query_filter_exact:
  assumes "sorted (map ts points)"
  shows "Filter points start stop = filter (\<lambda>p. sint start \<le> ts p \<and> ts p \<le> sint stop) points"
  using assms by (rule Filter_sorted)

lemma query_filter_exact_witness:
  "Filter (ex_points [-5, 1, 2, 2, 9]) (-1) 2 = ex_points [1, 2, 2]"
proof -
  have "sorted (map ts (ex_points [-5, 1, 2, 2, 9]))" by code_simp
  from query_filter_exact [OF this] show ?thesis by (simp add: ex_points_def ts_def)
qed

subsection \<open>Aggregate\<close>

record bucket =
  b_Start :: i64
  b_Sum :: f64
  b_Count :: int
  b_Min :: f64
  b_Max :: f64

text \<open>The loop over the points; an index outside the slice panics.\<close>

definition add_point :: "bucket \<Rightarrow> f64 \<Rightarrow> bucket" where
  "add_point b v =
     b\<lparr>b_Sum := f64_add (b_Sum b) v, b_Count := b_Count b + 1,
       b_Min := (if f64_lt v (b_Min b) then v else b_Min b),
       b_Max := (if f64_lt (b_Max b) v then v else b_Max b)\<rparr>"

fun aggregate_loop :: "i64 \<Rightarrow> i64 \<Rightarrow> bucket list \<Rightarrow> point list \<Rightarrow> bucket list res" where
  "aggregate_loop firstBucket bucketWidth buckets [] = Inr buckets"
| "aggregate_loop firstBucket bucketWidth buckets (pt # pts) =
     (let bIdx = sint (go_div (Timestamp pt - firstBucket) bucketWidth) in
      if bIdx < 0 \<or> bIdx \<ge> int (length buckets) then Inl Panic
      else aggregate_loop firstBucket bucketWidth
        (buckets[nat bIdx := add_point (buckets ! nat bIdx) (Value pt)]) pts)"

definition empty_bucket :: "i64 \<Rightarrow> bucket" where
  "empty_bucket start = \<lparr>b_Start = start, b_Sum = 0, b_Count = 0, b_Min = MaxFloat64, b_Max = NegMaxFloat64\<rparr>"

definition close_bucket :: "bucket \<Rightarrow> bucket" where
  "close_bucket b = (if b_Count b = 0 then b\<lparr>b_Min := 0, b_Max := 0\<rparr> else b)"

definition Aggregate :: "point list \<Rightarrow> i64 \<Rightarrow> bucket list res" where
  "Aggregate points bucketWidth =
     (if points = [] then Inr []
      else if bucketWidth = 0 then Inl Panic
      else
        let firstBucket = go_div (Timestamp (hd points)) bucketWidth * bucketWidth;
            lastBucket = go_div (Timestamp (last points)) bucketWidth * bucketWidth;
            numBuckets = sint (go_div (lastBucket - firstBucket) bucketWidth + 1) in
        if numBuckets < 0 then Inl Panic
        else
          let buckets = map (\<lambda>i. empty_bucket (firstBucket + of_nat i * bucketWidth)) [0..<nat numBuckets] in
          res_bind (aggregate_loop firstBucket bucketWidth buckets points) (\<lambda>buckets. Inr (map close_bucket buckets)))"

text \<open>What the bucket that starts at \<open>start\<close> has to hold, given its points in order.\<close>

definition bucket_of :: "i64 \<Rightarrow> point list \<Rightarrow> bucket" where
  "bucket_of start pts =
     \<lparr>b_Start = start, b_Sum = foldl f64_add 0 (map Value pts), b_Count = int (length pts),
      b_Min = (if pts = [] then 0 else foldl (\<lambda>m v. if f64_lt v m then v else m) MaxFloat64 (map Value pts)),
      b_Max = (if pts = [] then 0 else foldl (\<lambda>m v. if f64_lt m v then v else m) NegMaxFloat64 (map Value pts))\<rparr>"

lemma add_points:
  "foldl add_point b (map Value pts) =
    \<lparr>b_Start = b_Start b, b_Sum = foldl f64_add (b_Sum b) (map Value pts), b_Count = b_Count b + int (length pts),
     b_Min = foldl (\<lambda>m v. if f64_lt v m then v else m) (b_Min b) (map Value pts),
     b_Max = foldl (\<lambda>m v. if f64_lt m v then v else m) (b_Max b) (map Value pts)\<rparr>"
  by (induction pts arbitrary: b) (simp_all add: add_point_def)

lemma close_added: "close_bucket (foldl add_point (empty_bucket start) (map Value pts)) = bucket_of start pts"
  unfolding add_points by (simp add: close_bucket_def empty_bucket_def bucket_of_def)

text \<open>The loop gives each bucket the points that its index selects.\<close>

lemma aggregate_loop_eq:
  assumes "\<forall>p\<in>set pts. 0 \<le> idx p \<and> idx p < int (length buckets)"
    and "\<And>p. p \<in> set pts \<Longrightarrow> sint (go_div (Timestamp p - f) w) = idx p"
  shows "aggregate_loop f w buckets pts =
    Inr (map (\<lambda>i. foldl add_point (buckets ! i) (map Value (filter (\<lambda>p. idx p = int i) pts))) [0..<length buckets])"
  using assms
proof (induction pts arbitrary: buckets)
  case Nil
  then show ?case by (simp add: map_nth)
next
  case (Cons p pts)
  let ?b = "buckets[nat (idx p) := add_point (buckets ! nat (idx p)) (Value p)]"
  have "aggregate_loop f w ?b pts =
      Inr (map (\<lambda>i. foldl add_point (?b ! i) (map Value (filter (\<lambda>q. idx q = int i) pts))) [0..<length ?b])"
    using Cons.prems by (intro Cons.IH) auto
  moreover have "foldl add_point (?b ! i) (map Value (filter (\<lambda>q. idx q = int i) pts)) =
      foldl add_point (buckets ! i) (map Value (filter (\<lambda>q. idx q = int i) (p # pts)))" if "i < length buckets" for i
    using that Cons.prems(1) by (auto simp: nth_list_update)
  moreover have "aggregate_loop f w buckets (p # pts) = aggregate_loop f w ?b pts"
    using Cons.prems by (simp add: Let_def)
  ultimately show ?case by simp
qed

lemma div_bounds:
  fixes t W :: int
  assumes "0 \<le> t" and "0 < W"
  shows "0 \<le> t div W" and "t div W \<le> t div W * W" and "0 \<le> t div W * W" and "t div W * W \<le> t"
proof -
  show k: "0 \<le> t div W" using assms by (simp add: pos_imp_zdiv_nonneg_iff)
  then show "0 \<le> t div W * W" using assms by simp
  have "t div W * 1 \<le> t div W * W" using k assms(2) by (intro mult_left_mono) simp_all
  then show "t div W \<le> t div W * W" by simp
  have "t div W * W = t - t mod W" by (simp add: minus_mod_eq_div_mult)
  then show "t div W * W \<le> t" using pos_mod_sign [OF assms(2), of t] by simp
qed

lemma go_div_nonneg:
  assumes "0 \<le> sint a" and "0 < sint b"
  shows "go_div a b = word_of_int (sint a div sint b)" and "sint (go_div a b) = sint a div sint b"
proof -
  show eq: "go_div a b = word_of_int (sint a div sint b)"
    using assms by (cases "sint a = 0") (simp_all add: go_div_def)
  have "sint a < 2 ^ 63" using sint_lt [of a] by simp
  then show "sint (go_div a b) = sint a div sint b"
    unfolding eq using div_bounds [OF assms] by (intro sint_of_int) linarith+
qed

text \<open>The start of the bucket of an instant, the number of buckets between two, and the index of a third.\<close>

lemma bucket_floor:
  assumes "0 \<le> sint a" and "0 < sint w"
  shows "go_div a w * w = word_of_int (sint a div sint w * sint w)"
proof -
  have "word_of_int k * w = word_of_int (k * sint w)" for k by simp
  then show ?thesis using go_div_nonneg(1) [OF assms] by simp
qed

lemma bucket_index:
  assumes "0 \<le> sint a" and "0 < sint w" and "sint a \<le> sint t"
  shows "sint (go_div (t - go_div a w * w) w) = sint t div sint w - sint a div sint w"
proof -
  let ?k = "sint a div sint w"
  have "t - go_div a w * w = word_of_int (sint t - ?k * sint w)" using bucket_floor [OF assms(1,2)] by simp
  moreover have "0 \<le> sint t - ?k * sint w" "sint t - ?k * sint w < 2 ^ 63"
    using div_bounds [OF assms(1,2)] assms(3) sint_lt [of t] by simp_all
  ultimately have d: "sint (t - go_div a w * w) = sint t - ?k * sint w"
    using sint_of_int [of "sint t - ?k * sint w"] by simp
  have "(sint t + (- ?k) * sint w) div sint w = - ?k + sint t div sint w"
    using assms(2) by (intro div_mult_self1) simp
  then show ?thesis
    using go_div_nonneg(2) [of "t - go_div a w * w" w] d assms(2) \<open>0 \<le> sint t - ?k * sint w\<close> by simp
qed

lemma bucket_count:
  assumes "0 \<le> sint a" and "0 < sint w" and "sint a \<le> sint b" and "sint b < 2 ^ 63 - 1"
  shows "sint (go_div (go_div b w * w - go_div a w * w) w + 1) = sint b div sint w - sint a div sint w + 1"
proof -
  let ?k = "sint a div sint w" and ?l = "sint b div sint w"
  have b: "0 \<le> sint b" using assms by simp
  note B = div_bounds [OF b assms(2)] and A = div_bounds [OF assms(1,2)]
  have fl: "sint (go_div b w * w) = ?l * sint w"
    unfolding bucket_floor [OF b assms(2)] using B assms(4) by (intro sint_of_int) linarith+
  have kl: "?k \<le> ?l" using assms by (simp add: zdiv_mono1)
  then have "?k * sint w \<le> ?l * sint w" using assms(2) by (intro mult_right_mono) simp_all
  moreover have "?l * sint w - ?k * sint w = (?l - ?k) * sint w" by (simp add: left_diff_distrib)
  moreover have "go_div b w * w - go_div a w * w = word_of_int (?l * sint w - ?k * sint w)"
    using bucket_floor [OF b assms(2)] bucket_floor [OF assms(1,2)] by simp
  ultimately have "sint (go_div b w * w - go_div a w * w) = (?l - ?k) * sint w"
    using B A assms(4) sint_of_int [of "?l * sint w - ?k * sint w"] by simp
  then have "go_div (go_div b w * w - go_div a w * w) w = word_of_int (?l - ?k)"
    using go_div_nonneg(1) [of "go_div b w * w - go_div a w * w" w] assms(2) kl by simp
  then have "go_div (go_div b w * w - go_div a w * w) w + 1 = word_of_int (?l - ?k + 1)" by simp
  then show ?thesis using sint_of_int [of "?l - ?k + 1"] kl A B assms(4) by (simp del: of_int_add of_int_diff)
qed

lemma last_is_latest: "sorted (map ts pts) \<Longrightarrow> p \<in> set pts \<Longrightarrow> ts p \<le> ts (last pts)"
  by (induction pts) auto

text \<open>
  C13: for points ordered by time from the epoch on, the last before the largest instant, and a positive width, the buckets are those of width \<open>w\<close> aligned to
  multiples of \<open>w\<close>, without a gap from the first point's to the last point's; each holds the count, the
  sum in order, the least and the greatest value of exactly the points that fall into it, and a bucket
  without points has all four 0.
\<close>

theorem query_aggregate_buckets:
  assumes "sorted (map ts points)" and "points \<noteq> []" and "0 < sint w" and "0 \<le> ts (hd points)"
    and "Timestamp (last points) \<noteq> MaxInt64"
  shows "Aggregate points w =
    Inr (map (\<lambda>k. bucket_of (word_of_int (k * sint w)) (filter (\<lambda>p. ts p div sint w = k) points))
      [ts (hd points) div sint w..ts (last points) div sint w])"
proof -
  let ?W = "sint w" and ?t0 = "ts (hd points)" and ?tn = "ts (last points)"
  let ?k0 = "?t0 div ?W" and ?kn = "?tn div ?W" and ?f = "go_div (Timestamp (hd points)) w * w"
  let ?N = "nat (?kn - ?k0 + 1)"
  let ?bs = "map (\<lambda>i. empty_bucket (?f + of_nat i * w)) [0..<?N]"
  have range: "?t0 \<le> ts p" "ts p \<le> ?tn" if "p \<in> set points" for p
    using sorted_points_hd [OF assms(1) that] last_is_latest [OF assms(1) that] by simp_all
  have "?tn \<noteq> sint MaxInt64" using assms(5) by (metis ts_def signed_word_eqI)
  then have tn: "?tn < 2 ^ 63 - 1" "?t0 \<le> ?tn" using ts_le_Max [of "last points"] range(1) assms(2) by simp_all
  then have k: "?k0 \<le> ?kn" using assms(3) by (simp add: zdiv_mono1)
  have n: "sint (go_div (go_div (Timestamp (last points)) w * w - ?f) w + 1) = ?kn - ?k0 + 1"
    using bucket_count [of "Timestamp (hd points)" w "Timestamp (last points)"] assms(3,4) tn by (simp add: ts_def)
  have inr: "\<forall>p\<in>set points. 0 \<le> ts p div ?W - ?k0 \<and> ts p div ?W - ?k0 < int (length ?bs)"
  proof
    fix p assume p: "p \<in> set points"
    have "?k0 \<le> ts p div ?W" "ts p div ?W \<le> ?kn"
      using range [OF p] assms(3) by (simp_all add: zdiv_mono1)
    then show "0 \<le> ts p div ?W - ?k0 \<and> ts p div ?W - ?k0 < int (length ?bs)" by simp
  qed
  have loop: "aggregate_loop ?f w ?bs points =
      Inr (map (\<lambda>i. foldl add_point (?bs ! i) (map Value (filter (\<lambda>p. ts p div ?W - ?k0 = int i) points))) [0..<length ?bs])"
    using bucket_index [of "Timestamp (hd points)" w] assms(3,4) range(1)
    by (intro aggregate_loop_eq [OF inr]) (simp add: ts_def)
  have start: "?f + of_nat i * w = word_of_int ((?k0 + int i) * ?W)" for i
    using bucket_floor [of "Timestamp (hd points)" w] assms(3,4) by (simp add: ts_def distrib_right)
  have ks: "map g [?k0..?kn] = map (\<lambda>i. g (?k0 + int i)) [0..<?N]" for g :: "int \<Rightarrow> bucket"
    by (rule nth_equalityI) (use k in \<open>simp_all add: nth_upto\<close>)
  have same: "ts p div ?W - ?k0 = int i \<longleftrightarrow> ts p div ?W = ?k0 + int i" for p i by linarith
  have "Aggregate points w = res_bind (aggregate_loop ?f w ?bs points) (\<lambda>buckets. Inr (map close_bucket buckets))"
    using assms(2,3) n k by (auto simp add: Aggregate_def Let_def simp del: upt_Suc)
  also have "\<dots> = Inr (map (\<lambda>i. bucket_of (?f + of_nat i * w) (filter (\<lambda>p. ts p div ?W - ?k0 = int i) points)) [0..<?N])"
    unfolding loop by (simp add: close_added)
  finally show ?thesis unfolding ks start same .
qed

lemma query_aggregate_buckets_witness:
  "Aggregate (ex_points [12, 15, 31]) 10 =
    Inr [bucket_of 10 (ex_points [12, 15]), bucket_of 20 [], bucket_of 30 (ex_points [31])]"
proof -
  have "[1..3] = [1, 2, 3 :: int]" by (simp add: upto_rec1)
  then show ?thesis
    using query_aggregate_buckets [of "ex_points [12, 15, 31]" 10] by (simp add: ex_points_def ts_def)
qed

text \<open>
  Before the epoch the division truncates towards zero: a point at -5 is counted in the bucket
  that starts at 0, to which it does not belong.
\<close>

theorem query_aggregate_before_epoch:
  "Aggregate (ex_points [-5, 5]) 10 = Inr [bucket_of 0 (ex_points [-5, 5])]"
  by code_simp

subsection \<open>Reading one series from many segments\<close>

text \<open>A segment that cannot be opened or read is passed over; a panic of the reader ends the process.\<close>

fun readSegments_loop :: "string list \<Rightarrow> u64 \<Rightarrow> os_state \<Rightarrow> point list list res" where
  "readSegments_loop [] seriesID st = Inr []"
| "readSegments_loop (path # paths) seriesID st =
     (case OpenReader path st of
        Inl e \<Rightarrow> if e = Panic then Inl Panic else readSegments_loop paths seriesID st
      | Inr r \<Rightarrow>
          (case ReadSeries r seriesID of
             Inl e \<Rightarrow> if e = Panic then Inl Panic else readSegments_loop paths seriesID st
           | Inr pts \<Rightarrow> if pts = [] then readSegments_loop paths seriesID st
               else res_bind (readSegments_loop paths seriesID st) (\<lambda>all. Inr (pts # all))))"

definition ReadSegments :: "string list \<Rightarrow> u64 \<Rightarrow> os_state \<Rightarrow> point list res" where
  "ReadSegments paths seriesID st = res_bind (readSegments_loop paths seriesID st) (\<lambda>all. Inr (Merge all))"

text \<open>Reading a file, series by series or as a whole, does not panic.\<close>

definition reads_safely :: "os_state \<Rightarrow> string \<Rightarrow> bool" where
  "reads_safely st path \<longleftrightarrow> (\<forall>sid. res_bind (OpenReader path st) (\<lambda>r. ReadSeries r sid) \<noteq> Inl Panic) \<and>
     res_bind (OpenReader path st) ReadAll \<noteq> Inl Panic"

lemma reads_safelyI:
  assumes "OpenReader path st = Inr r" and "\<And>sid. \<exists>pts. ReadSeries r sid = Inr pts" and "ReadAll r = Inr m"
  shows "reads_safely st path"
proof -
  have "ReadSeries r sid \<noteq> Inl Panic" for sid using assms(2) [of sid] by auto
  then show ?thesis using assms(1,3) by (simp add: reads_safely_def)
qed

lemma reads_safely_absent: "o_files st path = None \<Longrightarrow> reads_safely st path"
  by (simp add: reads_safely_def OpenReader_def os_ReadFile_def)

text \<open>What a path holds of a series: nothing when it cannot be read.\<close>

definition segment_points :: "os_state \<Rightarrow> u64 \<Rightarrow> string \<Rightarrow> point list" where
  "segment_points st sid path =
     (case res_bind (OpenReader path st) (\<lambda>r. ReadSeries r sid) of Inl e \<Rightarrow> [] | Inr pts \<Rightarrow> pts)"

lemma readSegments_loop_eq:
  assumes "\<forall>path\<in>set paths. reads_safely st path"
  shows "readSegments_loop paths sid st = Inr (filter (\<lambda>l. l \<noteq> []) (map (segment_points st sid) paths))"
  using assms
proof (induction paths)
  case (Cons path paths)
  have "res_bind (OpenReader path st) (\<lambda>r. ReadSeries r sid) \<noteq> Inl Panic"
    using Cons.prems by (simp add: reads_safely_def)
  then show ?case using Cons by (auto simp: segment_points_def split: sum.splits)
qed simp

lemma readSegments_loop_panics:
  assumes "path \<in> set paths" and "res_bind (OpenReader path st) (\<lambda>r. ReadSeries r sid) = Inl Panic"
  shows "readSegments_loop paths sid st = Inl Panic"
  using assms(1)
proof (induction paths)
  case (Cons q paths)
  show ?case
  proof (cases "q = path")
    case True
    then show ?thesis using assms(2) by (auto simp: res_bind_def split: sum.splits)
  next
    case False
    then show ?thesis using Cons by (auto split: sum.splits)
  qed
qed simp

lemma readSegments_loop_errors: "readSegments_loop paths sid st = Inl e \<Longrightarrow> e = Panic"
  by (induction paths) (auto split: sum.splits if_splits simp: res_bind_def)

lemma Merge_no_empty: "Merge (filter (\<lambda>l. l \<noteq> []) ls) = Merge ls"
  if "\<forall>l\<in>set ls. sorted (map ts l)"
proof -
  have "concat (filter (\<lambda>l. l \<noteq> []) ls) = concat ls" by (induction ls) auto
  then show ?thesis
    using query_merge [of ls] query_merge [of "filter (\<lambda>l. l \<noteq> []) ls"] that by simp
qed

text \<open>
  Reading a series from several segments gives its points of all segments that can be read, in the
  stable order of time; a segment that is missing, corrupt or without the series adds nothing.  It
  returns unless the reader of one of them panics.
\<close>

theorem query_read_segments:
  assumes "\<forall>path\<in>set paths. reads_safely st path \<and> sorted (map ts (segment_points st sid path))"
  shows "ReadSegments paths sid st = Inr
    (let found = filter (\<lambda>l. l \<noteq> []) (map (segment_points st sid) paths) in
     if length found \<le> 1 then concat found
     else sort_key ts (filter (\<lambda>p. Timestamp p \<noteq> MaxInt64) (concat found)))"
proof -
  have "\<forall>l\<in>set (filter (\<lambda>l. l \<noteq> []) (map (segment_points st sid) paths)). sorted (map ts l)"
    using assms by auto
  from query_merge [OF this] show ?thesis using assms by (simp add: ReadSegments_def readSegments_loop_eq Let_def)
qed

lemma query_read_segments_witness:
  "ReadSegments [ex_path, ''b.seg''] 7
    (ex_disk\<lparr>o_files := [ex_path \<mapsto> seg_file_with 0 1 0 0 (insertionSort SeriesID ex_sps)]\<rparr>) = Inr ex_series"
proof -
  let ?sps = "insertionSort SeriesID ex_sps"
  let ?st = "ex_disk\<lparr>o_files := [ex_path \<mapsto> seg_file_with 0 1 0 0 ?sps]\<rparr>"
  note ok = writable_sorted [OF ex_sps_writable(1) insertionSort_sorter]
  have opened: "OpenReader ex_path ?st = Inr (written_reader 0 1 0 0 ?sps)"
    by (rule OpenReader_written) (use ok(2) in \<open>simp_all add: ex_disk_def\<close>)
  have "\<lparr>SeriesID = 7, Points = ex_series\<rparr> \<in> set ?sps"
    unfolding go_insertion.set_srt by (simp add: ex_sps_def)
  from ReadSeries_written [OF ok(1) this] have "ReadSeries (written_reader 0 1 0 0 ?sps) 7 = Inr ex_series" by simp
  then have a: "segment_points ?st 7 ex_path = ex_series" using opened by (simp add: segment_points_def)
  have "\<exists>pts. ReadSeries (written_reader 0 1 0 0 ?sps) sid = Inr pts" for sid
    using ReadSeries_written [OF ok(1)] ReadSeries_absent [OF ok(1)] by (cases "sid \<in> SeriesID ` set ?sps") auto
  then have safe: "reads_safely ?st ex_path" using reads_safelyI [OF opened _ ReadAll_written [OF ok(1)]] by blast
  have b: "segment_points ?st 7 ''b.seg'' = []" "reads_safely ?st ''b.seg''"
    by (simp_all add: reads_safely_absent segment_points_def OpenReader_def os_ReadFile_def ex_disk_def ex_path_def)
  have "sorted (map ts ex_series)" by (simp add: ex_series_def ts_def)
  then show ?thesis
    using query_read_segments [of "[ex_path, ''b.seg'']" ?st 7] a b safe by (simp add: ex_series_def)
qed

end
