(* ===== verification/Go_Strings.thy ===== *)
theory Go_Strings
  imports Go_Prelude "HOL-Library.Char_ord" "HOL-Library.List_Lexorder"
begin

text \<open>
  What the repository uses of Go strings: their order (bytewise, the order of \<^verbatim>\<open>sort.Strings\<close>),
  decimal numbers (\<^verbatim>\<open>strconv\<close>, the verbs \<^verbatim>\<open>%d\<close> and \<^verbatim>\<open>%06d\<close>) and slash-separated paths
  (\<^verbatim>\<open>path/filepath\<close>).  A string is the list of its bytes.
\<close>

subsection \<open>Decimal numbers\<close>

definition digit_char :: "nat \<Rightarrow> char" where
  "digit_char d = char_of (d + 48)"

definition is_digit :: "char \<Rightarrow> bool" where
  "is_digit c \<longleftrightarrow> 48 \<le> (of_char c :: nat) \<and> (of_char c :: nat) \<le> 57"

definition digit_val :: "char \<Rightarrow> nat" where
  "digit_val c = of_char c - 48"

fun nat_str :: "nat \<Rightarrow> string" where
  "nat_str n = (if n < 10 then [digit_char n] else nat_str (n div 10) @ [digit_char (n mod 10)])"

declare nat_str.simps [simp del]

definition int_str :: "int \<Rightarrow> string" where
  "int_str i = (if i < 0 then CHR ''-'' # nat_str (nat (- i)) else nat_str (nat i))"

definition str_nat :: "string \<Rightarrow> nat" where
  "str_nat s = foldl (\<lambda>a c. 10 * a + digit_val c) 0 s"

text \<open>\<^verbatim>\<open>%06d\<close> of a number that is not negative.\<close>

definition pad6 :: "nat \<Rightarrow> string" where
  "pad6 n = (let s = nat_str n in replicate (6 - length s) (CHR ''0'') @ s)"

lemma is_digit_char [simp]: "d < 10 \<Longrightarrow> is_digit (digit_char d)"
  by (simp add: is_digit_def digit_char_def of_char_of)

lemma digit_val_char [simp]: "d < 10 \<Longrightarrow> digit_val (digit_char d) = d"
  by (simp add: digit_val_def digit_char_def of_char_of)

lemma nat_str_digits: "list_all is_digit (nat_str n)"
proof (induction n rule: nat_str.induct)
  case (1 n)
  then show ?case by (cases "n < 10") (simp_all add: nat_str.simps [of n])
qed

lemma nat_str_neq_Nil [simp]: "nat_str n \<noteq> []"
  by (simp add: nat_str.simps [of n])

lemma str_nat_str [go_simps]: "str_nat (nat_str n) = n"
proof (induction n rule: nat_str.induct)
  case (1 n)
  then show ?case by (cases "n < 10") (simp_all add: nat_str.simps [of n] str_nat_def)
qed

lemma nat_str_inject: "nat_str m = nat_str n \<longleftrightarrow> m = n"
  by (metis str_nat_str)

lemma str_nat_zeros: "str_nat (replicate k (CHR ''0'') @ s) = str_nat s"
proof (induction k)
  case (Suc k)
  have "digit_val (CHR ''0'') = 0" by (simp add: digit_val_def)
  then show ?case using Suc by (simp add: str_nat_def)
qed simp

lemma str_nat_pad6 [go_simps]: "str_nat (pad6 n) = n"
  by (simp add: pad6_def Let_def str_nat_zeros str_nat_str)

lemma pad6_inject: "pad6 m = pad6 n \<longleftrightarrow> m = n"
  by (metis str_nat_pad6)

text \<open>No leading zero, so that a number read back as JSON or by \<^verbatim>\<open>strconv\<close> is well formed.\<close>

lemma nat_str_hd: "n \<noteq> 0 \<Longrightarrow> hd (nat_str n) \<noteq> CHR ''0''"
proof (induction n rule: nat_str.induct)
  case (1 n)
  show ?case
  proof (cases "n < 10")
    case True
    have "of_char (digit_char n) \<noteq> (of_char (CHR ''0'') :: nat)" using "1.prems" True by (simp add: digit_char_def of_char_of)
    then show ?thesis using True by (auto simp: nat_str.simps [of n])
  next
    case False
    then show ?thesis using 1 by (simp add: nat_str.simps [of n])
  qed
qed

subsection \<open>Paths\<close>

fun split_slash :: "string \<Rightarrow> string \<Rightarrow> string list" where
  "split_slash acc [] = [acc]"
| "split_slash acc (c # cs) = (if c = CHR ''/'' then acc # split_slash [] cs else split_slash (acc @ [c]) cs)"

text \<open>\<^verbatim>\<open>filepath.Clean\<close>, element by element: \<open>out\<close> is the path so far, last element first.\<close>

fun clean_elems :: "bool \<Rightarrow> string list \<Rightarrow> string list \<Rightarrow> string list" where
  "clean_elems rooted out [] = rev out"
| "clean_elems rooted out (e # es) =
     (if e = [] \<or> e = ''.'' then clean_elems rooted out es
      else if e = ''..'' then
        (case out of
           o1 # os \<Rightarrow> if o1 = ''..'' then clean_elems rooted (''..'' # out) es else clean_elems rooted os es
         | [] \<Rightarrow> if rooted then clean_elems rooted [] es else clean_elems rooted [''..''] es)
      else clean_elems rooted (e # out) es)"

fun join_slash :: "string list \<Rightarrow> string" where
  "join_slash [] = []"
| "join_slash [e] = e"
| "join_slash (e # es) = e @ ''/'' @ join_slash es"

definition filepath_Clean :: "string \<Rightarrow> string" where
  "filepath_Clean p =
     (let rooted = (p \<noteq> [] \<and> hd p = CHR ''/''); body = join_slash (clean_elems rooted [] (split_slash [] p))
      in if rooted then ''/'' @ body else if body = [] then ''.'' else body)"

text \<open>\<^verbatim>\<open>filepath.Join\<close> of two elements: empty ones are left out.\<close>

definition filepath_Join :: "string \<Rightarrow> string \<Rightarrow> string" where
  "filepath_Join a b =
     (if a = [] then (if b = [] then [] else filepath_Clean b)
      else if b = [] then filepath_Clean a
      else filepath_Clean (a @ ''/'' @ b))"

text \<open>\<^verbatim>\<open>filepath.Dir\<close>: all but the last element.\<close>

definition filepath_Dir :: "string \<Rightarrow> string" where
  "filepath_Dir p = filepath_Clean (rev (dropWhile (\<lambda>c. c \<noteq> CHR ''/'') (rev p)))"

text \<open>A path element that \<^verbatim>\<open>Clean\<close> keeps.\<close>

definition plain_name :: "string \<Rightarrow> bool" where
  "plain_name n \<longleftrightarrow> CHR ''/'' \<notin> set n \<and> n \<noteq> [] \<and> n \<noteq> ''.'' \<and> n \<noteq> ''..''"

lemma split_slash_append: "split_slash acc (a @ CHR ''/'' # b) = split_slash acc a @ split_slash [] b"
  by (induction acc a rule: split_slash.induct) simp_all

lemma split_slash_plain: "CHR ''/'' \<notin> set n \<Longrightarrow> split_slash acc n = [acc @ n]"
  by (induction acc n rule: split_slash.induct) auto

lemma clean_elems_snoc:
  "plain_name n \<Longrightarrow> clean_elems rooted out (es @ [n]) = clean_elems rooted out es @ [n]"
  by (induction rooted out es rule: clean_elems.induct) (auto simp: plain_name_def split: list.splits)

lemma join_slash_snoc: "join_slash (es @ [n]) = (if es = [] then n else join_slash es @ ''/'' @ n)"
  by (induction es rule: join_slash.induct) auto

text \<open>Joining a plain name to a directory puts a prefix before it that depends on the directory only.\<close>

lemma filepath_Join_plain:
  obtains pre where "\<And>n. plain_name n \<Longrightarrow> filepath_Join dir n = pre @ n"
proof -
  let ?rooted = "dir \<noteq> [] \<and> hd dir = CHR ''/''"
  let ?es = "clean_elems ?rooted [] (split_slash [] dir)"
  let ?pre = "if dir = [] then [] else (if ?rooted then ''/'' else []) @ (if ?es = [] then [] else join_slash ?es @ ''/'')"
  have "filepath_Join dir n = ?pre @ n" if n: "plain_name n" for n
  proof (cases "dir = []")
    case True
    have "split_slash [] n = [n]" using n split_slash_plain [of n "[]"] by (simp add: plain_name_def)
    moreover have "hd n \<noteq> CHR ''/''" using n by (cases n) (auto simp: plain_name_def)
    ultimately show ?thesis
      using n True by (simp add: filepath_Join_def filepath_Clean_def Let_def plain_name_def)
  next
    case False
    have "split_slash [] (dir @ CHR ''/'' # n) = split_slash [] dir @ [n]"
      using n split_slash_plain [of n "[]"] by (simp add: split_slash_append plain_name_def)
    then have "clean_elems ?rooted [] (split_slash [] (dir @ ''/'' @ n)) = ?es @ [n]"
      using clean_elems_snoc [OF n] by simp
    then show ?thesis
      using n False
      by (cases "hd dir = CHR ''/''")
        (auto simp: filepath_Join_def filepath_Clean_def Let_def plain_name_def join_slash_snoc)
  qed
  then show thesis using that by blast
qed

lemma filepath_Join_inject:
  "plain_name m \<Longrightarrow> plain_name n \<Longrightarrow> filepath_Join dir m = filepath_Join dir n \<longleftrightarrow> m = n"
  by (metis filepath_Join_plain same_append_eq)

lemma digit_not_slash: "list_all is_digit s \<Longrightarrow> CHR ''/'' \<notin> set s"
  by (auto simp: list_all_iff is_digit_def)

end
