(* ===== verification/Go_Json.thy ===== *)
theory Go_Json
  imports Go_Strings
begin

text \<open>
  What the repository uses of \<^verbatim>\<open>encoding/json\<close>: the text of a value as \<^verbatim>\<open>MarshalIndent\<close> with two
  blanks lays it out, and the parser behind \<^verbatim>\<open>Unmarshal\<close>.  Strings are bytes; bytes from 128 on are
  passed through in both directions, as the library does for valid UTF-8 (but for the separators
  U+2028 and U+2029, which it escapes).
\<close>

datatype json =
    JNull
  | JBool bool
  | JNum string
  | JStr string
  | JArr "json list"
  | JObj "(string \<times> json) list"

subsection \<open>Strings\<close>

definition hex_digit :: "nat \<Rightarrow> char" where
  "hex_digit d = (if d < 10 then char_of (d + 48) else char_of (d + 87))"

definition hex_val :: "char \<Rightarrow> nat option" where
  "hex_val c = (let n = of_char c :: nat in
     if 48 \<le> n \<and> n \<le> 57 then Some (n - 48)
     else if 97 \<le> n \<and> n \<le> 102 then Some (n - 87)
     else if 65 \<le> n \<and> n \<le> 70 then Some (n - 55)
     else None)"

definition json_escape :: "char \<Rightarrow> string" where
  "json_escape c =
     (let n = of_char c :: nat; bs = CHR 0x5C in
      if n = 34 \<or> n = 92 then [bs, c]
      else if n = 8 then [bs, CHR ''b'']
      else if n = 12 then [bs, CHR ''f'']
      else if n = 10 then [bs, CHR ''n'']
      else if n = 13 then [bs, CHR ''r'']
      else if n = 9 then [bs, CHR ''t'']
      else if n < 32 \<or> n = 60 \<or> n = 62 \<or> n = 38
        then [bs, CHR ''u'', CHR ''0'', CHR ''0'', hex_digit (n div 16), hex_digit (n mod 16)]
      else [c])"

definition json_quote :: "string \<Rightarrow> string" where
  "json_quote s = CHR 0x22 # concat (map json_escape s) @ [CHR 0x22]"

definition utf8 :: "nat \<Rightarrow> string" where
  "utf8 r =
     (if r < 0x80 then [char_of r]
      else if r < 0x800 then [char_of (0xC0 + r div 64), char_of (0x80 + r mod 64)]
      else if r < 0x10000 then [char_of (0xE0 + r div 4096), char_of (0x80 + r div 64 mod 64), char_of (0x80 + r mod 64)]
      else [char_of (0xF0 + r div 262144), char_of (0x80 + r div 4096 mod 64), char_of (0x80 + r div 64 mod 64),
            char_of (0x80 + r mod 64)])"

text \<open>\<^verbatim>\<open>getu4\<close>: the value of \<^verbatim>\<open>\uXXXX\<close> at the start of the text.\<close>

fun getu4 :: "string \<Rightarrow> nat option" where
  "getu4 (b # u # h1 # h2 # h3 # h4 # r) =
     (if b = CHR 0x5C \<and> u = CHR ''u'' then
        (case (hex_val h1, hex_val h2, hex_val h3, hex_val h4) of
           (Some a, Some b, Some c, Some d) \<Rightarrow> Some (((a * 16 + b) * 16 + c) * 16 + d)
         | _ \<Rightarrow> None)
      else None)"
| "getu4 _ = None"

definition short_escape :: "char \<Rightarrow> char option" where
  "short_escape e =
     (if e = CHR 0x22 \<or> e = CHR 0x5C \<or> e = CHR ''/'' then Some e
      else if e = CHR ''b'' then Some (CHR 0x08)
      else if e = CHR ''f'' then Some (CHR 0x0C)
      else if e = CHR ''n'' then Some (CHR 0x0A)
      else if e = CHR ''r'' then Some (CHR 0x0D)
      else if e = CHR ''t'' then Some (CHR 0x09)
      else None)"

text \<open>The rest of a string literal, after its opening quote.\<close>

function parse_string :: "string \<Rightarrow> string \<Rightarrow> (string \<times> string) option" where
  "parse_string acc s =
     (case s of
        [] \<Rightarrow> None
      | c # cs \<Rightarrow>
          if c = CHR 0x22 then Some (acc, cs)
          else if (of_char c :: nat) < 32 then None
          else if c \<noteq> CHR 0x5C then parse_string (acc @ [c]) cs
          else (case cs of
                  [] \<Rightarrow> None
                | e # r \<Rightarrow>
                    (case short_escape e of
                       Some x \<Rightarrow> parse_string (acc @ [x]) r
                     | None \<Rightarrow>
                         (case getu4 s of
                            None \<Rightarrow> None
                          | Some u \<Rightarrow>
                              if 0xD800 \<le> u \<and> u < 0xE000 then
                                (case getu4 (drop 4 r) of
                                   Some v \<Rightarrow>
                                     if u < 0xDC00 \<and> 0xDC00 \<le> v \<and> v < 0xE000
                                     then parse_string (acc @ utf8 ((u - 0xD800) * 1024 + (v - 0xDC00) + 0x10000)) (drop 10 r)
                                     else parse_string (acc @ utf8 0xFFFD) (drop 4 r)
                                 | None \<Rightarrow> parse_string (acc @ utf8 0xFFFD) (drop 4 r))
                              else parse_string (acc @ utf8 u) (drop 4 r)))))"
  by pat_completeness auto
termination by (relation "measure (\<lambda>(acc, s). length s)") auto

declare parse_string.simps [simp del]

lemma hex_val_digit [simp]: "d < 16 \<Longrightarrow> hex_val (hex_digit d) = Some d"
  by (auto simp: hex_val_def hex_digit_def of_char_of Let_def)

lemma char_by_code: "(of_char c :: nat) = of_char d \<Longrightarrow> c = d"
  by (metis char_of_char)

lemma parse_short:
  "short_escape e = Some x \<Longrightarrow> parse_string acc (CHR 0x5C # e # r) = parse_string (acc @ [x]) r"
  by (subst parse_string.simps) simp

lemma parse_plain:
  "c \<noteq> CHR 0x22 \<Longrightarrow> c \<noteq> CHR 0x5C \<Longrightarrow> \<not> (of_char c :: nat) < 32 \<Longrightarrow>
    parse_string acc (c # r) = parse_string (acc @ [c]) r"
  by (subst parse_string.simps) simp

lemma parse_hex:
  assumes "getu4 (CHR 0x5C # CHR ''u'' # h1 # h2 # h3 # h4 # r) = Some u" and "u < 0x80"
  shows "parse_string acc (CHR 0x5C # CHR ''u'' # h1 # h2 # h3 # h4 # r) = parse_string (acc @ [char_of u]) r"
proof -
  have "short_escape (CHR ''u'') = None" by (simp add: short_escape_def)
  then show ?thesis using assms by (subst parse_string.simps) (simp add: utf8_def)
qed

lemma consider_escape:
  obtains "json_escape c = [CHR 0x5C, c]" "(of_char c :: nat) = 34 \<or> (of_char c :: nat) = 92"
  | "json_escape c = [CHR 0x5C, CHR ''b'']" "(of_char c :: nat) = 8"
  | "json_escape c = [CHR 0x5C, CHR ''f'']" "(of_char c :: nat) = 12"
  | "json_escape c = [CHR 0x5C, CHR ''n'']" "(of_char c :: nat) = 10"
  | "json_escape c = [CHR 0x5C, CHR ''r'']" "(of_char c :: nat) = 13"
  | "json_escape c = [CHR 0x5C, CHR ''t'']" "(of_char c :: nat) = 9"
  | "json_escape c = [CHR 0x5C, CHR ''u'', CHR ''0'', CHR ''0'', hex_digit (of_char c div 16), hex_digit (of_char c mod 16)]"
    "(of_char c :: nat) < 128"
  | "json_escape c = [c]"
proof -
  let ?n = "of_char c :: nat"
  consider "?n = 34 \<or> ?n = 92" | "?n = 8" | "?n = 12" | "?n = 10" | "?n = 13" | "?n = 9"
    | (hex) "\<not> (?n = 34 \<or> ?n = 92)" "?n \<noteq> 8" "?n \<noteq> 12" "?n \<noteq> 10" "?n \<noteq> 13" "?n \<noteq> 9"
      "?n < 32 \<or> ?n = 60 \<or> ?n = 62 \<or> ?n = 38"
    | (plain) "\<not> (?n = 34 \<or> ?n = 92)" "?n \<noteq> 8" "?n \<noteq> 12" "?n \<noteq> 10" "?n \<noteq> 13" "?n \<noteq> 9"
      "\<not> (?n < 32 \<or> ?n = 60 \<or> ?n = 62 \<or> ?n = 38)" by argo
  then show thesis
  proof cases
    case hex
    moreover from hex have "?n < 128" by linarith
    ultimately show thesis using that(7) by (simp add: json_escape_def Let_def)
  next
    case plain
    then show thesis using that(8) by (simp add: json_escape_def Let_def)
  qed (use that in \<open>simp_all add: json_escape_def Let_def\<close>)
qed

lemma parse_escaped: "parse_string acc (json_escape c @ r) = parse_string (acc @ [c]) r"
proof (cases "json_escape c = [c]")
  case True
  let ?n = "of_char c :: nat"
  have "?n \<noteq> 34" "?n \<noteq> 92" "\<not> ?n < 32" using True by (auto simp: json_escape_def Let_def split: if_splits)
  then have "c \<noteq> CHR 0x22" "c \<noteq> CHR 0x5C" by auto
  then show ?thesis using parse_plain [of c acc r] \<open>\<not> ?n < 32\<close> True by simp
next
  case False
  let ?n = "of_char c :: nat"
  have c: "char_of ?n = c" by simp
  consider (short) e where "json_escape c = [CHR 0x5C, e]" "short_escape e = Some c"
    | (hex) "?n < 128" "json_escape c = [CHR 0x5C, CHR ''u'', CHR ''0'', CHR ''0'', hex_digit (?n div 16), hex_digit (?n mod 16)]"
  proof -
    have lit: "c = CHR 0x22" if "?n = 34" using char_by_code [of c "CHR 0x22"] that by simp
    have lit2: "c = CHR 0x5C" if "?n = 92" using char_by_code [of c "CHR 0x5C"] that by simp
    have lit3: "c = CHR 0x08" if "?n = 8" using char_by_code [of c "CHR 0x08"] that by simp
    have lit4: "c = CHR 0x0C" if "?n = 12" using char_by_code [of c "CHR 0x0C"] that by simp
    have lit5: "c = CHR 0x0A" if "?n = 10" using char_by_code [of c "CHR 0x0A"] that by simp
    have lit6: "c = CHR 0x0D" if "?n = 13" using char_by_code [of c "CHR 0x0D"] that by simp
    have lit7: "c = CHR 0x09" if "?n = 9" using char_by_code [of c "CHR 0x09"] that by simp
    show thesis
      by (rule consider_escape [of c]) (use lit lit2 lit3 lit4 lit5 lit6 lit7 False short hex in \<open>auto simp: short_escape_def\<close>)
  qed
  then show ?thesis
  proof cases
    case short
    then show ?thesis using parse_short by simp
  next
    case hex
    have h: "hex_val (CHR ''0'') = Some 0" "?n div 16 < 16" "?n mod 16 < 16"
      using hex(1) by (simp_all add: hex_val_def)
    have "getu4 (CHR 0x5C # CHR ''u'' # CHR ''0'' # CHR ''0'' # hex_digit (?n div 16) # hex_digit (?n mod 16) # r)
        = Some ((0 * 16 + ?n div 16) * 16 + ?n mod 16)"
      using h by simp
    also have "(0 * 16 + ?n div 16) * 16 + ?n mod 16 = ?n" by simp
    finally have g: "getu4 (CHR 0x5C # CHR ''u'' # CHR ''0'' # CHR ''0'' # hex_digit (?n div 16) # hex_digit (?n mod 16) # r) = Some ?n" .
    from parse_hex [OF g hex(1)] show ?thesis by (simp only: hex(2) append.simps c)
  qed
qed

lemma parse_quoted: "parse_string acc (concat (map json_escape s) @ CHR 0x22 # rest) = Some (acc @ s, rest)"
proof (induction s arbitrary: acc)
  case Nil
  then show ?case by (simp add: parse_string.simps)
next
  case (Cons c s)
  then show ?case by (simp add: parse_escaped)
qed

subsection \<open>Numbers\<close>

text \<open>The grammar of a number: a sign, an integer without a leading zero, a fraction, an exponent.\<close>

definition valid_exp :: "string \<Rightarrow> bool" where
  "valid_exp s =
     (case s of [] \<Rightarrow> True
      | c # r \<Rightarrow> (c = CHR ''e'' \<or> c = CHR ''E'') \<and>
          (let r = (case r of [] \<Rightarrow> [] | x # r' \<Rightarrow> if x = CHR ''+'' \<or> x = CHR ''-'' then r' else r)
           in r \<noteq> [] \<and> list_all is_digit r))"

definition valid_frac :: "string \<Rightarrow> bool" where
  "valid_frac s =
     (case s of [] \<Rightarrow> True
      | c # r \<Rightarrow> if c = CHR ''.''
          then r \<noteq> [] \<and> is_digit (hd r) \<and> valid_exp (dropWhile is_digit r)
          else valid_exp s)"

definition valid_number :: "string \<Rightarrow> bool" where
  "valid_number s =
     (let s = (case s of [] \<Rightarrow> [] | c # r \<Rightarrow> if c = CHR ''-'' then r else s) in
      case s of [] \<Rightarrow> False
      | c # r \<Rightarrow> if c = CHR ''0'' then valid_frac r
          else is_digit c \<and> valid_frac (dropWhile is_digit r))"

definition num_char :: "char \<Rightarrow> bool" where
  "num_char c \<longleftrightarrow> is_digit c \<or> c = CHR ''+'' \<or> c = CHR ''-'' \<or> c = CHR ''.'' \<or> c = CHR ''e'' \<or> c = CHR ''E''"

text \<open>The value of a literal that \<^verbatim>\<open>strconv.ParseInt(s, 10, 64)\<close> accepts.\<close>

definition parse_int64 :: "string \<Rightarrow> int option" where
  "parse_int64 s =
     (let neg = (s \<noteq> [] \<and> hd s = CHR ''-''); d = (if neg \<or> (s \<noteq> [] \<and> hd s = CHR ''+'') then tl s else s);
          v = (if neg then - int (str_nat d) else int (str_nat d))
      in if d \<noteq> [] \<and> list_all is_digit d \<and> - (2 ^ 63) \<le> v \<and> v < 2 ^ 63 then Some v else None)"

lemma digit_not_sign: "is_digit c \<Longrightarrow> c \<noteq> CHR ''-'' \<and> c \<noteq> CHR ''+''"
  by (auto simp: is_digit_def)

lemma nat_str_cases:
  obtains (zero) "n = 0" "nat_str n = ''0''"
  | (pos) c r where "nat_str n = c # r" "is_digit c" "c \<noteq> CHR ''0''" "list_all is_digit r"
proof (cases "n = 0")
  case True
  have "digit_char 0 = CHR ''0''" by (simp add: digit_char_def char_of_def bit_iff_odd)
  then show thesis using True zero by (simp add: nat_str.simps [of 0])
next
  case False
  obtain c r where cr: "nat_str n = c # r" by (cases "nat_str n") auto
  then show thesis using pos [OF cr] nat_str_hd [OF False] nat_str_digits [of n] by simp
qed

lemma valid_int_str: "valid_number (int_str i)"
proof -
  have d: "dropWhile is_digit r = []" if "list_all is_digit r" for r
    using that by (induction r) auto
  have nat: "valid_number (nat_str n)" "valid_number (CHR ''-'' # nat_str n)" for n
    by (cases n rule: nat_str_cases; auto simp: valid_number_def valid_frac_def d dest: digit_not_sign)+
  show ?thesis by (simp add: int_str_def nat)
qed

lemma int_str_num_chars: "list_all num_char (int_str i)"
proof -
  have "list_all num_char (nat_str n)" for n
    using nat_str_digits [of n] by (auto simp: list_all_iff num_char_def)
  then show ?thesis by (simp add: int_str_def num_char_def)
qed

lemma parse_int_str:
  assumes "- (2 ^ 63) \<le> i" and "i < 2 ^ 63"
  shows "parse_int64 (int_str i) = Some i"
proof (cases "i < 0")
  case True
  then show ?thesis
    using assms nat_str_digits [of "nat (- i)"] by (simp add: parse_int64_def int_str_def Let_def str_nat_str)
next
  case False
  obtain c r where cr: "nat_str (nat i) = c # r" by (cases "nat_str (nat i)") auto
  have "is_digit c" using nat_str_digits [of "nat i"] cr by simp
  then show ?thesis
    using assms False nat_str_digits [of "nat i"] digit_not_sign [of c] str_nat_str [of "nat i"] cr
    by (simp add: parse_int64_def int_str_def Let_def)
qed

subsection \<open>Values\<close>

definition newline_indent :: "nat \<Rightarrow> string" where
  "newline_indent i = CHR 0x0A # replicate (2 * i) (CHR '' '')"

text \<open>\<^verbatim>\<open>MarshalIndent(v, "", "  ")\<close> at nesting depth \<open>i\<close>.\<close>

fun json_print :: "nat \<Rightarrow> json \<Rightarrow> string"
  and print_elems :: "nat \<Rightarrow> json list \<Rightarrow> string"
  and print_members :: "nat \<Rightarrow> (string \<times> json) list \<Rightarrow> string" where
  "json_print i JNull = ''null''"
| "json_print i (JBool b) = (if b then ''true'' else ''false'')"
| "json_print i (JNum n) = n"
| "json_print i (JStr s) = json_quote s"
| "json_print i (JArr vs) = (if vs = [] then ''[]'' else ''['' @ print_elems (i + 1) vs @ newline_indent i @ '']'')"
| "json_print i (JObj ms) = (if ms = [] then ''{}'' else ''{'' @ print_members (i + 1) ms @ newline_indent i @ ''}'')"
| "print_elems i [] = []"
| "print_elems i (v # vs) = newline_indent i @ json_print i v @ (if vs = [] then [] else '','' @ print_elems i vs)"
| "print_members i [] = []"
| "print_members i ((k, v) # ms) =
     newline_indent i @ json_quote k @ '': '' @ json_print i v @ (if ms = [] then [] else '','' @ print_members i ms)"

definition is_ws :: "char \<Rightarrow> bool" where
  "is_ws c \<longleftrightarrow> c = CHR '' '' \<or> c = CHR 0x0A \<or> c = CHR 0x0D \<or> c = CHR 0x09"

definition skip_ws :: "string \<Rightarrow> string" where
  "skip_ws s = dropWhile is_ws s"

text \<open>
  The parser, by recursive descent with fuel: a value uses one unit and hands the rest to its elements,
  which use one more each.  No two of these units pass without a character being consumed, so twice
  the length of the text is enough.
\<close>

fun parse_value :: "nat \<Rightarrow> string \<Rightarrow> (json \<times> string) option"
  and parse_elems :: "nat \<Rightarrow> string \<Rightarrow> (json list \<times> string) option"
  and parse_members :: "nat \<Rightarrow> string \<Rightarrow> ((string \<times> json) list \<times> string) option" where
  "parse_value 0 s = None"
| "parse_value (Suc n) s =
     (case skip_ws s of
        [] \<Rightarrow> None
      | c # cs \<Rightarrow>
          if c = CHR 0x22 then map_option (\<lambda>(x, r). (JStr x, r)) (parse_string [] cs)
          else if c = CHR ''['' then
            (case skip_ws cs of
               [] \<Rightarrow> None
             | d # r \<Rightarrow> if d = CHR '']'' then Some (JArr [], r)
                 else map_option (\<lambda>(vs, r). (JArr vs, r)) (parse_elems n cs))
          else if c = CHR ''{'' then
            (case skip_ws cs of
               [] \<Rightarrow> None
             | d # r \<Rightarrow> if d = CHR ''}'' then Some (JObj [], r)
                 else map_option (\<lambda>(ms, r). (JObj ms, r)) (parse_members n cs))
          else if take 4 (c # cs) = ''null'' then Some (JNull, drop 4 (c # cs))
          else if take 4 (c # cs) = ''true'' then Some (JBool True, drop 4 (c # cs))
          else if take 5 (c # cs) = ''false'' then Some (JBool False, drop 5 (c # cs))
          else
            let tok = takeWhile num_char (c # cs) in
            if valid_number tok then Some (JNum tok, dropWhile num_char (c # cs)) else None)"
| "parse_elems 0 s = None"
| "parse_elems (Suc n) s =
     (case parse_value n s of
        None \<Rightarrow> None
      | Some (v, r) \<Rightarrow>
          (case skip_ws r of
             [] \<Rightarrow> None
           | d # r \<Rightarrow>
               if d = CHR '']'' then Some ([v], r)
               else if d = CHR '','' then map_option (\<lambda>(vs, r). (v # vs, r)) (parse_elems n r)
               else None))"
| "parse_members 0 s = None"
| "parse_members (Suc n) s =
     (case skip_ws s of
        [] \<Rightarrow> None
      | c # cs \<Rightarrow>
          if c \<noteq> CHR 0x22 then None
          else (case parse_string [] cs of
             None \<Rightarrow> None
           | Some (k, r) \<Rightarrow>
               (case skip_ws r of
                  [] \<Rightarrow> None
                | d # r \<Rightarrow>
                    if d \<noteq> CHR '':'' then None
                    else (case parse_value n r of
                       None \<Rightarrow> None
                     | Some (v, r) \<Rightarrow>
                         (case skip_ws r of
                            [] \<Rightarrow> None
                          | d # r \<Rightarrow>
                              if d = CHR ''}'' then Some ([(k, v)], r)
                              else if d = CHR '','' then map_option (\<lambda>(ms, r). ((k, v) # ms, r)) (parse_members n r)
                              else None)))))"

definition json_parse :: "string \<Rightarrow> json option" where
  "json_parse s =
     (case parse_value (Suc (2 * length s)) s of
        Some (v, r) \<Rightarrow> if skip_ws r = [] then Some v else None
      | None \<Rightarrow> None)"

subsection \<open>What is printed is parsed\<close>

text \<open>Every number of the value is a literal of the grammar.\<close>

fun json_ok :: "json \<Rightarrow> bool" where
  "json_ok (JNum n) = (valid_number n \<and> list_all num_char n)"
| "json_ok (JArr vs) = (\<forall>v\<in>set vs. json_ok v)"
| "json_ok (JObj ms) = (\<forall>kv\<in>set ms. json_ok (snd kv))"
| "json_ok _ = True"

fun value_fuel :: "json \<Rightarrow> nat" and elems_fuel :: "json list \<Rightarrow> nat" and members_fuel :: "(string \<times> json) list \<Rightarrow> nat" where
  "value_fuel (JArr vs) = Suc (elems_fuel vs)"
| "value_fuel (JObj ms) = Suc (members_fuel ms)"
| "value_fuel _ = 1"
| "elems_fuel [] = 0"
| "elems_fuel (v # vs) = Suc (max (value_fuel v) (elems_fuel vs))"
| "members_fuel [] = 0"
| "members_fuel ((k, v) # ms) = Suc (max (value_fuel v) (members_fuel ms))"

definition ends_token :: "string \<Rightarrow> bool" where
  "ends_token rest \<longleftrightarrow> rest = [] \<or> \<not> num_char (hd rest)"

lemma skip_ws_append: "list_all is_ws ws \<Longrightarrow> skip_ws (ws @ s) = skip_ws s"
  by (induction ws) (simp_all add: skip_ws_def)

lemma skip_ws_Cons: "\<not> is_ws c \<Longrightarrow> skip_ws (c # s) = c # s"
  by (simp add: skip_ws_def)

lemma newline_indent_ws [simp]: "list_all is_ws (newline_indent i)"
  by (auto simp: newline_indent_def is_ws_def list_all_iff)

lemma ends_token_newline [simp]: "ends_token (newline_indent i @ s)"
  by (simp add: ends_token_def newline_indent_def num_char_def is_digit_def)

lemma ends_token_comma [simp]: "ends_token (CHR '','' # s)"
  by (simp add: ends_token_def num_char_def is_digit_def)

lemma not_ws [simp]:
  "\<not> is_ws (CHR 0x22)" "\<not> is_ws (CHR ''['')" "\<not> is_ws (CHR ''{'')" "\<not> is_ws (CHR '']'')" "\<not> is_ws (CHR ''}'')"
  "\<not> is_ws (CHR '','')" "\<not> is_ws (CHR '':'')" "\<not> is_ws (CHR ''n'')" "\<not> is_ws (CHR ''t'')" "\<not> is_ws (CHR ''f'')"
  by (simp_all add: is_ws_def)

lemma num_char_not_ws: "num_char c \<Longrightarrow> \<not> is_ws c"
  by (auto simp: num_char_def is_ws_def is_digit_def)

lemma take_while_token:
  assumes "list_all num_char n" and "ends_token rest"
  shows "takeWhile num_char (n @ rest) = n" and "dropWhile num_char (n @ rest) = rest"
proof -
  have "takeWhile num_char rest = []" "dropWhile num_char rest = rest"
    using assms(2) by (cases rest; simp add: ends_token_def)+
  moreover have "\<forall>x\<in>set n. num_char x" using assms(1) by (simp add: list_all_iff)
  ultimately show "takeWhile num_char (n @ rest) = n" "dropWhile num_char (n @ rest) = rest"
    by (simp_all add: takeWhile_append dropWhile_append)
qed

lemma parse_value_number:
  assumes "valid_number m" and "list_all num_char m" and "ends_token rest" and "list_all is_ws ws"
  shows "parse_value (Suc n) (ws @ m @ rest) = Some (JNum m, rest)"
proof -
  obtain c cs where m: "m = c # cs" using assms(1) by (cases m) (simp_all add: valid_number_def)
  have c: "num_char c" using assms(2) m by simp
  have s: "skip_ws (ws @ m @ rest) = c # cs @ rest"
    using skip_ws_append [OF assms(4)] skip_ws_Cons [OF num_char_not_ws [OF c]] m by simp
  have ne: "c \<noteq> CHR 0x22" "c \<noteq> CHR ''[''" "c \<noteq> CHR ''{''" "c \<noteq> CHR ''n''" "c \<noteq> CHR ''t''" "c \<noteq> CHR ''f''"
    using c by (auto simp: num_char_def is_digit_def)
  have t: "takeWhile num_char (c # cs @ rest) = m" "dropWhile num_char (c # cs @ rest) = rest"
    using take_while_token [OF assms(2,3)] m by simp_all
  show ?thesis
    unfolding parse_value.simps s list.case t using ne assms(1) by (simp add: Let_def)
qed

lemma json_print_head:
  assumes "json_ok v"
  shows "\<exists>c cs. json_print i v = c # cs \<and> \<not> is_ws c \<and> c \<noteq> CHR '']''"
proof (cases v)
  case (JNum m)
  then obtain c cs where m: "m = c # cs" using assms by (cases m) (simp_all add: valid_number_def)
  have "num_char c" using assms JNum m by simp
  moreover from this have "c \<noteq> CHR '']''" by (auto simp: num_char_def is_digit_def)
  ultimately show ?thesis using JNum m num_char_not_ws by simp
qed (auto simp: json_quote_def split: if_splits)

lemma json_print_parse:
  "json_ok v \<Longrightarrow> (\<And>n ws rest. value_fuel v \<le> n \<Longrightarrow> list_all is_ws ws \<Longrightarrow> ends_token rest \<Longrightarrow>
      parse_value n (ws @ json_print i v @ rest) = Some (v, rest))"
  "\<forall>v\<in>set vs. json_ok v \<Longrightarrow> vs \<noteq> [] \<Longrightarrow> (\<And>n k rest. elems_fuel vs \<le> n \<Longrightarrow>
      parse_elems n (print_elems i vs @ newline_indent k @ '']'' @ rest) = Some (vs, rest))"
  "\<forall>kv\<in>set ms. json_ok (snd kv) \<Longrightarrow> ms \<noteq> [] \<Longrightarrow> (\<And>n k rest. members_fuel ms \<le> n \<Longrightarrow>
      parse_members n (print_members i ms @ newline_indent k @ ''}'' @ rest) = Some (ms, rest))"
proof (induction i v and i vs and i ms rule: json_print_print_elems_print_members.induct)
  case (1 i)
  then show ?case by (cases n) (simp_all add: skip_ws_append skip_ws_Cons)
next
  case (2 i b)
  then show ?case by (cases n) (auto simp: skip_ws_append skip_ws_Cons)
next
  case (3 i m)
  then show ?case using parse_value_number [of m rest ws] by (cases n) (simp_all del: parse_value.simps)
next
  case (4 i s)
  then show ?case
    using parse_quoted [of "[]" s] by (cases n) (simp_all add: skip_ws_append skip_ws_Cons json_quote_def)
next
  case (5 i vs)
  then obtain m where n: "n = Suc m" "elems_fuel vs \<le> m" by (cases n) auto
  show ?case
  proof (cases vs)
    case Nil
    then show ?thesis using 5 n by (simp add: skip_ws_append skip_ws_Cons)
  next
    case (Cons v vs')
    then have "vs \<noteq> []" by simp
    have "json_ok v" using "5.prems"(1) Cons by simp
    then obtain c cs where c: "json_print (Suc i) v = c # cs" "\<not> is_ws c" "c \<noteq> CHR '']''"
      using json_print_head [of v "Suc i"] by blast
    have el: "parse_elems m (print_elems (Suc i) vs @ newline_indent i @ CHR '']'' # rest) = Some (vs, rest)"
      using "5.IH" "5.prems"(1) Cons n(2) by simp
    have sk: "skip_ws (print_elems (Suc i) vs @ s) = c # tl (skip_ws (print_elems (Suc i) vs @ s))" for s
      using c by (simp add: Cons skip_ws_append skip_ws_Cons)
    let ?x = "print_elems (Suc i) vs @ newline_indent i @ CHR '']'' # rest"
    have "parse_value n (ws @ json_print i (JArr vs) @ rest) =
        (case skip_ws ?x of [] \<Rightarrow> None
         | d # r \<Rightarrow> if d = CHR '']'' then Some (JArr [], r)
             else map_option (\<lambda>(vs, r). (JArr vs, r)) (parse_elems m ?x))"
      using "5.prems"(3) \<open>vs \<noteq> []\<close> by (simp add: n(1) skip_ws_append skip_ws_Cons)
    also have "\<dots> = Some (JArr vs, rest)"
      by (subst sk) (simp add: el c(3))
    finally show ?thesis .
  qed
next
  case (6 i ms)
  then obtain m where n: "n = Suc m" "members_fuel ms \<le> m" by (cases n) auto
  show ?case
  proof (cases ms)
    case Nil
    then show ?thesis using 6 n by (simp add: skip_ws_append skip_ws_Cons)
  next
    case (Cons kv ms')
    then have "ms \<noteq> []" by simp
    have el: "parse_members m (print_members (Suc i) ms @ newline_indent i @ CHR ''}'' # rest) = Some (ms, rest)"
      using "6.IH" "6.prems"(1) Cons n(2) by simp
    have sk: "skip_ws (print_members (Suc i) ms @ s) = CHR 0x22 # tl (skip_ws (print_members (Suc i) ms @ s))" for s
      by (cases kv) (simp add: Cons skip_ws_append skip_ws_Cons json_quote_def)
    let ?x = "print_members (Suc i) ms @ newline_indent i @ CHR ''}'' # rest"
    have "parse_value n (ws @ json_print i (JObj ms) @ rest) =
        (case skip_ws ?x of [] \<Rightarrow> None
         | d # r \<Rightarrow> if d = CHR ''}'' then Some (JObj [], r)
             else map_option (\<lambda>(ms, r). (JObj ms, r)) (parse_members m ?x))"
      using "6.prems"(3) \<open>ms \<noteq> []\<close> by (simp add: n(1) skip_ws_append skip_ws_Cons)
    also have "\<dots> = Some (JObj ms, rest)"
      by (subst sk) (simp add: el)
    finally show ?thesis .
  qed
next
  case (8 i v vs)
  then obtain m where n: "n = Suc m" "value_fuel v \<le> m" "elems_fuel vs \<le> m" by (cases n) auto
  have v: "parse_value m (newline_indent i @ json_print i v @ r) = Some (v, r)" if "ends_token r" for r
    using "8.IH"(1) "8.prems"(1) n(2) that by simp
  show ?case
  proof (cases "vs = []")
    case True
    then show ?thesis using v [of "newline_indent k @ '']'' @ rest"] by (simp add: n(1) skip_ws_append skip_ws_Cons)
  next
    case False
    have "parse_elems m (print_elems i vs @ newline_indent k @ '']'' @ rest) = Some (vs, rest)"
      using "8.IH"(2) "8.prems"(1) n(3) False by simp
    then show ?thesis
      using v [of "'','' @ print_elems i vs @ newline_indent k @ '']'' @ rest"] False
      by (simp add: n(1) skip_ws_append skip_ws_Cons)
  qed
next
  case (10 i k' v ms)
  then obtain m where n: "n = Suc m" "value_fuel v \<le> m" "members_fuel ms \<le> m" by (cases n) auto
  have v: "parse_value m ('' '' @ json_print i v @ r) = Some (v, r)" if "ends_token r" for r
    using "10.IH"(1) [OF _ n(2) _ that, of "'' ''"] "10.prems"(1) by (simp add: is_ws_def)
  have key: "parse_members n (newline_indent i @ json_quote k' @ '': '' @ json_print i v @ r) =
      (case skip_ws r of [] \<Rightarrow> None
       | d # r \<Rightarrow> if d = CHR ''}'' then Some ([(k', v)], r)
           else if d = CHR '','' then map_option (\<lambda>(ms, r). ((k', v) # ms, r)) (parse_members m r) else None)"
    if "ends_token r" for r
    using v [OF that] parse_quoted [of "[]" k' "CHR '':'' # CHR '' '' # json_print i v @ r"]
    by (simp add: n(1) skip_ws_append skip_ws_Cons json_quote_def)
  show ?case
  proof (cases "ms = []")
    case True
    then show ?thesis using key [of "newline_indent k @ ''}'' @ rest"] by (simp add: skip_ws_append skip_ws_Cons)
  next
    case False
    have "parse_members m (print_members i ms @ newline_indent k @ ''}'' @ rest) = Some (ms, rest)"
      using "10.IH"(2) "10.prems"(1) n(3) False by simp
    then show ?thesis
      using key [of "'','' @ print_members i ms @ newline_indent k @ ''}'' @ rest"] False
      by (simp add: skip_ws_append skip_ws_Cons)
  qed
qed simp_all

lemma fuel_bound:
  "json_ok v \<Longrightarrow> value_fuel v \<le> length (json_print i v)"
  "\<forall>v\<in>set vs. json_ok v \<Longrightarrow> elems_fuel vs \<le> length (print_elems i vs)"
  "\<forall>kv\<in>set ms. json_ok (snd kv) \<Longrightarrow> members_fuel ms \<le> length (print_members i ms)"
proof (induction i v and i vs and i ms rule: json_print_print_elems_print_members.induct)
  case (3 i m)
  then show ?case by (cases m) (simp_all add: valid_number_def)
qed (auto simp: json_quote_def newline_indent_def)

theorem json_roundtrip:
  assumes "json_ok v"
  shows "json_parse (json_print i v) = Some v"
proof -
  have "parse_value (Suc (2 * length (json_print i v))) ([] @ json_print i v @ []) = Some (v, [])"
    using fuel_bound(1) [OF assms, of i] by (intro json_print_parse(1) [OF assms]) (simp_all add: ends_token_def)
  then show ?thesis by (simp add: json_parse_def skip_ws_def)
qed

end
