(* ===== verification/Manifest.thy ===== *)
theory Manifest
  imports Go_Json Go_Os
begin

text \<open>
  Package \<^verbatim>\<open>internal/manifest\<close>: the list of segments and the log offset from which recovery
  starts, kept in memory and saved as JSON by writing a temporary file and renaming it.  The lemmas
  show that what a successful operation saved is what \<^verbatim>\<open>Load\<close> finds, and that a failed one leaves
  the saved manifest as it was.
\<close>

record SegmentEntry =
  Path :: string
  BlockStart :: i64
  BlockEnd :: i64
  SeriesCount :: i64
  Size :: i64

record manifest =
  man_path :: string
  Segments :: "SegmentEntry list"
  WALOffset :: i64

definition man_New :: "string \<Rightarrow> manifest" where
  "man_New path = \<lparr>man_path = path, Segments = [], WALOffset = 0\<rparr>"

subsection \<open>JSON\<close>

definition json_int :: "i64 \<Rightarrow> json" where
  "json_int x = JNum (int_str (sint x))"

definition json_entry :: "SegmentEntry \<Rightarrow> json" where
  "json_entry e = JObj [(''path'', JStr (Path e)), (''block_start'', json_int (BlockStart e)),
     (''block_end'', json_int (BlockEnd e)), (''series_count'', json_int (SeriesCount e)), (''size'', json_int (Size e))]"

definition json_manifest :: "manifest \<Rightarrow> json" where
  "json_manifest m = JObj [(''segments'', JArr (map json_entry (Segments m))), (''wal_offset'', json_int (WALOffset m))]"

text \<open>
  Decoding into a struct: members in order, keys matched without regard to case, unknown keys passed
  over, \<^verbatim>\<open>null\<close> leaving a field as it is, a value of another kind or range an error.
\<close>

definition lower :: "string \<Rightarrow> string" where
  "lower s = map (\<lambda>c. let n = of_char c :: nat in if 65 \<le> n \<and> n \<le> 90 then char_of (n + 32) else c) s"

definition decode_int :: "json \<Rightarrow> i64 \<Rightarrow> i64 res" where
  "decode_int v old =
     (case v of
        JNum s \<Rightarrow> (case parse_int64 s of Some i \<Rightarrow> Inr (word_of_int i) | None \<Rightarrow> Inl ErrCorrupt)
      | JNull \<Rightarrow> Inr old
      | _ \<Rightarrow> Inl ErrCorrupt)"

definition decode_str :: "json \<Rightarrow> string \<Rightarrow> string res" where
  "decode_str v old = (case v of JStr s \<Rightarrow> Inr s | JNull \<Rightarrow> Inr old | _ \<Rightarrow> Inl ErrCorrupt)"

fun entry_members :: "SegmentEntry \<Rightarrow> (string \<times> json) list \<Rightarrow> SegmentEntry res" where
  "entry_members e [] = Inr e"
| "entry_members e ((k, v) # ms) =
     (let k = lower k in
      if k = ''path'' then res_bind (decode_str v (Path e)) (\<lambda>x. entry_members (e\<lparr>Path := x\<rparr>) ms)
      else if k = ''block_start'' then res_bind (decode_int v (BlockStart e)) (\<lambda>x. entry_members (e\<lparr>BlockStart := x\<rparr>) ms)
      else if k = ''block_end'' then res_bind (decode_int v (BlockEnd e)) (\<lambda>x. entry_members (e\<lparr>BlockEnd := x\<rparr>) ms)
      else if k = ''series_count'' then res_bind (decode_int v (SeriesCount e)) (\<lambda>x. entry_members (e\<lparr>SeriesCount := x\<rparr>) ms)
      else if k = ''size'' then res_bind (decode_int v (Size e)) (\<lambda>x. entry_members (e\<lparr>Size := x\<rparr>) ms)
      else entry_members e ms)"

definition zero_entry :: SegmentEntry where
  "zero_entry = \<lparr>Path = [], BlockStart = 0, BlockEnd = 0, SeriesCount = 0, Size = 0\<rparr>"

definition decode_entry :: "json \<Rightarrow> SegmentEntry res" where
  "decode_entry v =
     (case v of JObj ms \<Rightarrow> entry_members zero_entry ms | JNull \<Rightarrow> Inr zero_entry | _ \<Rightarrow> Inl ErrCorrupt)"

fun decode_entries :: "json list \<Rightarrow> SegmentEntry list res" where
  "decode_entries [] = Inr []"
| "decode_entries (v # vs) =
     res_bind (decode_entry v) (\<lambda>e. res_bind (decode_entries vs) (\<lambda>es. Inr (e # es)))"

text \<open>\<^verbatim>\<open>null\<close> for the segments gives a nil slice, which \<^verbatim>\<open>Load\<close> then replaces by an empty one.\<close>

fun manifest_members :: "manifest \<Rightarrow> (string \<times> json) list \<Rightarrow> manifest res" where
  "manifest_members m [] = Inr m"
| "manifest_members m ((k, v) # ms) =
     (let k = lower k in
      if k = ''segments'' then
        res_bind (case v of JArr vs \<Rightarrow> decode_entries vs | JNull \<Rightarrow> Inr [] | _ \<Rightarrow> Inl ErrCorrupt)
          (\<lambda>es. manifest_members (m\<lparr>Segments := es\<rparr>) ms)
      else if k = ''wal_offset'' then
        res_bind (decode_int v (WALOffset m)) (\<lambda>x. manifest_members (m\<lparr>WALOffset := x\<rparr>) ms)
      else manifest_members m ms)"

definition man_Unmarshal :: "string \<Rightarrow> manifest \<Rightarrow> manifest res" where
  "man_Unmarshal text m =
     (case json_parse text of
        None \<Rightarrow> Inl ErrCorrupt
      | Some v \<Rightarrow> (case v of JObj ms \<Rightarrow> manifest_members m ms | JNull \<Rightarrow> Inr m | _ \<Rightarrow> Inl ErrCorrupt))"

text \<open>The text as bytes and back.\<close>

definition to_bytes :: "string \<Rightarrow> byte list" where
  "to_bytes s = map (\<lambda>c. word_of_nat (of_char c)) s"

definition of_bytes :: "byte list \<Rightarrow> string" where
  "of_bytes b = map (\<lambda>w. char_of (unat w)) b"

definition man_Marshal :: "manifest \<Rightarrow> byte list" where
  "man_Marshal m = to_bytes (json_print 0 (json_manifest m))"

subsection \<open>Operations\<close>

definition man_Load :: "string \<Rightarrow> os_state \<Rightarrow> manifest res" where
  "man_Load path st =
     (case os_ReadFile path st of
        Inl e \<Rightarrow> if e = ErrNotExist then Inr (man_New path) else Inl e
      | Inr d \<Rightarrow> man_Unmarshal (of_bytes d) (man_New path))"

definition man_tmpPath :: "string \<Rightarrow> string" where
  "man_tmpPath path = filepath_Join (filepath_Dir path) ''.manifest.tmp''"

text \<open>\<^verbatim>\<open>MarshalIndent\<close> does not fail on these types.\<close>

definition man_save :: "manifest \<Rightarrow> os_state \<Rightarrow> go_error option \<times> os_state" where
  "man_save m st =
     (let tmpPath = man_tmpPath (man_path m) in
      case os_WriteFile tmpPath (man_Marshal m) st of
        (Some e, st) \<Rightarrow> (Some e, st)
      | (None, st) \<Rightarrow> os_Rename tmpPath (man_path m) st)"

definition man_Add :: "SegmentEntry \<Rightarrow> manifest \<Rightarrow> os_state \<Rightarrow> go_error option \<times> manifest \<times> os_state" where
  "man_Add entry m st =
     (let m = m\<lparr>Segments := Segments m @ [entry]\<rparr> in
      case man_save m st of (e, st) \<Rightarrow> (e, m, st))"

definition man_RemoveBatch :: "string list \<Rightarrow> manifest \<Rightarrow> os_state \<Rightarrow> go_error option \<times> manifest \<times> os_state" where
  "man_RemoveBatch paths m st =
     (let m = m\<lparr>Segments := filter (\<lambda>s. Path s \<notin> set paths) (Segments m)\<rparr> in
      case man_save m st of (e, st) \<Rightarrow> (e, m, st))"

definition man_Remove :: "string \<Rightarrow> manifest \<Rightarrow> os_state \<Rightarrow> go_error option \<times> manifest \<times> os_state" where
  "man_Remove path m st = man_RemoveBatch [path] m st"

definition man_SetWALOffset :: "i64 \<Rightarrow> manifest \<Rightarrow> os_state \<Rightarrow> go_error option \<times> manifest \<times> os_state" where
  "man_SetWALOffset offset m st =
     (let m = m\<lparr>WALOffset := offset\<rparr> in
      case man_save m st of (e, st) \<Rightarrow> (e, m, st))"

definition man_GetWALOffset :: "manifest \<Rightarrow> i64" where
  "man_GetWALOffset m = WALOffset m"

definition man_List :: "manifest \<Rightarrow> SegmentEntry list" where
  "man_List m = Segments m"

definition man_NumSegments :: "manifest \<Rightarrow> nat" where
  "man_NumSegments m = length (Segments m)"

subsection \<open>What was saved is loaded\<close>

lemma of_to_bytes [simp]: "of_bytes (to_bytes s) = s"
proof -
  have "char_of (unat (word_of_nat (of_char c) :: byte)) = c" for c
    by (simp add: unat_of_nat)
  then show ?thesis by (induction s) (simp_all add: of_bytes_def to_bytes_def)
qed

lemma json_int_ok [simp]: "json_ok (json_int x)"
  by (simp add: json_int_def valid_int_str int_str_num_chars)

lemma decode_json_int [simp]: "decode_int (json_int x) old = Inr x"
proof -
  have "- (2 ^ 63) \<le> sint x" "sint x < 2 ^ 63" using sint_lt [of x] sint_ge [of x] by simp_all
  from parse_int_str [OF this] show ?thesis by (simp add: decode_int_def json_int_def)
qed

lemma json_manifest_ok: "json_ok (json_manifest m)"
  by (simp add: json_manifest_def json_entry_def)

lemma lower_keys [simp]:
  "lower ''path'' = ''path''" "lower ''block_start'' = ''block_start''" "lower ''block_end'' = ''block_end''"
  "lower ''series_count'' = ''series_count''" "lower ''size'' = ''size''" "lower ''segments'' = ''segments''"
  "lower ''wal_offset'' = ''wal_offset''"
  by code_simp+

lemma decode_json_entry [simp]: "decode_entry (json_entry e) = Inr e"
  by (simp add: decode_entry_def json_entry_def decode_str_def zero_entry_def Let_def)

lemma decode_json_entries [simp]: "decode_entries (map json_entry es) = Inr es"
  by (induction es) simp_all

lemma man_Unmarshal_Marshal:
  "man_Unmarshal (of_bytes (man_Marshal m)) (man_New (man_path m)) = Inr m"
  unfolding man_Unmarshal_def man_Marshal_def of_to_bytes json_roundtrip [OF json_manifest_ok]
  by (simp add: json_manifest_def man_New_def Let_def)

lemma man_save_ok:
  assumes "man_save m st = (None, st')"
  shows "man_Load (man_path m) st' = Inr m"
proof -
  let ?t = "man_tmpPath (man_path m)"
  obtain st1 where w: "os_WriteFile ?t (man_Marshal m) st = (None, st1)"
    and r: "os_Rename ?t (man_path m) st1 = (None, st')"
    using assms by (auto simp: man_save_def Let_def split: prod.splits option.splits)
  have "o_files st1 ?t = Some (man_Marshal m)"
    using w by (auto simp: os_WriteFile_def os_Create_def split: if_splits prod.splits dest: os_Write_ok)
  then have "o_files st' (man_path m) = Some (man_Marshal m)" "\<not> o_denied st' (man_path m)"
    using r by (auto simp: os_Rename_def split: if_splits option.splits)
  then show ?thesis by (simp add: man_Load_def os_ReadFile_def man_Unmarshal_Marshal)
qed

lemma os_WriteFile_other:
  assumes "os_WriteFile path' p st = (e, st')" and "path \<noteq> path'"
  shows "o_files st' path = o_files st path \<and> o_denied st' = o_denied st"
  using assms by (auto simp: os_WriteFile_def os_Create_def os_Write_def Let_def split: if_splits)

text \<open>A failed save reaches at most the temporary file.\<close>

lemma man_save_failed:
  assumes "man_save m st = (Some e, st')" and "path \<noteq> man_tmpPath (man_path m)"
  shows "o_files st' path = o_files st path \<and> o_denied st' = o_denied st"
proof -
  let ?t = "man_tmpPath (man_path m)"
  obtain e1 st1 where w: "os_WriteFile ?t (man_Marshal m) st = (e1, st1)" by (metis prod.collapse)
  note same = os_WriteFile_other [OF w assms(2)]
  have "st' = st1"
    using assms(1) w by (cases e1) (auto simp: man_save_def Let_def os_Rename_def split: if_splits option.splits)
  then show ?thesis using same by simp
qed

lemma man_Load_cong: "o_files st' path = o_files st path \<Longrightarrow> o_denied st' = o_denied st \<Longrightarrow> man_Load path st' = man_Load path st"
  by (simp add: man_Load_def os_ReadFile_def)

text \<open>The operations that change a manifest, each under the room the device has at that moment.\<close>

datatype man_op = OpAdd SegmentEntry | OpRemove "string list" | OpOffset i64

fun man_apply :: "man_op \<Rightarrow> manifest \<Rightarrow> os_state \<Rightarrow> go_error option \<times> manifest \<times> os_state" where
  "man_apply (OpAdd e) m st = man_Add e m st"
| "man_apply (OpRemove ps) m st = man_RemoveBatch ps m st"
| "man_apply (OpOffset off) m st = man_SetWALOffset off m st"

text \<open>A history: the manifest in memory, the files, and the manifest as of the last operation that succeeded.\<close>

fun man_history :: "(man_op \<times> nat) list \<Rightarrow> manifest \<Rightarrow> os_state \<Rightarrow> manifest \<Rightarrow> manifest \<times> os_state \<times> manifest" where
  "man_history [] m st saved = (m, st, saved)"
| "man_history ((op, room) # ops) m st saved =
     (case man_apply op m (st\<lparr>o_free := room\<rparr>) of
        (None, m, st) \<Rightarrow> man_history ops m st m
      | (Some e, m, st) \<Rightarrow> man_history ops m st saved)"

fun man_edit :: "man_op \<Rightarrow> manifest \<Rightarrow> manifest" where
  "man_edit (OpAdd e) m = m\<lparr>Segments := Segments m @ [e]\<rparr>"
| "man_edit (OpRemove ps) m = m\<lparr>Segments := filter (\<lambda>s. Path s \<notin> set ps) (Segments m)\<rparr>"
| "man_edit (OpOffset off) m = m\<lparr>WALOffset := off\<rparr>"

lemma man_apply_save:
  "man_apply op m st = (case man_save (man_edit op m) st of (e, st') \<Rightarrow> (e, man_edit op m, st'))"
  by (cases op) (simp_all add: man_Add_def man_RemoveBatch_def man_SetWALOffset_def Let_def)

lemma man_path_edit [simp]: "man_path (man_edit op m) = man_path m"
  by (cases op) simp_all

text \<open>
  C11: whatever operations are applied to a manifest, and wherever the device fills up, the file that
  \<^verbatim>\<open>Load\<close> reads holds the manifest as of the last operation that returned no error: never a torn
  one, never an unsaved one.
\<close>

theorem manifest_crash_safe:
  assumes "man_Load (man_path m) st = Inr saved" and "man_tmpPath (man_path m) \<noteq> man_path m"
  shows "case man_history ops m st saved of (m', st', saved') \<Rightarrow> man_Load (man_path m) st' = Inr saved'"
  using assms
proof (induction ops arbitrary: m st saved)
  case Nil
  then show ?case by simp
next
  case (Cons x ops)
  obtain op room where x: "x = (op, room)" by (metis prod.collapse)
  let ?st = "st\<lparr>o_free := room\<rparr>"
  let ?m = "man_edit op m"
  obtain e st' where save: "man_save ?m ?st = (e, st')" by (metis prod.collapse)
  show ?case
  proof (cases e)
    case None
    then have "man_Load (man_path ?m) st' = Inr ?m" using save man_save_ok [of ?m ?st st'] by simp
    then show ?thesis using Cons.IH [of ?m st' ?m] Cons.prems x save None by (simp add: man_apply_save)
  next
    case (Some err)
    then have "o_files st' (man_path m) = o_files ?st (man_path m) \<and> o_denied st' = o_denied ?st"
      using man_save_failed [of ?m ?st err st' "man_path m"] save Cons.prems(2) by simp
    then have "man_Load (man_path m) st' = Inr saved"
      using Cons.prems(1) man_Load_cong [of st' "man_path m" st] by simp
    then show ?thesis using Cons.IH [of ?m st' saved] Cons.prems x save Some by (simp add: man_apply_save)
  qed
qed

definition ex_entry :: SegmentEntry where
  "ex_entry = \<lparr>Path = ''d/a.seg'', BlockStart = -5, BlockEnd = 70, SeriesCount = 2, Size = 0\<rparr>"

definition ex_files :: os_state where
  "ex_files = \<lparr>o_files = (\<lambda>_. None), o_free = 0, o_denied = (\<lambda>_. False)\<rparr>"

lemma manifest_crash_safe_witness:
  "man_Load ''d/m.json'' (fst (snd (man_history [(OpAdd ex_entry, 1000), (OpOffset 9, 5)] (man_New ''d/m.json'') ex_files (man_New ''d/m.json''))))
    = Inr ((man_New ''d/m.json'')\<lparr>Segments := [ex_entry]\<rparr>)"
proof -
  let ?m = "man_New ''d/m.json''" and ?ops = "[(OpAdd ex_entry, 1000), (OpOffset 9, 5)]"
  have load: "man_Load (man_path ?m) ex_files = Inr ?m"
    by (simp add: man_Load_def os_ReadFile_def ex_files_def man_New_def)
  have tmp: "man_tmpPath (man_path ?m) \<noteq> man_path ?m" by code_simp
  have "snd (snd (man_history ?ops ?m ex_files ?m)) = ?m\<lparr>Segments := [ex_entry]\<rparr>" by code_simp
  then show ?thesis
    using manifest_crash_safe [OF load tmp, of ?ops] by (auto simp: man_New_def split: prod.splits)
qed

end
