(* ===== verification/Compaction.thy ===== *)
theory Compaction
  imports Query Manifest
begin

text \<open>
  Package \<^verbatim>\<open>internal/compaction\<close>: the choice of segments to merge and the merge of their series into
  one new segment.  Arguments stand for what Go leaves open: \<open>srt\<close>, \<open>srtPts\<close> and \<open>srtIds\<close> are
  \<^verbatim>\<open>sort.Slice\<close> by the given key, \<open>rng\<close> is the order in which a map is visited.  The lemmas show that
  the new segment holds exactly the points of the old ones, ordered by time.
\<close>

record Compactor =
  cp_dataDir :: string
  cp_segPath :: string

definition cp_New :: "string \<Rightarrow> Compactor" where
  "cp_New dataDir = \<lparr>cp_dataDir = dataDir, cp_segPath = filepath_Join dataDir ''segments''\<rparr>"

definition SelectCandidates :: "(SegmentEntry list \<Rightarrow> SegmentEntry list) \<Rightarrow> SegmentEntry list \<Rightarrow> int \<Rightarrow> SegmentEntry list" where
  "SelectCandidates srt entries maxCount =
     (if length entries \<le> 1 \<or> maxCount \<le> 1 then []
      else
        let sorted = srt entries;
            maxCount = (if maxCount > int (length sorted) then int (length sorted) else maxCount)
        in if maxCount < 2 then [] else take (nat maxCount) sorted)"

text \<open>The loop over the points of a series, for the block range.\<close>

fun point_range :: "i64 \<Rightarrow> i64 \<Rightarrow> point list \<Rightarrow> i64 \<times> i64" where
  "point_range blockStart blockEnd [] = (blockStart, blockEnd)"
| "point_range blockStart blockEnd (p # ps) =
     point_range (if sint (Timestamp p) < sint blockStart then Timestamp p else blockStart)
       (if sint (Timestamp p) > sint blockEnd then Timestamp p else blockEnd) ps"

type_synonym merged = "(u64, point list) gomap"

text \<open>The loop over the series of one segment.\<close>

fun merge_all :: "merged \<Rightarrow> i64 \<Rightarrow> i64 \<Rightarrow> merged \<Rightarrow> merged \<times> i64 \<times> i64" where
  "merge_all merged blockStart blockEnd [] = (merged, blockStart, blockEnd)"
| "merge_all merged blockStart blockEnd ((sid, pts) # all) =
     (case point_range blockStart blockEnd pts of (blockStart, blockEnd) \<Rightarrow>
        merge_all (store merged sid ((case lookup merged sid of None \<Rightarrow> [] | Some ps \<Rightarrow> ps) @ pts))
          blockStart blockEnd all)"

fun compact_read :: "(merged \<Rightarrow> merged) \<Rightarrow> os_state \<Rightarrow> SegmentEntry list \<Rightarrow> merged \<times> i64 \<times> i64 \<Rightarrow> (merged \<times> i64 \<times> i64) res" where
  "compact_read rng st [] acc = Inr acc"
| "compact_read rng st (entry # es) acc =
     res_bind (OpenReader (Path entry) st) (\<lambda>r.
     res_bind (ReadAll r) (\<lambda>all.
       case acc of (merged, blockStart, blockEnd) \<Rightarrow>
         compact_read rng st es (merge_all merged blockStart blockEnd (rng all))))"

definition Compact :: "(point list \<Rightarrow> point list) \<Rightarrow> (SeriesPoints list \<Rightarrow> SeriesPoints list) \<Rightarrow> (merged \<Rightarrow> merged) \<Rightarrow>
    SegmentEntry list \<Rightarrow> string \<Rightarrow> os_state \<Rightarrow> SegmentEntry res \<times> os_state" where
  "Compact srtPts srtIds rng candidates outputPath st =
     (if candidates = [] then (Inl ErrNoCandidates, st)
      else case compact_read rng st candidates ([], MaxInt64, MinInt64) of
        Inl e \<Rightarrow> (Inl e, st)
      | Inr (merged, blockStart, blockEnd) \<Rightarrow>
          let seriesList = map (\<lambda>(sid, pts). \<lparr>SeriesID = sid, Points = srtPts pts\<rparr>) (rng merged) in
          case seg_NewWriter outputPath st of
            (Inl e, st) \<Rightarrow> (Inl e, st)
          | (Inr w, st) \<Rightarrow>
              (case seg_Write srtIds w seriesList blockStart blockEnd st of
                 (Some e, w, st) \<Rightarrow> (Inl e, snd (os_Remove outputPath st))
               | (None, w, st) \<Rightarrow>
                   (Inr \<lparr>Path = outputPath, BlockStart = blockStart, BlockEnd = blockEnd,
                         SeriesCount = of_nat (length seriesList), Size = 0\<rparr>, st)))"

definition compacted_name :: "nat \<Rightarrow> string" where
  "compacted_name n = ''compacted-'' @ nat_str n @ ''.seg''"

definition CompactCandidates :: "(SegmentEntry list \<Rightarrow> SegmentEntry list) \<Rightarrow> (point list \<Rightarrow> point list) \<Rightarrow>
    (SeriesPoints list \<Rightarrow> SeriesPoints list) \<Rightarrow> (merged \<Rightarrow> merged) \<Rightarrow> Compactor \<Rightarrow> SegmentEntry list \<Rightarrow> int \<Rightarrow> os_state \<Rightarrow>
    (SegmentEntry option \<times> SegmentEntry list) res \<times> os_state" where
  "CompactCandidates srt srtPts srtIds rng c entries maxCount st =
     (let candidates = SelectCandidates srt entries maxCount in
      if candidates = [] then (Inr (None, []), st)
      else
        case Compact srtPts srtIds rng candidates (filepath_Join (cp_dataDir c) (compacted_name (length candidates))) st of
          (Inl e, st) \<Rightarrow> (Inl e, st)
        | (Inr entry, st) \<Rightarrow> (Inr (Some entry, candidates), st))"

subsection \<open>Selection\<close>

text \<open>
  The candidates are as many as asked for, or all if there are fewer, taken from the segments
  without repetition, and none that is left has fewer series than one that is taken; with fewer than
  two segments, or fewer than two asked for, there are none.
\<close>

theorem compaction_selects_smallest:
  assumes "slice_sorter srt (sint \<circ> SeriesCount)"
  shows "let sel = SelectCandidates srt entries n in
    (length entries \<le> 1 \<or> n \<le> 1 \<longrightarrow> sel = []) \<and>
    (length entries > 1 \<and> n > 1 \<longrightarrow>
      int (length sel) = min n (int (length entries)) \<and>
      (\<exists>rest. mset entries = mset sel + mset rest \<and>
        (\<forall>e\<in>set sel. \<forall>e'\<in>set rest. sint (SeriesCount e) \<le> sint (SeriesCount e'))))"
proof -
  note mset = slice_sorter.mset_srt [OF assms] and sorted = slice_sorter.sorted_srt [OF assms]
    and len = slice_sorter.length_srt [OF assms]
  let ?k = "nat (min n (int (length entries)))"
  have sel: "SelectCandidates srt entries n = take ?k (srt entries)" if "length entries > 1" "n > 1"
    using that by (auto simp: SelectCandidates_def Let_def len min_def)
  have "mset entries = mset (take ?k (srt entries)) + mset (drop ?k (srt entries))"
    using mset [of entries] by (metis append_take_drop_id mset_append)
  moreover have "\<forall>e\<in>set (take ?k (srt entries)). \<forall>e'\<in>set (drop ?k (srt entries)). sint (SeriesCount e) \<le> sint (SeriesCount e')"
  proof -
    have "sorted (map (sint \<circ> SeriesCount) (take ?k (srt entries) @ drop ?k (srt entries)))"
      unfolding append_take_drop_id by (rule sorted)
    then show ?thesis by (simp only: map_append sorted_append set_map) (simp add: ball_simps)
  qed
  ultimately show ?thesis
    using sel by (auto simp: Let_def len SelectCandidates_def)
qed

lemma compaction_selects_smallest_witness:
  "SelectCandidates (insertionSort (sint \<circ> SeriesCount)) [ex_entry, ex_entry\<lparr>SeriesCount := 1\<rparr>, ex_entry\<lparr>SeriesCount := 9\<rparr>] 2
    = [ex_entry\<lparr>SeriesCount := 1\<rparr>, ex_entry] \<and>
   length (SelectCandidates (insertionSort (sint \<circ> SeriesCount)) [ex_entry, ex_entry\<lparr>SeriesCount := 1\<rparr>, ex_entry\<lparr>SeriesCount := 9\<rparr>] 2) = 2"
proof -
  have "SelectCandidates (insertionSort (sint \<circ> SeriesCount)) [ex_entry, ex_entry\<lparr>SeriesCount := 1\<rparr>, ex_entry\<lparr>SeriesCount := 9\<rparr>] 2
    = [ex_entry\<lparr>SeriesCount := 1\<rparr>, ex_entry]" by code_simp
  then show ?thesis
    using compaction_selects_smallest [OF insertionSort_sorter, of "[ex_entry, ex_entry\<lparr>SeriesCount := 1\<rparr>, ex_entry\<lparr>SeriesCount := 9\<rparr>]" 2]
    by (simp add: Let_def)
qed

subsection \<open>What is read from the old segments\<close>

definition pts_of :: "merged \<Rightarrow> u64 \<Rightarrow> point list" where
  "pts_of m sid = (case lookup m sid of None \<Rightarrow> [] | Some ps \<Rightarrow> ps)"

lemma pts_of_store [simp]: "pts_of (store m k v) sid = (if sid = k then v else pts_of m sid)"
  by (simp add: pts_of_def)

lemma pts_of_Nil [simp]: "pts_of [] sid = []"
  by (simp add: pts_of_def)

lemma ReadSeries_not_in_index:
  assumes "sid \<notin> ie_seriesID ` set (rd_index r)"
  shows "ReadSeries r sid = Inr []"
proof -
  have "ie_seriesID (rd_index r ! i) \<noteq> sid" if "i < length (rd_index r)" for i
    using assms nth_mem [OF that] by (metis imageI)
  then show ?thesis by (auto simp: ReadSeries_def Let_def not_le)
qed

lemma readAll_loop_view:
  assumes "readAll_loop r m es = Inr m'" and "map_wf m"
  shows "map_wf m' \<and> (\<forall>sid. if sid \<in> ie_seriesID ` set es then ReadSeries r sid = Inr (pts_of m' sid)
    else lookup m' sid = lookup m sid)"
  using assms
proof (induction es arbitrary: m)
  case (Cons e es)
  then obtain pts where pts: "ReadSeries r (ie_seriesID e) = Inr pts"
    and rest: "readAll_loop r (store m (ie_seriesID e) pts) es = Inr m'"
    by (auto simp: res_bind_eq_Inr)
  note IH = Cons.IH [OF rest map_wf_store [OF Cons.prems(2)]]
  have "ReadSeries r (ie_seriesID e) = Inr (pts_of m' (ie_seriesID e))"
    using IH pts by (cases "ie_seriesID e \<in> ie_seriesID ` set es") (auto simp: pts_of_def split: if_splits)
  then show ?case using IH by (auto split: if_splits)
qed simp

text \<open>For any file at all: what \<^verbatim>\<open>ReadAll\<close> collects is what \<^verbatim>\<open>ReadSeries\<close> finds.\<close>

lemma ReadAll_view:
  assumes "ReadAll r = Inr m"
  shows "map_wf m" and "ReadSeries r sid = Inr (pts_of m sid)"
proof -
  note V = readAll_loop_view [OF assms [unfolded ReadAll_def] map_wf_Nil]
  show "map_wf m" using V by blast
  show "ReadSeries r sid = Inr (pts_of m sid)"
    using V ReadSeries_not_in_index [of sid r]
    by (cases "sid \<in> ie_seriesID ` set (rd_index r)") (auto simp: pts_of_def split: if_splits)
qed

lemma pts_of_range_order:
  "range_order rng \<Longrightarrow> map_wf m \<Longrightarrow> pts_of (rng m) sid = pts_of m sid"
  by (simp add: pts_of_def range_order_facts(4))

definition total_len :: "merged \<Rightarrow> nat" where
  "total_len m = sum_list (map (length \<circ> snd) m)"

lemma total_len_Cons [simp]: "total_len ((k, v) # m) = length v + total_len m"
  by (simp add: total_len_def)

lemma total_len_store: "total_len (store m k (pts_of m k @ pts)) = total_len m + length pts"
  by (induction m) (auto simp: store_def total_len_def pts_of_def)

lemma total_len_range_order: "range_order rng \<Longrightarrow> total_len (rng m) = total_len m"
  unfolding total_len_def range_order_def by (metis mset_map sum_mset_sum_list)

lemma point_range_bounds:
  assumes "point_range bs be pts = (bs', be')"
  shows "sint bs' \<le> sint bs \<and> sint be \<le> sint be' \<and> (\<forall>p\<in>set pts. sint bs' \<le> ts p \<and> ts p \<le> sint be')"
  using assms
proof (induction pts arbitrary: bs be)
  case (Cons p ps)
  then have "point_range (if sint (Timestamp p) < sint bs then Timestamp p else bs)
      (if sint (Timestamp p) > sint be then Timestamp p else be) ps = (bs', be')" by simp
  from Cons.IH [OF this] show ?case by (auto simp: ts_def split: if_splits)
qed simp

text \<open>The state of the merge covers the points it holds.\<close>

definition covers :: "merged \<times> i64 \<times> i64 \<Rightarrow> bool" where
  "covers acc \<longleftrightarrow> (case acc of (m, bs, be) \<Rightarrow>
     map_wf m \<and> (\<forall>sid. \<forall>p\<in>set (pts_of m sid). sint bs \<le> ts p \<and> ts p \<le> sint be))"

lemma merge_all_view:
  assumes "covers (m, bs, be)" and "map_wf all"
  shows "case merge_all m bs be all of (m', bs', be') \<Rightarrow> covers (m', bs', be') \<and>
    (\<forall>sid. pts_of m' sid = pts_of m sid @ pts_of all sid) \<and> total_len m' = total_len m + total_len all"
  using assms
proof (induction m bs be all rule: merge_all.induct)
  case (1 m bs be)
  then show ?case by (simp add: total_len_def)
next
  case (2 m bs be sid pts all)
  obtain bs' be' where r: "point_range bs be pts = (bs', be')" by (metis prod.collapse)
  let ?m = "store m sid (pts_of m sid @ pts)"
  have cov: "covers (?m, bs', be')"
    using "2.prems"(1) point_range_bounds [OF r] by (fastforce simp: covers_def)
  have all: "map_wf all" "lookup all sid = None"
    using "2.prems"(2) by (auto simp: map_wf_def lookup_None_iff)
  have "pts_of ((sid, pts) # all) s = (if s = sid then pts else pts_of all s)" for s by (simp add: pts_of_def)
  moreover have "pts_of all sid = []" using all by (simp add: pts_of_def)
  moreover have step: "merge_all m bs be ((sid, pts) # all) = merge_all ?m bs' be' all"
    by (simp add: r pts_of_def)
  moreover have "case merge_all ?m bs' be' all of (m', bs'', be'') \<Rightarrow> covers (m', bs'', be'') \<and>
      (\<forall>s. pts_of m' s = pts_of ?m s @ pts_of all s) \<and> total_len m' = total_len ?m + total_len all"
    using "2.IH" [OF r [symmetric]] cov all by (simp add: pts_of_def)
  ultimately show ?case using total_len_store [of m sid pts] unfolding step by (auto split: prod.splits)
qed

definition segment_total :: "os_state \<Rightarrow> string \<Rightarrow> nat" where
  "segment_total st path = (case res_bind (OpenReader path st) ReadAll of Inl e \<Rightarrow> 0 | Inr m \<Rightarrow> total_len m)"

lemma segment_points_ReadAll:
  assumes "OpenReader path st = Inr r" and "ReadAll r = Inr m"
  shows "segment_points st sid path = pts_of m sid" and "segment_total st path = total_len m"
  using assms ReadAll_view(2) [OF assms(2)] by (simp_all add: segment_points_def segment_total_def)

lemma compact_read_view:
  assumes "compact_read rng st es acc = Inr acc'" and "range_order rng" and "covers acc"
  shows "covers acc' \<and>
    (\<forall>sid. pts_of (fst acc') sid = pts_of (fst acc) sid @ concat (map (\<lambda>e. segment_points st sid (Path e)) es)) \<and>
    total_len (fst acc') = total_len (fst acc) + sum_list (map (segment_total st \<circ> Path) es)"
  using assms
proof (induction es arbitrary: acc)
  case (Cons e es)
  obtain m bs be where acc: "acc = (m, bs, be)" by (metis prod.collapse)
  obtain r all where r: "OpenReader (Path e) st = Inr r" "ReadAll r = Inr all"
    and rest: "compact_read rng st es (merge_all m bs be (rng all)) = Inr acc'"
    using Cons.prems(1) by (auto simp: acc res_bind_eq_Inr)
  note all = ReadAll_view(1) [OF r(2)] and pts = segment_points_ReadAll [OF r]
  have "map_wf (rng all)" using all range_order_facts(3) [OF Cons.prems(2)] by simp
  note M = merge_all_view [OF Cons.prems(3) [unfolded acc] this]
  obtain m' bs' be' where m': "merge_all m bs be (rng all) = (m', bs', be')" by (metis prod.collapse)
  show ?case
    using Cons.IH [OF rest Cons.prems(2)] M pts pts_of_range_order [OF Cons.prems(2) all]
      total_len_range_order [OF Cons.prems(2), of all]
    by (simp add: m' acc)
qed simp

subsection \<open>What is written to the new segment\<close>

text \<open>Instants within 2 to the 54 of the epoch: in milliseconds, some 570000 years.\<close>

definition moderate :: "point \<Rightarrow> bool" where
  "moderate p \<longleftrightarrow> - (2 ^ 54) \<le> ts p \<and> ts p < 2 ^ 54"

lemma close_timestamps_moderate: "\<forall>p\<in>set pts. moderate p \<Longrightarrow> close_timestamps pts"
proof (induction pts rule: close_timestamps.induct)
  case (1 p q ps)
  have "sint (Timestamp q - Timestamp p) = ts q - ts p"
    using "1.prems" sint_of_int [of "ts q - ts p"] by (simp add: moderate_def ts_def)
  then show ?case using 1 by (simp add: moderate_def)
qed simp_all

lemma length_encodePoints:
  assumes "\<forall>p\<in>set pts. moderate p"
  shows "length (encodeSeries 1 pts) \<le> 24 * length pts"
proof (cases pts)
  case (Cons p ps)
  then show ?thesis
    using length_put_deltas [of p ps] close_timestamps_moderate [OF assms] length_concat_pieces [of "\<lambda>p. put_le 8 (Value p)" 8 ps]
    by (simp add: encodeSeries_def word_le_nat_alt)
qed simp

lemma moderate_length:
  assumes "\<forall>sp\<in>set sps. \<forall>p\<in>set (Points sp). moderate p"
  shows "length (seg_file_with c 1 bs be sps) \<le> headerSize + 44 * sum_list (map (length \<circ> Points) sps) + footerSize"
proof -
  let ?n = "sum_list (map (length \<circ> Points) sps)"
  have "length (seg_data 1 sps) \<le> 24 * ?n" using assms
    by (induction sps) (auto simp: seg_data_def intro: add_mono dest!: length_encodePoints)
  moreover have "length (filter (\<lambda>sp. Points sp \<noteq> []) sps) \<le> ?n" by (induction sps) (auto simp: neq_Nil_conv)
  ultimately show ?thesis by (simp add: length_seg_file length_seg_entries)
qed

lemma moderate_writable:
  assumes "distinct (map SeriesID sps)" and "\<forall>sp\<in>set sps. \<forall>p\<in>set (Points sp). moderate p"
    and "sum_list (map (length \<circ> Points) sps) < 2 ^ 32"
  shows "writable 1 sps"
proof -
  have "length (seg_file 1 0 0 sps) \<le> 21 + 44 * sum_list (map (length \<circ> Points) sps) + 12"
    using moderate_length [OF assms(2)] by (simp add: seg_file_def headerSize_def footerSize_def)
  then have "length (seg_file 1 0 0 sps) < 2 ^ 63" using assms(3) by simp
  moreover have "series_fits 1 (Points sp)" if "sp \<in> set sps" for sp
  proof (rule series_fits_v1)
    show "length (Points sp) < 2 ^ 32" using assms(3) member_le_sum_list [of "length (Points sp)" "map (length \<circ> Points) sps"] that by force
  qed (use assms(2) that close_timestamps_moderate in auto)
  ultimately show ?thesis using assms(1) by (simp add: writable_def)
qed

text \<open>The list handed to the writer.\<close>

definition merged_list :: "(point list \<Rightarrow> point list) \<Rightarrow> merged \<Rightarrow> SeriesPoints list" where
  "merged_list srtPts m = map (\<lambda>(sid, pts). \<lparr>SeriesID = sid, Points = srtPts pts\<rparr>) m"

lemma merged_list_ids: "map SeriesID (merged_list srtPts m) = map fst m"
  by (simp add: merged_list_def split_beta)

lemma merged_list_member:
  assumes "map_wf m"
  shows "sp \<in> set (merged_list srtPts m) \<Longrightarrow> Points sp = srtPts (pts_of m (SeriesID sp))"
    and "sid \<notin> SeriesID ` set (merged_list srtPts m) \<Longrightarrow> pts_of m sid = []"
proof -
  assume "sp \<in> set (merged_list srtPts m)"
  then obtain sid pts where m: "(sid, pts) \<in> set m" and sp: "sp = \<lparr>SeriesID = sid, Points = srtPts pts\<rparr>"
    by (auto simp: merged_list_def)
  have "lookup m sid = Some pts" using m lookup_Some_iff [OF assms] by blast
  then show "Points sp = srtPts (pts_of m (SeriesID sp))" by (simp add: sp pts_of_def)
next
  assume "sid \<notin> SeriesID ` set (merged_list srtPts m)"
  then have "sid \<notin> fst ` set m" using merged_list_ids by (metis set_map)
  then show "pts_of m sid = []" using lookup_None_iff [of m sid] by (simp add: pts_of_def)
qed

lemma merged_list_total:
  assumes "slice_sorter srtPts ts"
  shows "sum_list (map (length \<circ> Points) (merged_list srtPts m)) = total_len m"
proof -
  have "map (length \<circ> Points) (merged_list srtPts m) = map (length \<circ> snd) m"
    using slice_sorter.length_srt [OF assms] by (simp add: merged_list_def split_beta)
  then show ?thesis by (simp add: total_len_def)
qed

lemma merged_list_moderate:
  assumes "map_wf m" and "\<forall>sid. \<forall>p\<in>set (pts_of m sid). moderate p" and "slice_sorter srtPts ts"
  shows "\<forall>sp\<in>set (merged_list srtPts m). \<forall>p\<in>set (Points sp). moderate p"
  using merged_list_member(1) [OF assms(1)] assms(2) slice_sorter.set_srt [OF assms(3)] by simp

lemma merged_list_writable:
  assumes "map_wf m" and "\<forall>sid. \<forall>p\<in>set (pts_of m sid). moderate p" and "total_len m < 2 ^ 32"
    and "slice_sorter srtPts ts"
  shows "writable 1 (merged_list srtPts m)"
proof (rule moderate_writable)
  show "distinct (map SeriesID (merged_list srtPts m))" using assms(1) by (simp add: merged_list_ids map_wf_def)
  show "\<forall>sp\<in>set (merged_list srtPts m). \<forall>p\<in>set (Points sp). moderate p"
    by (rule merged_list_moderate [OF assms(1,2,4)])
  show "sum_list (map (length \<circ> Points) (merged_list srtPts m)) < 2 ^ 32"
    using assms(3) merged_list_total [OF assms(4)] by simp
qed

text \<open>What the candidates hold of a series, together.\<close>

definition all_points :: "os_state \<Rightarrow> SegmentEntry list \<Rightarrow> u64 \<Rightarrow> point list" where
  "all_points st es sid = concat (map (\<lambda>e. segment_points st sid (Path e)) es)"

lemma Compact_ok:
  assumes "Compact srtPts srtIds rng es out st = (Inr entry, st')"
  obtains m bs be w st1 w' where "compact_read rng st es ([], MaxInt64, MinInt64) = Inr (m, bs, be)"
    and "fresh_writer out st w st1" and "sw_version w = 1"
    and "seg_Write srtIds w (merged_list srtPts (rng m)) bs be st1 = (None, w', st')"
    and "entry = \<lparr>Path = out, BlockStart = bs, BlockEnd = be, SeriesCount = of_nat (length (rng m)), Size = 0\<rparr>"
proof -
  obtain m bs be where r: "compact_read rng st es ([], MaxInt64, MinInt64) = Inr (m, bs, be)"
    using assms by (auto simp: Compact_def split: if_splits sum.splits prod.splits)
  obtain w st1 where w: "seg_NewWriter out st = (Inr w, st1)"
    using assms r by (auto simp: Compact_def Let_def split: if_splits sum.splits prod.splits)
  have "sw_version w = 1" using w by (auto simp: seg_NewWriter_def split: prod.splits option.splits)
  moreover obtain w' where "seg_Write srtIds w (merged_list srtPts (rng m)) bs be st1 = (None, w', st')"
    and "entry = \<lparr>Path = out, BlockStart = bs, BlockEnd = be, SeriesCount = of_nat (length (rng m)), Size = 0\<rparr>"
    using assms r w by (auto simp: Compact_def Let_def merged_list_def split: if_splits sum.splits prod.splits option.splits)
  moreover have "fresh_writer out st w st1" using w by (simp add: fresh_writer_def)
  ultimately show thesis using that r by blast
qed

text \<open>What a successful compaction has written.\<close>

lemma Compact_spec:
  assumes "slice_sorter srtPts ts" and "slice_sorter srtIds SeriesID" and "range_order rng"
    and "\<forall>sid. \<forall>p\<in>set (all_points st es sid). moderate p"
    and "sum_list (map (segment_total st \<circ> Path) es) < 2 ^ 32"
    and "Compact srtPts srtIds rng es out st = (Inr entry, st')"
  shows "\<exists>r. OpenReader out st' = Inr r \<and> Path entry = out \<and> BlockRange r = (BlockStart entry, BlockEnd entry) \<and>
    (\<forall>sid. \<exists>pts. ReadSeries r sid = Inr pts \<and> sorted (map ts pts) \<and> mset pts = mset (all_points st es sid) \<and>
       (\<forall>p\<in>set pts. sint (BlockStart entry) \<le> ts p \<and> ts p \<le> sint (BlockEnd entry))) \<and>
    (\<forall>path. path \<noteq> out \<longrightarrow> o_files st' path = o_files st path) \<and> reads_safely st' out"
proof -
  obtain m bs be w st1 w' where read: "compact_read rng st es ([], MaxInt64, MinInt64) = Inr (m, bs, be)"
    and w: "fresh_writer out st w st1" "sw_version w = 1"
    and written: "seg_Write srtIds w (merged_list srtPts (rng m)) bs be st1 = (None, w', st')"
    and entry: "entry = \<lparr>Path = out, BlockStart = bs, BlockEnd = be, SeriesCount = of_nat (length (rng m)), Size = 0\<rparr>"
    by (rule Compact_ok [OF assms(6)])
  have "covers ([], MaxInt64, MinInt64)" by (simp add: covers_def)
  note V = compact_read_view [OF read assms(3) this]
  have V: "covers (m, bs, be)" "\<And>sid. pts_of m sid = all_points st es sid" "total_len m < 2 ^ 32"
    using V assms(5) by (simp_all add: all_points_def total_len_def)
  have wf: "map_wf (rng m)" and pts: "pts_of (rng m) sid = all_points st es sid" for sid
    using V range_order_facts(3) [OF assms(3)] pts_of_range_order [OF assms(3)] by (simp_all add: covers_def)
  have "writable (sw_version w) (merged_list srtPts (rng m))"
    unfolding w(2) by (rule merged_list_writable) (use wf pts assms(1,3,4) V(3) total_len_range_order in auto)
  from segment_readback [OF assms(2) w(1) this written]
  obtain r where r: "OpenReader out st' = Inr r" "BlockRange r = (bs, be)"
    "\<And>sp. sp \<in> set (merged_list srtPts (rng m)) \<Longrightarrow> ReadSeries r (SeriesID sp) = Inr (Points sp)"
    "\<And>sid. sid \<notin> SeriesID ` set (merged_list srtPts (rng m)) \<Longrightarrow> ReadSeries r sid = Inr []"
    "\<exists>m. ReadAll r = Inr m" by blast
  have series: "ReadSeries r sid = Inr (srtPts (all_points st es sid))" for sid
  proof (cases "sid \<in> SeriesID ` set (merged_list srtPts (rng m))")
    case True
    then show ?thesis using r(3) merged_list_member(1) [OF wf] pts by fastforce
  next
    case False
    then show ?thesis
      using r(4) [OF False] merged_list_member(2) [OF wf False] pts [of sid] slice_sorter.srt_Nil [OF assms(1)] by simp
  qed
  then have "reads_safely st' out" using r(1,5) reads_safelyI by blast
  moreover have "\<forall>p\<in>set (all_points st es sid). sint bs \<le> ts p \<and> ts p \<le> sint be" for sid
    using V(1,2) by (simp add: covers_def)
  moreover have "o_files st' path = o_files st path" if "path \<noteq> out" for path
    using seg_Write_written [OF w(1) written] fresh_writer_facts(8) [OF w(1)] that by simp
  ultimately show ?thesis
    using r(1,2) series slice_sorter.sorted_srt [OF assms(1)] slice_sorter.mset_srt [OF assms(1)] slice_sorter.set_srt [OF assms(1)]
    by (intro exI [of _ r]) (simp add: entry)
qed

text \<open>
  C8: a compaction that reports success has written a segment that opens, and that holds of every
  series exactly the points which the old segments held of it together, each as often as before,
  ordered by time and inside the block range that the manifest entry names.  No other file is
  touched.  The premises bound the instants and the number of points, so that the encoded
  series fit the sizes the format has.
\<close>

theorem compaction_preserves_points:
  assumes "slice_sorter srtPts ts" and "slice_sorter srtIds SeriesID" and "range_order rng"
    and "\<forall>sid. \<forall>p\<in>set (all_points st es sid). moderate p"
    and "sum_list (map (segment_total st \<circ> Path) es) < 2 ^ 32"
    and "Compact srtPts srtIds rng es out st = (Inr entry, st')"
  shows "\<exists>r. OpenReader out st' = Inr r \<and> Path entry = out \<and> BlockRange r = (BlockStart entry, BlockEnd entry) \<and>
    (\<forall>sid. \<exists>pts. ReadSeries r sid = Inr pts \<and> sorted (map ts pts) \<and> mset pts = mset (all_points st es sid) \<and>
       (\<forall>p\<in>set pts. sint (BlockStart entry) \<le> ts p \<and> ts p \<le> sint (BlockEnd entry))) \<and>
    (\<forall>path. path \<noteq> out \<longrightarrow> o_files st' path = o_files st path)"
  using Compact_spec [OF assms] by blast

text \<open>A compaction panics only when reading one of its inputs does.\<close>

lemma compact_read_panics:
  assumes "compact_read rng st es acc = Inl Panic"
  shows "\<exists>e\<in>set es. \<not> reads_safely st (Path e)"
  using assms
proof (induction rng st es acc rule: compact_read.induct)
  case (2 rng st entry es acc)
  show ?case
  proof (cases "res_bind (OpenReader (Path entry) st) ReadAll")
    case (Inl e)
    then have "e = Panic" using "2.prems" by (auto simp: res_bind_def split: sum.splits)
    then show ?thesis using Inl by (auto simp: reads_safely_def)
  next
    case (Inr all)
    then obtain r where r: "OpenReader (Path entry) st = Inr r" "ReadAll r = Inr all" by (auto simp: res_bind_eq_Inr)
    obtain m bs be where acc: "acc = (m, bs, be)" by (metis prod.collapse)
    have "\<exists>e\<in>set es. \<not> reads_safely st (Path e)"
      using "2.IH" [OF acc [symmetric] refl] "2.prems" r by (simp add: acc)
    then show ?thesis by simp
  qed
qed simp

lemma Compact_panics:
  assumes "Compact srtPts srtIds rng es out st = (Inl Panic, st')"
  shows "\<exists>e\<in>set es. \<not> reads_safely st (Path e)"
proof (cases "compact_read rng st es ([], MaxInt64, MinInt64)")
  case (Inl e)
  then have "e = Panic" using assms by (auto simp: Compact_def split: if_splits)
  then show ?thesis using compact_read_panics Inl by blast
next
  case (Inr x)
  obtain m bs be where x: "x = (m, bs, be)" by (metis prod.collapse)
  have "fst (seg_NewWriter out st) \<noteq> Inl Panic" for st
    by (auto simp: seg_NewWriter_def os_Create_def split: prod.splits)
  moreover have "fst (seg_Write srtIds w sps bs be st1) \<noteq> Some Panic" if "fresh_writer out st w st1" for w sps st1
    using seg_Write_outcome [OF that] by simp
  ultimately show ?thesis
    using assms Inr by (auto simp: x Compact_def Let_def fresh_writer_def split: if_splits prod.splits sum.splits option.splits) (metis fst_conv)+
qed

text \<open>Nothing but the device stands in the way once the old segments have been read.\<close>

lemma Compact_succeeds:
  assumes "slice_sorter srtPts ts" and "slice_sorter srtIds SeriesID" and "range_order rng" and "es \<noteq> []"
    and "compact_read rng st es ([], MaxInt64, MinInt64) = Inr (m, bs, be)"
    and "\<forall>sid. \<forall>p\<in>set (pts_of m sid). moderate p" and "map_wf m"
    and "\<not> o_denied st out" and "headerSize + 44 * total_len m + footerSize \<le> o_free st"
  shows "\<exists>entry st'. Compact srtPts srtIds rng es out st = (Inr entry, st')"
proof -
  let ?sps = "merged_list srtPts (rng m)"
  obtain w st1 where new: "seg_NewWriter out st = (Inr w, st1)" and v: "sw_version w = 1"
    using assms(8) by (simp add: seg_NewWriter_def os_Create_def)
  then have w: "fresh_writer out st w st1" by (simp add: fresh_writer_def)
  have wf: "map_wf (rng m)" "\<forall>sid. \<forall>p\<in>set (pts_of (rng m) sid). moderate p"
    using assms(6,7) range_order_facts(3) [OF assms(3)] pts_of_range_order [OF assms(3)] by simp_all
  have "sum_list (map (length \<circ> Points) (srtIds ?sps)) = sum_list (map (length \<circ> Points) ?sps)"
    using slice_sorter.mset_srt [OF assms(2)] by (metis mset_map sum_mset_sum_list)
  then have n: "sum_list (map (length \<circ> Points) (srtIds ?sps)) = total_len m"
    using merged_list_total [OF assms(1)] total_len_range_order [OF assms(3)] by simp
  have "\<forall>sp\<in>set (srtIds ?sps). \<forall>p\<in>set (Points sp). moderate p"
    using merged_list_moderate [OF wf assms(1)] slice_sorter.set_srt [OF assms(2)] by simp
  from moderate_length [OF this] have "length (seg_file (sw_version w) bs be (srtIds ?sps)) \<le> o_free st1"
    using assms(9) fresh_writer_facts(6) [OF w] unfolding n v seg_file_def by (metis le_trans)
  then have "fst (seg_Write srtIds w ?sps bs be st1) = None"
    using seg_Write_outcome [OF w] by simp
  then obtain w' st' where "seg_Write srtIds w ?sps bs be st1 = (None, w', st')" by (metis prod.collapse)
  then show ?thesis
    using assms(4,5) new by (simp add: Compact_def Let_def merged_list_def)
qed

text \<open>Two entries with the same file: its points are counted twice.\<close>

definition ex_compact :: os_state where
  "ex_compact = ex_disk\<lparr>o_files := [ex_path \<mapsto> seg_file_with 0 1 0 0 (insertionSort SeriesID ex_sps)]\<rparr>"

definition ex_twice :: "SegmentEntry list" where
  "ex_twice = [ex_entry\<lparr>Path := ex_path\<rparr>, ex_entry\<lparr>Path := ex_path\<rparr>]"

lemma ex_compact_read:
  "segment_points ex_compact sid ex_path = (if sid = 7 then ex_series else if sid = 3 then take 1 ex_series else [])"
  "segment_total ex_compact ex_path = 4"
  "\<exists>r m. OpenReader ex_path ex_compact = Inr r \<and> ReadAll r = Inr m"
proof -
  let ?sps = "insertionSort SeriesID ex_sps"
  let ?r = "written_reader 0 1 0 0 ?sps"
  note ok = writable_sorted [OF ex_sps_writable(1) insertionSort_sorter]
  have sps: "?sps = [\<lparr>SeriesID = 3, Points = take 1 ex_series\<rparr>, \<lparr>SeriesID = 7, Points = ex_series\<rparr>]" by code_simp
  have opened: "OpenReader ex_path ex_compact = Inr ?r"
    by (rule OpenReader_written) (use ok(2) in \<open>simp_all add: ex_disk_def ex_compact_def\<close>)
  have "ReadAll ?r = Inr (map (\<lambda>sp. (SeriesID sp, Points sp)) (filter (\<lambda>sp. Points sp \<noteq> []) ?sps))"
    by (rule ReadAll_written [OF ok(1)])
  also have "\<dots> = Inr [(3, take 1 ex_series), (7, ex_series)]" unfolding sps by (simp add: ex_series_def)
  finally have all: "ReadAll ?r = Inr [(3, take 1 ex_series), (7, ex_series)]" .
  then show "\<exists>r m. OpenReader ex_path ex_compact = Inr r \<and> ReadAll r = Inr m" using opened by blast
  show "segment_points ex_compact sid ex_path = (if sid = 7 then ex_series else if sid = 3 then take 1 ex_series else [])"
    and "segment_total ex_compact ex_path = 4"
    using segment_points_ReadAll [OF opened all] by (simp_all add: pts_of_def total_len_def ex_series_def)
qed

lemma ex_twice_facts:
  "all_points ex_compact ex_twice sid = segment_points ex_compact sid ex_path @ segment_points ex_compact sid ex_path"
  "sum_list (map (segment_total ex_compact \<circ> Path) ex_twice) = 8"
  "\<forall>sid. \<forall>p\<in>set (all_points ex_compact ex_twice sid). moderate p"
proof -
  show pts: "all_points ex_compact ex_twice sid = segment_points ex_compact sid ex_path @ segment_points ex_compact sid ex_path" for sid
    by (simp add: all_points_def ex_twice_def)
  show "sum_list (map (segment_total ex_compact \<circ> Path) ex_twice) = 8"
    by (simp add: ex_twice_def ex_compact_read(2))
  show "\<forall>sid. \<forall>p\<in>set (all_points ex_compact ex_twice sid). moderate p"
    by (auto simp: pts ex_compact_read(1) ex_series_def moderate_def ts_def)
qed

lemma ex_twice_compacts:
  "\<exists>entry st'. Compact (insertionSort ts) (insertionSort SeriesID) (\<lambda>m. m) ex_twice out ex_compact = (Inr entry, st')"
proof -
  have rng: "range_order (\<lambda>m :: merged. m)" by (simp add: range_order_def)
  obtain r all where "OpenReader ex_path ex_compact = Inr r" "ReadAll r = Inr all" using ex_compact_read(3) by blast
  then obtain m bs be where read: "compact_read (\<lambda>m. m) ex_compact ex_twice ([], MaxInt64, MinInt64) = Inr (m, bs, be)"
    by (simp add: ex_twice_def split_beta) (metis prod.collapse)
  have "covers ([], MaxInt64, MinInt64)" by (simp add: covers_def)
  note V = compact_read_view [OF read rng this]
  have V: "map_wf m" "pts_of m sid = all_points ex_compact ex_twice sid" "total_len m = 8" for sid
    using V ex_twice_facts(2) by (simp_all add: covers_def all_points_def total_len_def)
  show ?thesis
    using Compact_succeeds [OF insertionSort_sorter insertionSort_sorter rng _ read, where out = out] ex_twice_facts(3) V
    by (auto simp: ex_twice_def ex_compact_def ex_disk_def headerSize_def footerSize_def)
qed

lemma compaction_preserves_points_witness:
  "\<exists>entry st' r pts. Compact (insertionSort ts) (insertionSort SeriesID) (\<lambda>m. m) ex_twice ''c.seg'' ex_compact = (Inr entry, st') \<and>
    OpenReader ''c.seg'' st' = Inr r \<and> ReadSeries r 7 = Inr pts \<and> mset pts = mset ex_series + mset ex_series"
proof -
  have rng: "range_order (\<lambda>m :: merged. m)" by (simp add: range_order_def)
  obtain entry st' where ok: "Compact (insertionSort ts) (insertionSort SeriesID) (\<lambda>m. m) ex_twice ''c.seg'' ex_compact = (Inr entry, st')"
    using ex_twice_compacts by blast
  have "sum_list (map (segment_total ex_compact \<circ> Path) ex_twice) < 2 ^ 32" unfolding ex_twice_facts(2) by simp
  from compaction_preserves_points [OF insertionSort_sorter insertionSort_sorter rng ex_twice_facts(3) this ok]
  obtain r where r: "OpenReader ''c.seg'' st' = Inr r"
    "\<exists>pts. ReadSeries r 7 = Inr pts \<and> mset pts = mset (all_points ex_compact ex_twice 7)" by blast
  then show ?thesis using ok by (auto simp: ex_twice_facts(1) ex_compact_read(1))
qed

end
