(* ===== verification/Retention.thy ===== *)
theory Retention
  imports Manifest
begin

text \<open>
  Package \<^verbatim>\<open>internal/retention\<close>: which segments are older than a cutoff, and the deletion of their
  files.  The cutoff is \<^verbatim>\<open>cutoff.UnixMilli()\<close>.
\<close>

record SweepResult =
  Removed :: "SegmentEntry list"
  Kept :: "SegmentEntry list"

fun sweep_loop :: "i64 \<Rightarrow> SegmentEntry list \<Rightarrow> SegmentEntry list \<Rightarrow> SegmentEntry list \<Rightarrow> SweepResult" where
  "sweep_loop cutoffMillis removed kept [] = \<lparr>Removed = removed, Kept = kept\<rparr>"
| "sweep_loop cutoffMillis removed kept (entry # es) =
     (if sint (BlockEnd entry) < sint cutoffMillis then sweep_loop cutoffMillis (removed @ [entry]) kept es
      else sweep_loop cutoffMillis removed (kept @ [entry]) es)"

definition Sweep :: "SegmentEntry list \<Rightarrow> i64 \<Rightarrow> SweepResult" where
  "Sweep entries cutoffMillis = sweep_loop cutoffMillis [] [] entries"

text \<open>A file that is already gone is no error.\<close>

fun DeleteFiles :: "SegmentEntry list \<Rightarrow> os_state \<Rightarrow> go_error list \<times> os_state" where
  "DeleteFiles [] st = ([], st)"
| "DeleteFiles (entry # es) st =
     (case os_Remove (Path entry) st of (e, st) \<Rightarrow>
        case DeleteFiles es st of (errs, st) \<Rightarrow>
          ((case e of None \<Rightarrow> errs | Some err \<Rightarrow> if err = ErrNotExist then errs else err # errs), st))"

definition expired :: "i64 \<Rightarrow> SegmentEntry \<Rightarrow> bool" where
  "expired cutoff e \<longleftrightarrow> sint (BlockEnd e) < sint cutoff"

lemma Sweep_eq:
  "Sweep entries cutoff = \<lparr>Removed = filter (expired cutoff) entries, Kept = filter (\<lambda>e. \<not> expired cutoff e) entries\<rparr>"
proof -
  have "sweep_loop cutoff r k es = \<lparr>Removed = r @ filter (expired cutoff) es, Kept = k @ filter (\<lambda>e. \<not> expired cutoff e) es\<rparr>" for r k es
    by (induction es arbitrary: r k) (simp_all add: expired_def)
  then show ?thesis by (simp add: Sweep_def)
qed

lemma os_Remove_file:
  "o_files (snd (os_Remove p st)) q = (if q = p \<and> \<not> o_denied st p then None else o_files st q)"
  "o_denied (snd (os_Remove p st)) = o_denied st"
  by (auto simp: os_Remove_def)

lemma DeleteFiles_Cons:
  "snd (DeleteFiles (e # es) st) = snd (DeleteFiles es (snd (os_Remove (Path e) st)))"
  by (simp split: prod.splits)

lemma DeleteFiles_effect:
  "o_files (snd (DeleteFiles es st)) q = (if q \<in> Path ` set es \<and> \<not> o_denied st q then None else o_files st q)"
  "o_denied (snd (DeleteFiles es st)) = o_denied st"
  by (induction es arbitrary: st) (auto simp: DeleteFiles_Cons os_Remove_file simp del: DeleteFiles.simps(2))

lemma DeleteFiles_errors:
  "fst (DeleteFiles es st) = replicate (length (filter (\<lambda>e. o_denied st (Path e)) es)) ErrIO"
proof (induction es arbitrary: st)
  case (Cons e es)
  obtain err st1 where r: "os_Remove (Path e) st = (err, st1)" by (metis prod.collapse)
  have "o_denied st1 = o_denied st" using os_Remove_file(2) [of "Path e" st] r by simp
  moreover have "err = (if o_denied st (Path e) then Some ErrIO else if o_files st (Path e) = None then Some ErrNotExist else None)"
    using r by (auto simp: os_Remove_def split: if_splits)
  ultimately show ?case using Cons.IH [of st1] r by (auto split: prod.splits)
qed simp

text \<open>
  C18: a retention sweep splits the segments into those whose last instant lies before the cutoff and
  the others, losing none and keeping their order.  Deleting the expired ones removes exactly their
  files: the file of each that the system lets the process remove is gone, every other path, listed or
  not, is as before, and the files of the segments that are kept are among these (paths being distinct).  For each file that the
  system refuses to remove (\<open>o_denied\<close>) one error is returned and the file stays; a file
  that is already gone is no error.
\<close>

theorem retention_sweep_exact:
  assumes "distinct (map Path entries)"
  shows "(let r = Sweep entries cutoff; (errs, st') = DeleteFiles (Removed r) st in
    Removed r = filter (\<lambda>e. sint (BlockEnd e) < sint cutoff) entries \<and>
    Kept r = filter (\<lambda>e. \<not> sint (BlockEnd e) < sint cutoff) entries \<and>
    mset (Removed r) + mset (Kept r) = mset entries \<and>
    (\<forall>path. o_files st' path =
       (if path \<in> Path ` set (Removed r) \<and> \<not> o_denied st path then None else o_files st path)) \<and>
    (\<forall>e\<in>set (Kept r). o_files st' (Path e) = o_files st (Path e)) \<and>
    errs = replicate (length (filter (\<lambda>e. o_denied st (Path e)) (Removed r))) ErrIO)"
proof -
  obtain errs st' where d: "DeleteFiles (filter (expired cutoff) entries) st = (errs, st')" by (metis prod.collapse)
  have "Path e \<notin> Path ` set (filter (expired cutoff) entries)" if "e \<in> set entries" "\<not> expired cutoff e" for e
    using assms that by (auto simp: distinct_map dest: inj_onD)
  moreover have "o_files st' path =
      (if path \<in> Path ` set (filter (expired cutoff) entries) \<and> \<not> o_denied st path then None else o_files st path)" for path
    using DeleteFiles_effect(1) [of "filter (expired cutoff) entries" st path] d by simp
  ultimately show ?thesis
    using DeleteFiles_errors [of "filter (expired cutoff) entries" st] d
    unfolding Sweep_eq by (auto simp: Let_def expired_def [abs_def] multiset_partition [symmetric])
qed

text \<open>Three segments, of which the first two have expired and the second may not be removed.\<close>

definition ex_sweep :: "SegmentEntry list" where
  "ex_sweep = [ex_entry, ex_entry\<lparr>Path := ''d/b.seg''\<rparr>, ex_entry\<lparr>Path := ''d/c.seg'', BlockEnd := 80\<rparr>]"

definition ex_full :: os_state where
  "ex_full = \<lparr>o_files = (\<lambda>p. Some [1]), o_free = 0, o_denied = (\<lambda>p. p = ''d/b.seg'')\<rparr>"

lemma retention_sweep_exact_witness:
  "\<exists>st'. DeleteFiles (Removed (Sweep ex_sweep 75)) ex_full = ([ErrIO], st') \<and> o_files st' (Path ex_entry) = None \<and>
     o_files st' ''d/b.seg'' = Some [1] \<and> o_files st' ''d/c.seg'' = Some [1] \<and> o_files st' ''d/other'' = Some [1]"
proof -
  have d: "distinct (map Path ex_sweep)" and r: "filter (\<lambda>e. sint (BlockEnd e) < sint (75 :: i64)) ex_sweep = take 2 ex_sweep"
    and p: "map Path (take 2 ex_sweep) = [Path ex_entry, ''d/b.seg'']" "Path ex_entry \<notin> {''d/b.seg'', ''d/c.seg'', ''d/other''}"
    by code_simp+
  obtain errs st' where e: "DeleteFiles (Removed (Sweep ex_sweep 75)) ex_full = (errs, st')" by (metis prod.collapse)
  have p': "Path ` set (take 2 ex_sweep) = {Path ex_entry, ''d/b.seg''}" using p(1) by (metis empty_set list.simps(15) set_map)
  have n: "length (filter (\<lambda>e. o_denied ex_full (Path e)) (take 2 ex_sweep)) = 1"
    using p(2) by (simp add: ex_sweep_def ex_full_def)
  have "\<forall>path. o_files st' path = (if path \<in> {Path ex_entry, ''d/b.seg''} \<and> \<not> o_denied ex_full path then None else o_files ex_full path)"
    "errs = replicate 1 ErrIO"
    using retention_sweep_exact [OF d, of 75 ex_full] unfolding e Let_def prod.case r by (auto simp: p' n r)
  then show ?thesis using e p(2) not_sym [of "Path ex_entry"] by (auto simp: ex_full_def)
qed

end
