(* ===== verification/Index.thy ===== *)
theory Index
  imports Go_Strings
begin

text \<open>
  Package \<^verbatim>\<open>internal/index\<close>: which series have a metric, and which have a tag under a metric.  The
  abstract view of an index is the set of insertions made; the lemmas show that a query resolves
  to exactly the series that the insertions call for, and where the textual tag key confuses two tags.
\<close>

type_synonym idset = "(u64, unit) gomap"

record index =
  MetricSeries :: "(string, idset) gomap"
  TagIndex :: "(string, (string, idset) gomap) gomap"

definition idx_New :: index where
  "idx_New = \<lparr>MetricSeries = [], TagIndex = []\<rparr>"

definition tagKey :: "string \<Rightarrow> string \<Rightarrow> string" where
  "tagKey k v = k @ ''='' @ v"

text \<open>A missing or nil map reads as an empty one.\<close>

definition or_empty :: "('k, 'v) gomap option \<Rightarrow> ('k, 'v) gomap" where
  "or_empty m = (case m of None \<Rightarrow> [] | Some x \<Rightarrow> x)"

fun insert_tags :: "u64 \<Rightarrow> string \<Rightarrow> (string, (string, idset) gomap) gomap \<Rightarrow> (string, string) gomap \<Rightarrow>
    (string, (string, idset) gomap) gomap" where
  "insert_tags seriesID metric ti [] = ti"
| "insert_tags seriesID metric ti ((k, v) # tags) =
     (let tm = or_empty (lookup ti metric); tk = tagKey k v; ids = or_empty (lookup tm tk)
      in insert_tags seriesID metric (store ti metric (store tm tk (store ids seriesID ()))) tags)"

definition idx_Insert :: "index \<Rightarrow> u64 \<Rightarrow> string \<Rightarrow> (string, string) gomap \<Rightarrow> index" where
  "idx_Insert idx seriesID metric tags =
     (let ms = or_empty (lookup (MetricSeries idx) metric)
      in \<lparr>MetricSeries = store (MetricSeries idx) metric (store ms seriesID ()),
          TagIndex = insert_tags seriesID metric (TagIndex idx) tags\<rparr>)"

text \<open>The loop over the filters: the first one's ids are copied, the others delete; a tag never seen ends it.\<close>

fun resolve_loop :: "(string, idset) gomap \<Rightarrow> bool \<Rightarrow> idset \<Rightarrow> (string, string) gomap \<Rightarrow> idset option" where
  "resolve_loop tm first result [] = Some result"
| "resolve_loop tm first result ((k, v) # filters) =
     (case lookup tm (tagKey k v) of
        None \<Rightarrow> None
      | Some s \<Rightarrow>
          if first then resolve_loop tm False s filters
          else resolve_loop tm False (filter (\<lambda>(sid, _). lookup s sid \<noteq> None) result) filters)"

definition idx_Resolve :: "index \<Rightarrow> string \<Rightarrow> (string, string) gomap \<Rightarrow> u64 list" where
  "idx_Resolve idx metric tagFilters =
     (case lookup (MetricSeries idx) metric of
        None \<Rightarrow> []
      | Some ids \<Rightarrow>
          if tagFilters = [] then sort (map fst ids)
          else (case resolve_loop (or_empty (lookup (TagIndex idx) metric)) True [] tagFilters of
                  None \<Rightarrow> []
                | Some result \<Rightarrow> sort (map fst result)))"

definition idx_ListMetrics :: "index \<Rightarrow> string list" where
  "idx_ListMetrics idx = sort (map fst (MetricSeries idx))"

definition idx_ListTags :: "index \<Rightarrow> string \<Rightarrow> string list" where
  "idx_ListTags idx metric =
     (case lookup (TagIndex idx) metric of None \<Rightarrow> [] | Some tags \<Rightarrow> sort (map fst tags))"

subsection \<open>The abstract view\<close>

definition metric_ids :: "index \<Rightarrow> string \<Rightarrow> u64 set" where
  "metric_ids idx metric = fst ` set (or_empty (lookup (MetricSeries idx) metric))"

definition tag_ids :: "(string, (string, idset) gomap) gomap \<Rightarrow> string \<Rightarrow> string \<Rightarrow> u64 set" where
  "tag_ids ti metric tk = fst ` set (or_empty (lookup (or_empty (lookup ti metric)) tk))"

definition idsets_wf :: "('k, idset) gomap \<Rightarrow> bool" where
  "idsets_wf m \<longleftrightarrow> (\<forall>k s. lookup m k = Some s \<longrightarrow> map_wf s)"

definition index_wf :: "index \<Rightarrow> bool" where
  "index_wf idx \<longleftrightarrow> idsets_wf (MetricSeries idx) \<and> (\<forall>m tm. lookup (TagIndex idx) m = Some tm \<longrightarrow> idsets_wf tm)"

lemma or_empty_simps [simp]: "or_empty None = []" "or_empty (Some m) = m"
  by (simp_all add: or_empty_def)

lemma idsets_wf_Nil [simp]: "idsets_wf []"
  by (simp add: idsets_wf_def)

lemma idsets_wf_or_empty: "idsets_wf m \<Longrightarrow> map_wf (or_empty (lookup m k))"
  by (cases "lookup m k") (auto simp: idsets_wf_def)

lemma idsets_wf_store: "idsets_wf m \<Longrightarrow> map_wf s \<Longrightarrow> idsets_wf (store m k s)"
  by (simp add: idsets_wf_def)

lemma insert_tags_view:
  assumes "\<forall>m tm. lookup ti m = Some tm \<longrightarrow> idsets_wf tm"
  shows "tag_ids (insert_tags sid metric ti tags) m tk =
      tag_ids ti m tk \<union> (if m = metric \<and> (\<exists>(k, v)\<in>set tags. tk = tagKey k v) then {sid} else {})"
    and "\<forall>m tm. lookup (insert_tags sid metric ti tags) m = Some tm \<longrightarrow> idsets_wf tm"
proof -
  have "tag_ids (insert_tags sid metric ti tags) m tk =
      tag_ids ti m tk \<union> (if m = metric \<and> (\<exists>(k, v)\<in>set tags. tk = tagKey k v) then {sid} else {}) \<and>
    (\<forall>m tm. lookup (insert_tags sid metric ti tags) m = Some tm \<longrightarrow> idsets_wf tm)"
    using assms
  proof (induction sid metric ti tags rule: insert_tags.induct)
    case (1 sid metric ti)
    then show ?case by simp
  next
    case (2 sid metric ti k v tags)
    let ?tm = "or_empty (lookup ti metric)"
    let ?ti = "store ti metric (store ?tm (tagKey k v) (store (or_empty (lookup ?tm (tagKey k v))) sid ()))"
    have tm: "idsets_wf ?tm" using "2.prems" by (cases "lookup ti metric") auto
    then have wf: "\<forall>m tm. lookup ?ti m = Some tm \<longrightarrow> idsets_wf tm"
      using "2.prems" by (auto intro!: idsets_wf_store map_wf_store idsets_wf_or_empty)
    have "tag_ids ?ti m tk = tag_ids ti m tk \<union> (if m = metric \<and> tk = tagKey k v then {sid} else {})"
      by (auto simp: tag_ids_def set_store_fst)
    then show ?case using "2.IH" [OF refl refl refl wf] by (auto simp: Let_def)
  qed
  then show "tag_ids (insert_tags sid metric ti tags) m tk =
      tag_ids ti m tk \<union> (if m = metric \<and> (\<exists>(k, v)\<in>set tags. tk = tagKey k v) then {sid} else {})"
    and "\<forall>m tm. lookup (insert_tags sid metric ti tags) m = Some tm \<longrightarrow> idsets_wf tm" by blast+
qed

lemma idx_Insert_view:
  assumes "index_wf idx"
  shows "index_wf (idx_Insert idx sid metric tags)"
    and "metric_ids (idx_Insert idx sid metric tags) m = metric_ids idx m \<union> (if m = metric then {sid} else {})"
    and "tag_ids (TagIndex (idx_Insert idx sid metric tags)) m tk =
      tag_ids (TagIndex idx) m tk \<union> (if m = metric \<and> (\<exists>(k, v)\<in>set tags. tk = tagKey k v) then {sid} else {})"
  using assms insert_tags_view [of "TagIndex idx"]
  by (auto simp: idx_Insert_def Let_def index_wf_def metric_ids_def set_store_fst intro!: idsets_wf_store map_wf_store idsets_wf_or_empty)

subsection \<open>Resolving\<close>

lemma map_wf_filter: "map_wf m \<Longrightarrow> map_wf (filter P m)"
  by (simp add: map_wf_def distinct_map_filter)

lemma resolve_loop_view:
  assumes "idsets_wf tm" and "map_wf result"
  shows "case resolve_loop tm first result filters of
      None \<Rightarrow> \<exists>(k, v)\<in>set filters. lookup tm (tagKey k v) = None
    | Some r \<Rightarrow> map_wf r \<and> fst ` set r =
        {sid. (first \<and> filters \<noteq> [] \<or> sid \<in> fst ` set result) \<and>
              (\<forall>(k, v)\<in>set filters. sid \<in> fst ` set (or_empty (lookup tm (tagKey k v))))}"
  using assms
proof (induction tm first result filters rule: resolve_loop.induct)
  case (1 tm first result)
  then show ?case by auto
next
  case (2 tm first result k v filters)
  show ?case
  proof (cases "lookup tm (tagKey k v)")
    case None
    then show ?thesis by auto
  next
    case (Some s)
    have s: "map_wf s" using "2.prems"(1) Some by (auto simp: idsets_wf_def)
    have del: "fst ` set (filter (\<lambda>(sid, _). lookup s sid \<noteq> None) result) = fst ` set result \<inter> fst ` set s"
      unfolding lookup_None_iff by (auto simp: image_iff) force
    show ?thesis
    proof (cases first)
      case True
      then show ?thesis using "2.IH"(1) [OF Some True "2.prems"(1) s] Some by (auto split: option.splits)
    next
      case False
      then show ?thesis
        using "2.IH"(2) [OF Some False "2.prems"(1) map_wf_filter [OF "2.prems"(2)]] Some del
        by (auto split: option.splits)
    qed
  qed
qed

lemma sort_ids: "map_wf m \<Longrightarrow> sort (map fst m) = sorted_list_of_set (fst ` set m)"
  by (simp add: map_wf_def sorted_list_of_set_sort_remdups distinct_remdups_id flip: set_map)

lemma idx_Resolve_view:
  assumes "index_wf idx" and "\<And>m tk. tag_ids (TagIndex idx) m tk \<subseteq> metric_ids idx m"
  shows "idx_Resolve idx metric filters = sorted_list_of_set
    {sid \<in> metric_ids idx metric. \<forall>(k, v)\<in>set filters. sid \<in> tag_ids (TagIndex idx) metric (tagKey k v)}"
proof (cases "lookup (MetricSeries idx) metric")
  case None
  then show ?thesis by (simp add: idx_Resolve_def metric_ids_def)
next
  case (Some ids)
  let ?tm = "or_empty (lookup (TagIndex idx) metric)"
  have ids: "map_wf ids" using assms(1) Some by (auto simp: index_wf_def idsets_wf_def)
  have tm: "idsets_wf ?tm" using assms(1) by (cases "lookup (TagIndex idx) metric") (auto simp: index_wf_def)
  show ?thesis
  proof (cases "filters = []")
    case True
    then show ?thesis using Some sort_ids [OF ids] by (simp add: idx_Resolve_def metric_ids_def)
  next
    case False
    obtain k v where kv: "(k, v) \<in> set filters" using False by (cases filters) auto
    note R = resolve_loop_view [OF tm map_wf_Nil, where first = True and filters = filters]
    show ?thesis
    proof (cases "resolve_loop ?tm True [] filters")
      case None
      then obtain k' v' where "(k', v') \<in> set filters" "lookup ?tm (tagKey k' v') = None" using R by auto
      then have e: "{sid \<in> metric_ids idx metric. \<forall>(k, v)\<in>set filters. sid \<in> tag_ids (TagIndex idx) metric (tagKey k v)} = {}"
        by (auto simp: tag_ids_def intro!: bexI [of _ "(k', v')"])
      show ?thesis unfolding e using Some False None by (simp add: idx_Resolve_def)
    next
      case (Some r)
      then have "fst ` set r = {sid. \<forall>(k, v)\<in>set filters. sid \<in> tag_ids (TagIndex idx) metric (tagKey k v)}"
        using R False by (simp add: tag_ids_def)
      also have "\<dots> = {sid \<in> metric_ids idx metric. \<forall>(k, v)\<in>set filters. sid \<in> tag_ids (TagIndex idx) metric (tagKey k v)}"
        using kv assms(2) by blast
      finally show ?thesis
        using R Some False sort_ids [of r] \<open>lookup (MetricSeries idx) metric = Some ids\<close> by (simp add: idx_Resolve_def)
    qed
  qed
qed

text \<open>An index built by insertions.\<close>

definition index_of :: "(u64 \<times> string \<times> (string, string) gomap) list \<Rightarrow> index" where
  "index_of ins = foldl (\<lambda>idx (sid, metric, tags). idx_Insert idx sid metric tags) idx_New ins"

lemma index_of_snoc: "index_of (ins @ [(sid, metric, tags)]) = idx_Insert (index_of ins) sid metric tags"
  by (simp add: index_of_def)

lemma index_of_view:
  "index_wf (index_of ins) \<and>
    metric_ids (index_of ins) m = {sid. \<exists>tags. (sid, m, tags) \<in> set ins} \<and>
    tag_ids (TagIndex (index_of ins)) m tk =
      {sid. \<exists>tags. (sid, m, tags) \<in> set ins \<and> (\<exists>(k, v)\<in>set tags. tk = tagKey k v)}"
proof (induction ins arbitrary: m tk rule: rev_induct)
  case Nil
  then show ?case
    by (simp add: index_of_def idx_New_def index_wf_def metric_ids_def tag_ids_def)
next
  case (snoc x ins)
  obtain sid metric tags where x: "x = (sid, metric, tags)" by (metis prod.collapse)
  have wf: "index_wf (index_of ins)" using snoc.IH by blast
  show ?case
    unfolding x index_of_snoc using idx_Insert_view [OF wf, of sid metric tags] snoc.IH by auto
qed

text \<open>A tag key without an equals sign can be told from its value.\<close>

lemma tagKey_inject:
  assumes "CHR ''='' \<notin> set k" and "CHR ''='' \<notin> set k'"
  shows "tagKey k v = tagKey k' v' \<longleftrightarrow> k = k' \<and> v = v'"
  using assms
proof (induction k arbitrary: k')
  case Nil
  then show ?case by (cases k') (auto simp: tagKey_def)
next
  case (Cons c k)
  then show ?case by (cases k') (auto simp: tagKey_def)
qed

text \<open>
  C14: provided no tag key contains an equals sign, a query resolves to exactly the series that were
  inserted under the metric and with every tag asked for, each once, in ascending order.
\<close>

theorem index_resolve_exact:
  assumes "\<forall>(sid, m, tags)\<in>set ins. \<forall>(k, v)\<in>set tags. CHR ''='' \<notin> set k"
    and "\<forall>(k, v)\<in>set filters. CHR ''='' \<notin> set k"
  shows "idx_Resolve (index_of ins) metric filters = sorted_list_of_set
    {sid. (\<exists>tags. (sid, metric, tags) \<in> set ins) \<and>
      (\<forall>(k, v)\<in>set filters. \<exists>tags. (sid, metric, tags) \<in> set ins \<and> (k, v) \<in> set tags)}"
proof -
  have tag: "tag_ids (TagIndex (index_of ins)) metric (tagKey k v) =
      {sid. \<exists>tags. (sid, metric, tags) \<in> set ins \<and> (k, v) \<in> set tags}" if "(k, v) \<in> set filters" for k v
  proof -
    have "CHR ''='' \<notin> set k" using assms(2) that by auto
    moreover have "CHR ''='' \<notin> set k'" if "(sid, metric, tags) \<in> set ins" "(k', v') \<in> set tags" for sid tags k' v'
      using assms(1) that by fastforce
    ultimately show ?thesis
      using index_of_view [of ins metric "tagKey k v"] tagKey_inject by (auto 4 4)
  qed
  have "idx_Resolve (index_of ins) metric filters = sorted_list_of_set
    {sid \<in> metric_ids (index_of ins) metric.
      \<forall>(k, v)\<in>set filters. sid \<in> tag_ids (TagIndex (index_of ins)) metric (tagKey k v)}"
    using index_of_view [of ins] by (intro idx_Resolve_view) auto
  also have "{sid \<in> metric_ids (index_of ins) metric.
      \<forall>(k, v)\<in>set filters. sid \<in> tag_ids (TagIndex (index_of ins)) metric (tagKey k v)} =
    {sid. (\<exists>tags. (sid, metric, tags) \<in> set ins) \<and>
      (\<forall>(k, v)\<in>set filters. \<exists>tags. (sid, metric, tags) \<in> set ins \<and> (k, v) \<in> set tags)}"
  proof (rule Collect_cong)
    fix sid
    have "(\<forall>(k, v)\<in>set filters. sid \<in> tag_ids (TagIndex (index_of ins)) metric (tagKey k v)) \<longleftrightarrow>
        (\<forall>(k, v)\<in>set filters. \<exists>tags. (sid, metric, tags) \<in> set ins \<and> (k, v) \<in> set tags)"
      by (rule ball_cong [OF refl]) (use tag in auto)
    moreover have "sid \<in> metric_ids (index_of ins) metric \<longleftrightarrow> (\<exists>tags. (sid, metric, tags) \<in> set ins)"
      using index_of_view [of ins metric] by simp
    ultimately show "(sid \<in> metric_ids (index_of ins) metric \<and>
        (\<forall>(k, v)\<in>set filters. sid \<in> tag_ids (TagIndex (index_of ins)) metric (tagKey k v))) \<longleftrightarrow>
      ((\<exists>tags. (sid, metric, tags) \<in> set ins) \<and>
        (\<forall>(k, v)\<in>set filters. \<exists>tags. (sid, metric, tags) \<in> set ins \<and> (k, v) \<in> set tags))" by simp
  qed
  finally show ?thesis .
qed

lemma index_resolve_exact_witness:
  "idx_Resolve (index_of [(7, ''cpu'', [(''host'', ''a'')]), (3, ''cpu'', [(''host'', ''b'')]), (5, ''mem'', [])]) ''cpu'' [(''host'', ''b'')] = [3]"
proof -
  let ?ins = "[(7, ''cpu'', [(''host'', ''a'')]), (3, ''cpu'', [(''host'', ''b'')]), (5, ''mem'', [])] :: (u64 \<times> string \<times> (string, string) gomap) list"
  have "{sid. (\<exists>tags. (sid, ''cpu'', tags) \<in> set ?ins) \<and>
      (\<forall>(k, v)\<in>set [(''host'', ''b'')]. \<exists>tags. (sid, ''cpu'', tags) \<in> set ?ins \<and> (k, v) \<in> set tags)} = {3}"
    by auto
  then show ?thesis using index_resolve_exact [of ?ins "[(''host'', ''b'')]" "''cpu''"] by simp
qed

text \<open>With an equals sign in a tag key, a query finds a series that does not have the tag.\<close>

theorem index_tag_confusion:
  "idx_Resolve (index_of [(7, ''cpu'', [(''a=b'', ''c'')])]) ''cpu'' [(''a'', ''b=c'')] = [7]"
  by code_simp

end
