(* ===== verification/Engine.thy ===== *)
theory Engine
  imports Compaction Retention Index
begin

text \<open>
  Package \<^verbatim>\<open>internal/engine\<close>: the single goroutine that owns the memtables, the log, the manifest and
  the index.  Each handler of \<^verbatim>\<open>engine.go\<close> is a function from the engine (and the files) to the
  response it sends and the engine afterwards; the two background goroutines are functions from
  what they capture to the payload they send back.  The theory \<open>Engine_Loop\<close> puts them together.
\<close>

subsection \<open>Types\<close>

datatype CmdKind = WriteCmd | QueryCmd | FlushDoneCmd | CompactionCmd | CompactionDoneCmd
  | RetentionCmd | ShutdownCmd | BatchWriteCmd

record WritePayload =
  wp_SeriesID :: u64
  wp_Points :: "point list"

type_synonym BatchWritePayload = "WritePayload list"

text \<open>
  A \<^verbatim>\<open>time.Time\<close> is the number of nanoseconds since the epoch, without bounds (the zero time is the
  year 1); a \<^verbatim>\<open>time.Duration\<close> is an \<^verbatim>\<open>int64\<close> of nanoseconds.
\<close>

definition UnixMilli :: "int \<Rightarrow> i64" where
  "UnixMilli t = word_of_int (t div 1000000)"

definition Milliseconds :: "i64 \<Rightarrow> i64" where
  "Milliseconds d = go_div d 1000000"

record QueryPayload =
  q_Metric :: string
  q_TagFilters :: "(string, string) gomap"
  q_StartTime :: int
  q_EndTime :: int
  q_Aggregation :: string
  q_BucketWidth :: i64

record FlushDonePayload =
  fd_SegmentPath :: string
  fd_BlockStart :: i64
  fd_BlockEnd :: i64
  fd_SeriesCount :: i64
  fd_WALOffset :: i64
  fd_Err :: "go_error option"

record CompactionDonePayload =
  cd_OldPaths :: "string list"
  cd_SegmentPath :: string
  cd_BlockStart :: i64
  cd_BlockEnd :: i64
  cd_SeriesCount :: i64
  cd_Err :: "go_error option"

record RetentionPayload =
  rp_Cutoff :: int

text \<open>The dynamic type of \<^verbatim>\<open>Command.Payload\<close>; a type assertion on another one panics.\<close>

datatype payload =
    PWrite WritePayload
  | PBatch BatchWritePayload
  | PQuery QueryPayload
  | PFlushDone FlushDonePayload
  | PCompactionDone CompactionDonePayload
  | PRetention RetentionPayload
  | PNil

text \<open>The response channel of a command is not part of it here: each command is answered once, in order.\<close>

record Command =
  Kind :: CmdKind
  Payload :: payload

record query_Result =
  qr_SeriesID :: u64
  qr_Buckets :: "bucket list"
  qr_Points :: "point list"
  qr_Err :: "go_error option"

text \<open>\<^verbatim>\<open>Response\<close>: its data, by dynamic type, or its error.\<close>

datatype Response =
    RespNone
  | RespInt nat
  | RespResults "query_Result list"
  | RespErr go_error

record Metrics =
  PointsWritten :: i64
  WritesOK :: i64
  WritesError :: i64
  FlushesTotal :: i64
  CompactionsTotal :: i64
  QueriesTotal :: i64

text \<open>The channels hold the values sent and not received yet, oldest first.\<close>

record engine =
  e_cmdCh :: "Command list"
  e_ticking :: bool
  e_flushDoneCh :: "FlushDonePayload list"
  e_compactionDoneCh :: "CompactionDonePayload list"
  e_active :: memtable
  e_frozen :: "memtable option"
  e_wal :: wal_writer
  e_manifest :: manifest
  e_index :: index
  e_metrics :: Metrics
  e_memtableSize :: int
  e_walPath :: string
  e_dataDir :: string
  e_flushCount :: nat
  e_lastActivity :: int

record EngineConfig =
  cfg_WALPath :: string
  cfg_DataDir :: string
  cfg_ManifestPath :: string
  cfg_MemtableSize :: int
  cfg_FlushInterval :: int

definition engine_DefaultConfig :: EngineConfig where
  "engine_DefaultConfig = \<lparr>cfg_WALPath = [], cfg_DataDir = [], cfg_ManifestPath = [],
     cfg_MemtableSize = 128 * 2 ^ 20, cfg_FlushInterval = 10 * 1000000000\<rparr>"

text \<open>
  What Go leaves open: the order in which \<^verbatim>\<open>sort.Slice\<close> puts equal keys, and the order in which a map is
  visited.
\<close>

record runtime =
  rt_sortPoints :: "point list \<Rightarrow> point list"
  rt_sortSeries :: "SeriesPoints list \<Rightarrow> SeriesPoints list"
  rt_sortEntries :: "SegmentEntry list \<Rightarrow> SegmentEntry list"
  rt_range :: "merged \<Rightarrow> merged"

definition runtime_ok :: "runtime \<Rightarrow> bool" where
  "runtime_ok rt \<longleftrightarrow> slice_sorter (rt_sortPoints rt) ts \<and> slice_sorter (rt_sortSeries rt) SeriesID \<and>
     slice_sorter (rt_sortEntries rt) (sint \<circ> SeriesCount) \<and> range_order (rt_range rt)"

subsection \<open>The log's payload\<close>

definition encodeWritePayload :: "WritePayload \<Rightarrow> byte list" where
  "encodeWritePayload p =
     put_le 8 (wp_SeriesID p) @ put_le 4 (of_nat (length (wp_Points p)) :: u32) @
     concat (map (\<lambda>pt. put_le 8 (Timestamp pt) @ put_le 8 (Value pt)) (wp_Points p))"

text \<open>The loop of the decoder; the offsets are \<^verbatim>\<open>uint32\<close> and wrap around.\<close>

fun decode_payload_loop :: "byte list \<Rightarrow> u32 \<Rightarrow> nat \<Rightarrow> point list res" where
  "decode_payload_loop data i 0 = Inr []"
| "decode_payload_loop data i (Suc k) =
     (let off = 12 + i * 16 in
      res_bind (slice data (unat off) (unat (off + 8))) (\<lambda>t.
      res_bind (slice data (unat (off + 8)) (unat (off + 16))) (\<lambda>v.
      res_bind (decode_payload_loop data (i + 1) k) (\<lambda>pts.
        Inr (\<lparr>Timestamp = get_le t, Value = get_le v\<rparr> # pts)))))"

definition decodeWritePayload :: "byte list \<Rightarrow> WritePayload res" where
  "decodeWritePayload data =
     res_bind (slice data 0 8) (\<lambda>seriesID.
     res_bind (slice data 8 12) (\<lambda>count.
     res_bind (decode_payload_loop data 0 (unat (get_le count :: u32))) (\<lambda>pts.
       Inr \<lparr>wp_SeriesID = get_le seriesID, wp_Points = pts\<rparr>)))"

subsection \<open>Start and recovery\<close>

text \<open>
  \<^verbatim>\<open>New\<close>: \<open>walFile\<close> is the log file as opened, \<open>st\<close> the other files, \<open>now\<close> the time in seconds.
  \<^verbatim>\<open>time.NewTicker\<close> panics unless the interval is positive.
\<close>

definition engine_New :: "os_file res \<Rightarrow> os_state \<Rightarrow> int \<Rightarrow> EngineConfig \<Rightarrow> engine res" where
  "engine_New walFile st now cfg =
     res_bind (NewWriter walFile [WithFsyncInterval (10 * 1000000), WithByteThreshold (2 ^ 20)]) (\<lambda>w.
     res_bind (man_Load (cfg_ManifestPath cfg) st) (\<lambda>m.
       let dataDir = (if cfg_DataDir cfg = [] then filepath_Dir (cfg_WALPath cfg) else cfg_DataDir cfg) in
       if cfg_FlushInterval cfg \<le> 0 then Inl Panic
       else Inr \<lparr>e_cmdCh = [], e_ticking = True, e_flushDoneCh = [], e_compactionDoneCh = [],
              e_active = memtable_New, e_frozen = None, e_wal = w, e_manifest = m, e_index = idx_New,
              e_metrics = \<lparr>PointsWritten = 0, WritesOK = 0, WritesError = 0, FlushesTotal = 0,
                CompactionsTotal = 0, QueriesTotal = 0\<rparr>,
              e_memtableSize = cfg_MemtableSize cfg, e_walPath = cfg_WALPath cfg, e_dataDir = dataDir,
              e_flushCount = 0, e_lastActivity = now\<rparr>))"

fun recover_loop :: "runtime \<Rightarrow> memtable \<Rightarrow> byte list list \<Rightarrow> memtable res" where
  "recover_loop rt active [] = Inr active"
| "recover_loop rt active (data # entries) =
     res_bind (decodeWritePayload data) (\<lambda>p.
     res_bind (memtable_Insert (rt_sortPoints rt) active (wp_SeriesID p) (wp_Points p)) (\<lambda>(active, _).
       recover_loop rt active entries))"

text \<open>\<^verbatim>\<open>Recover\<close>: \<open>walFile\<close> is what the path of the log holds.\<close>

definition Recover :: "runtime \<Rightarrow> byte list option \<Rightarrow> engine \<Rightarrow> engine res" where
  "Recover rt walFile e =
     (let offset = man_GetWALOffset (e_manifest e) in
      res_bind (Replay walFile (sint offset)) (\<lambda>entries.
      res_bind (recover_loop rt (e_active e) entries) (\<lambda>active.
        Inr (e\<lparr>e_active := active\<rparr>))))"

subsection \<open>Commands\<close>

definition cmdCh_cap :: nat where
  "cmdCh_cap = 10000"

definition doneCh_cap :: nat where
  "doneCh_cap = 10"

text \<open>\<^verbatim>\<open>Submit\<close> never blocks: when the channel is full it returns an error that may be retried.\<close>

definition Submit :: "Command \<Rightarrow> engine \<Rightarrow> go_error option \<times> engine" where
  "Submit cmd e =
     (if length (e_cmdCh e) < cmdCh_cap then (None, e\<lparr>e_cmdCh := e_cmdCh e @ [cmd]\<rparr>)
      else (Some ErrBackpressure, e))"

definition write_failed :: "engine \<Rightarrow> engine" where
  "write_failed e = e\<lparr>e_metrics := (e_metrics e)\<lparr>WritesError := WritesError (e_metrics e) + 1\<rparr>\<rparr>"

definition write_done :: "nat \<Rightarrow> engine \<Rightarrow> engine" where
  "write_done n e = e\<lparr>e_metrics := (e_metrics e)\<lparr>PointsWritten := PointsWritten (e_metrics e) + of_nat n,
     WritesOK := WritesOK (e_metrics e) + 1\<rparr>\<rparr>"

definition handleWrite :: "runtime \<Rightarrow> payload \<Rightarrow> engine \<Rightarrow> (Response \<times> engine) res" where
  "handleWrite rt cmdPayload e =
     (case cmdPayload of
        PWrite p \<Rightarrow>
          (case Append (e_wal e) (encodeWritePayload p) of
             (Some err, w) \<Rightarrow> Inr (RespErr err, write_failed (e\<lparr>e_wal := w\<rparr>))
           | (None, w) \<Rightarrow>
               res_bind (memtable_Insert (rt_sortPoints rt) (e_active e) (wp_SeriesID p) (wp_Points p)) (\<lambda>(active, _).
                 Inr (RespNone, write_done (length (wp_Points p)) (e\<lparr>e_wal := w, e_active := active\<rparr>))))
      | _ \<Rightarrow> Inl Panic)"

text \<open>The loop over the batch; an error ends it and leaves the writes before it in place.\<close>

fun batch_loop :: "runtime \<Rightarrow> nat \<Rightarrow> BatchWritePayload \<Rightarrow> engine \<Rightarrow> (Response \<times> engine) res" where
  "batch_loop rt totalPoints [] e = Inr (RespNone, write_done totalPoints e)"
| "batch_loop rt totalPoints (p # payloads) e =
     (case Append (e_wal e) (encodeWritePayload p) of
        (Some err, w) \<Rightarrow> Inr (RespErr err, write_failed (e\<lparr>e_wal := w\<rparr>))
      | (None, w) \<Rightarrow>
          res_bind (memtable_Insert (rt_sortPoints rt) (e_active e) (wp_SeriesID p) (wp_Points p)) (\<lambda>(active, _).
            batch_loop rt (totalPoints + length (wp_Points p)) payloads (e\<lparr>e_wal := w, e_active := active\<rparr>)))"

definition handleBatchWrite :: "runtime \<Rightarrow> payload \<Rightarrow> engine \<Rightarrow> (Response \<times> engine) res" where
  "handleBatchWrite rt cmdPayload e =
     (case cmdPayload of PBatch payloads \<Rightarrow> batch_loop rt 0 payloads e | _ \<Rightarrow> Inl Panic)"

text \<open>The points of one series, as \<^verbatim>\<open>handleQuery\<close> collects them: live, frozen and from the segments.\<close>

definition query_points :: "engine \<Rightarrow> os_state \<Rightarrow> string list \<Rightarrow> i64 \<Rightarrow> i64 \<Rightarrow> u64 \<Rightarrow> point list res" where
  "query_points e st segPaths startTime endTime sid =
     (let activePts = memtable_Get (e_active e) sid;
          frozenPts = (case e_frozen e of None \<Rightarrow> [] | Some f \<Rightarrow> memtable_Get f sid)
      in res_bind (ReadSegments segPaths sid st) (\<lambda>segPts.
        let merged = Merge [activePts, frozenPts, segPts]
        in Inr (Filter merged startTime endTime)))"

fun query_loop :: "engine \<Rightarrow> os_state \<Rightarrow> string list \<Rightarrow> i64 \<Rightarrow> i64 \<Rightarrow> i64 \<Rightarrow> u64 list \<Rightarrow> query_Result list res" where
  "query_loop e st segPaths startTime endTime bucketWidth [] = Inr []"
| "query_loop e st segPaths startTime endTime bucketWidth (sid # sids) =
     res_bind (query_points e st segPaths startTime endTime sid) (\<lambda>merged.
      res_bind (if sint bucketWidth > 0
                then res_bind (Aggregate merged bucketWidth) (\<lambda>buckets.
                  Inr \<lparr>qr_SeriesID = sid, qr_Buckets = buckets, qr_Points = [], qr_Err = None\<rparr>)
                else Inr \<lparr>qr_SeriesID = sid, qr_Buckets = [], qr_Points = merged, qr_Err = None\<rparr>) (\<lambda>r.
      res_bind (query_loop e st segPaths startTime endTime bucketWidth sids) (\<lambda>results.
        Inr (r # results))))"

definition query_counted :: "engine \<Rightarrow> engine" where
  "query_counted e = e\<lparr>e_metrics := (e_metrics e)\<lparr>QueriesTotal := QueriesTotal (e_metrics e) + 1\<rparr>\<rparr>"

definition query_paths :: "manifest \<Rightarrow> i64 \<Rightarrow> i64 \<Rightarrow> string list" where
  "query_paths m startTime endTime =
     map Path (filter (\<lambda>entry. sint (BlockStart entry) \<le> sint endTime \<and> sint (BlockEnd entry) \<ge> sint startTime) (man_List m))"

definition handleQuery :: "payload \<Rightarrow> engine \<Rightarrow> os_state \<Rightarrow> (Response \<times> engine) res" where
  "handleQuery cmdPayload e st =
     (case cmdPayload of
        PQuery q \<Rightarrow>
          let startTime = UnixMilli (q_StartTime q);
              endTime = UnixMilli (q_EndTime q);
              bucketWidth = Milliseconds (q_BucketWidth q);
              seriesIDs = idx_Resolve (e_index e) (q_Metric q) (q_TagFilters q) in
          if seriesIDs = [] then Inr (RespResults [], query_counted e)
          else
            res_bind (query_loop e st (query_paths (e_manifest e) startTime endTime) startTime endTime bucketWidth seriesIDs)
              (\<lambda>results. Inr (RespResults results, query_counted e))
      | _ \<Rightarrow> Inl Panic)"

subsection \<open>Rotation and flush\<close>

text \<open>The loop of the flush goroutine over the series: the list for the writer and the block range.\<close>

fun flush_range :: "bool \<Rightarrow> i64 \<Rightarrow> i64 \<Rightarrow> merged \<Rightarrow> (i64 \<times> i64) res" where
  "flush_range first blockStart blockEnd [] = Inr (blockStart, blockEnd)"
| "flush_range first blockStart blockEnd ((sid, pts) # allData) =
     (if pts = [] then Inl Panic
      else flush_range False
        (if first \<or> sint (Timestamp (hd pts)) < sint blockStart then Timestamp (hd pts) else blockStart)
        (if first \<or> sint (Timestamp (last pts)) > sint blockEnd then Timestamp (last pts) else blockEnd) allData)"

definition flush_failed :: "go_error \<Rightarrow> FlushDonePayload" where
  "flush_failed err = \<lparr>fd_SegmentPath = [], fd_BlockStart = 0, fd_BlockEnd = 0, fd_SeriesCount = 0,
     fd_WALOffset = 0, fd_Err = Some err\<rparr>"

definition flush_name :: "nat \<Rightarrow> string" where
  "flush_name n = ''seg-'' @ pad6 n @ ''.seg''"

text \<open>The flush goroutine, from what it is given to what it sends on \<^verbatim>\<open>flushDoneCh\<close>.\<close>

definition flush_job :: "runtime \<Rightarrow> memtable \<Rightarrow> string \<Rightarrow> nat \<Rightarrow> i64 \<Rightarrow> os_state \<Rightarrow> FlushDonePayload res \<times> os_state" where
  "flush_job rt f dir n walOff st =
     (let allData = rt_range rt (memtable_GetAll f) in
      if allData = [] then
        (Inr \<lparr>fd_SegmentPath = [], fd_BlockStart = 0, fd_BlockEnd = 0, fd_SeriesCount = 0,
          fd_WALOffset = walOff, fd_Err = None\<rparr>, st)
      else
        let seriesList = map (\<lambda>(sid, pts). \<lparr>SeriesID = sid, Points = pts\<rparr>) allData;
            segPath = filepath_Join dir (flush_name n) in
        case flush_range True 0 0 allData of
          Inl err \<Rightarrow> (Inl err, st)
        | Inr (blockStart, blockEnd) \<Rightarrow>
            (case seg_NewWriter segPath st of
               (Inl err, st) \<Rightarrow> (Inr (flush_failed err), st)
             | (Inr w, st) \<Rightarrow>
                 (case seg_Write (rt_sortSeries rt) w seriesList blockStart blockEnd st of
                    (Some err, w, st) \<Rightarrow> (Inr (flush_failed err), st)
                  | (None, w, st) \<Rightarrow>
                      (Inr \<lparr>fd_SegmentPath = segPath, fd_BlockStart = blockStart, fd_BlockEnd = blockEnd,
                         fd_SeriesCount = of_nat (length seriesList), fd_WALOffset = walOff, fd_Err = None\<rparr>, st))))"

text \<open>What \<^verbatim>\<open>maybeRotateMemtable\<close> hands to the goroutine it starts.\<close>

record flush_args =
  fa_table :: memtable
  fa_dir :: string
  fa_n :: nat
  fa_walOff :: i64

definition maybeRotateMemtable :: "engine \<Rightarrow> flush_args option \<times> engine" where
  "maybeRotateMemtable e =
     (if memtable_SizeBytes (e_active e) < e_memtableSize e then (None, e)
      else
        let frozen = snd (memtable_Freeze (e_active e)) in
        (Some \<lparr>fa_table = frozen, fa_dir = e_dataDir e, fa_n = e_flushCount e,
           fa_walOff = word_of_int (wal_Offset (e_wal e))\<rparr>,
         e\<lparr>e_active := memtable_New, e_frozen := Some frozen, e_flushCount := e_flushCount e + 1\<rparr>))"

definition applyFlushResult :: "FlushDonePayload \<Rightarrow> engine \<Rightarrow> os_state \<Rightarrow> engine \<times> os_state" where
  "applyFlushResult res e st =
     (if fd_Err res \<noteq> None then (e\<lparr>e_frozen := None\<rparr>, st)
      else
        let e = e\<lparr>e_metrics := (e_metrics e)\<lparr>FlushesTotal := FlushesTotal (e_metrics e) + 1\<rparr>\<rparr> in
        if fd_SegmentPath res \<noteq> [] then
          let entry = \<lparr>Path = fd_SegmentPath res, BlockStart = fd_BlockStart res, BlockEnd = fd_BlockEnd res,
                SeriesCount = fd_SeriesCount res, Size = 0\<rparr> in
          (case man_Add entry (e_manifest e) st of (_, m, st) \<Rightarrow>
             (case man_SetWALOffset (fd_WALOffset res) m st of (_, m, st) \<Rightarrow>
                (e\<lparr>e_manifest := m, e_frozen := None\<rparr>, st)))
        else (e\<lparr>e_frozen := None\<rparr>, st))"

subsection \<open>Compaction and retention\<close>

definition handleCompaction :: "runtime \<Rightarrow> engine \<Rightarrow> Response \<times> (SegmentEntry list \<times> string) option" where
  "handleCompaction rt e =
     (let candidates = SelectCandidates (rt_sortEntries rt) (man_List (e_manifest e)) 5 in
      if candidates = [] then (RespInt 0, None)
      else (RespInt (length candidates), Some (candidates, e_dataDir e)))"

definition compaction_failed :: "go_error \<Rightarrow> CompactionDonePayload" where
  "compaction_failed err = \<lparr>cd_OldPaths = [], cd_SegmentPath = [], cd_BlockStart = 0, cd_BlockEnd = 0,
     cd_SeriesCount = 0, cd_Err = Some err\<rparr>"

definition compaction_output :: "SegmentEntry list \<Rightarrow> string \<Rightarrow> string" where
  "compaction_output cands dir = filepath_Join dir (compacted_name (length cands))"

text \<open>The compaction goroutine; an error of \<^verbatim>\<open>Compact\<close> is sent back, a panic in it ends the process.\<close>

definition compaction_job :: "runtime \<Rightarrow> SegmentEntry list \<Rightarrow> string \<Rightarrow> os_state \<Rightarrow> CompactionDonePayload res \<times> os_state" where
  "compaction_job rt cands dir st =
     (case Compact (rt_sortPoints rt) (rt_sortSeries rt) (rt_range rt) cands (compaction_output cands dir) st of
        (Inl err, st) \<Rightarrow> (if err = Panic then Inl Panic else Inr (compaction_failed err), st)
      | (Inr result, st) \<Rightarrow>
          (Inr \<lparr>cd_OldPaths = map Path cands, cd_SegmentPath = Path result, cd_BlockStart = BlockStart result,
             cd_BlockEnd = BlockEnd result, cd_SeriesCount = SeriesCount result, cd_Err = None\<rparr>, st))"

fun remove_files :: "string list \<Rightarrow> os_state \<Rightarrow> os_state" where
  "remove_files [] st = st"
| "remove_files (path # paths) st = remove_files paths (snd (os_Remove path st))"

definition applyCompactionResult :: "CompactionDonePayload \<Rightarrow> engine \<Rightarrow> os_state \<Rightarrow> engine \<times> os_state" where
  "applyCompactionResult res e st =
     (if cd_Err res \<noteq> None then (e, st)
      else
        let e = e\<lparr>e_metrics := (e_metrics e)\<lparr>CompactionsTotal := CompactionsTotal (e_metrics e) + 1\<rparr>\<rparr>;
            entry = \<lparr>Path = cd_SegmentPath res, BlockStart = cd_BlockStart res, BlockEnd = cd_BlockEnd res,
              SeriesCount = cd_SeriesCount res, Size = 0\<rparr> in
        (case man_Add entry (e_manifest e) st of
           (Some err, m, st) \<Rightarrow> (e\<lparr>e_manifest := m\<rparr>, st)
         | (None, m, st) \<Rightarrow>
             (case man_RemoveBatch (cd_OldPaths res) m st of
                (Some err, m, st) \<Rightarrow> (e\<lparr>e_manifest := m\<rparr>, st)
              | (None, m, st) \<Rightarrow> (e\<lparr>e_manifest := m\<rparr>, remove_files (cd_OldPaths res) st))))"

definition handleRetention :: "payload \<Rightarrow> engine \<Rightarrow> os_state \<Rightarrow> (Response \<times> engine \<times> os_state) res" where
  "handleRetention cmdPayload e st =
     (case cmdPayload of
        PRetention p \<Rightarrow>
          let result = Sweep (man_List (e_manifest e)) (UnixMilli (rp_Cutoff p)) in
          if Removed result = [] then Inr (RespInt 0, e, st)
          else
            (case man_RemoveBatch (map Path (Removed result)) (e_manifest e) st of
               (Some err, m, st) \<Rightarrow> Inr (RespErr err, e\<lparr>e_manifest := m\<rparr>, st)
             | (None, m, st) \<Rightarrow>
                 Inr (RespInt (length (Removed result)), e\<lparr>e_manifest := m\<rparr>, snd (DeleteFiles (Removed result) st)))
      | _ \<Rightarrow> Inl Panic)"

subsection \<open>The rest\<close>

definition engine_Sync :: "engine \<Rightarrow> go_error option \<times> engine" where
  "engine_Sync e = (case wal_Sync (e_wal e) of (err, w) \<Rightarrow> (err, e\<lparr>e_wal := w\<rparr>))"

definition engine_Close :: "engine \<Rightarrow> go_error option \<times> engine" where
  "engine_Close e = (case wal_Close (e_wal e) of (err, w) \<Rightarrow> (err, e\<lparr>e_ticking := False, e_wal := w\<rparr>))"

definition engine_shutdown :: "engine \<Rightarrow> engine" where
  "engine_shutdown e = e\<lparr>e_ticking := False, e_wal := snd (wal_Close (e_wal e))\<rparr>"

definition SetIndex :: "index \<Rightarrow> engine \<Rightarrow> engine" where
  "SetIndex idx e = e\<lparr>e_index := idx\<rparr>"

definition engine_WALOffset :: "engine \<Rightarrow> int" where
  "engine_WALOffset e = wal_Offset (e_wal e)"

definition GetPoints :: "engine \<Rightarrow> u64 \<Rightarrow> point list" where
  "GetPoints e seriesID = memtable_Get (e_active e) seriesID"

definition FrozenPoints :: "engine \<Rightarrow> u64 \<Rightarrow> point list" where
  "FrozenPoints e seriesID = (case e_frozen e of None \<Rightarrow> [] | Some f \<Rightarrow> memtable_Get f seriesID)"

definition MemtableSize :: "engine \<Rightarrow> nat" where
  "MemtableSize e = memtable_Len (e_active e)"

definition Liveness :: "engine \<Rightarrow> int \<Rightarrow> bool" where
  "Liveness e now \<longleftrightarrow> now - e_lastActivity e < 5"

subsection \<open>The payload reads back\<close>

abbreviation put_point :: "point \<Rightarrow> byte list" where
  "put_point pt \<equiv> put_le 8 (Timestamp pt) @ put_le 8 (Value pt)"

lemma length_put_points [simp]: "length (concat (map put_point pts)) = 16 * length pts"
  by (induction pts) simp_all

lemma length_encodeWritePayload: "length (encodeWritePayload p) = 12 + 16 * length (wp_Points p)"
  by (simp add: encodeWritePayload_def)

lemma decode_payload_loop_encoded:
  assumes "length hdr = 12" and "length xs + length ys < 2 ^ 28"
  shows "decode_payload_loop (hdr @ concat (map put_point (xs @ ys))) (of_nat (length xs)) (length ys) = Inr ys"
  using assms(2)
proof (induction ys arbitrary: xs)
  case (Cons y ys)
  let ?d = "hdr @ concat (map put_point (xs @ y # ys))"
  have off: "unat (12 + of_nat (length xs) * 16 :: u32) = 12 + 16 * length xs"
    "unat (20 + of_nat (length xs) * 16 :: u32) = 20 + 16 * length xs"
    "unat (28 + of_nat (length xs) * 16 :: u32) = 28 + 16 * length xs"
    using Cons.prems by (simp_all add: unat_word_ariths unat_of_nat)
  have t: "slice ?d (12 + 16 * length xs) (20 + 16 * length xs) = Inr (put_le 8 (Timestamp y))"
    using slice_middle [of _ "hdr @ concat (map put_point xs)" _ "put_le 8 (Timestamp y)" "put_le 8 (Value y) @ concat (map put_point ys)"] assms(1)
    by simp
  have v: "slice ?d (20 + 16 * length xs) (28 + 16 * length xs) = Inr (put_le 8 (Value y))"
    using slice_middle [of _ "hdr @ concat (map put_point xs) @ put_le 8 (Timestamp y)" _ "put_le 8 (Value y)" "concat (map put_point ys)"] assms(1)
    by simp
  have "decode_payload_loop ?d (of_nat (length xs) + 1) (length ys) = Inr ys"
    using Cons.IH [of "xs @ [y]"] Cons.prems by (simp add: add.commute)
  then show ?case by (simp add: Let_def off t v del: map_append)
qed simp

lemma decode_encodeWritePayload:
  assumes "length (wp_Points p) < 2 ^ 28"
  shows "decodeWritePayload (encodeWritePayload p) = Inr p"
proof -
  let ?n = "of_nat (length (wp_Points p)) :: u32"
  let ?h = "put_le 8 (wp_SeriesID p) @ put_le 4 ?n"
  have n: "unat ?n = length (wp_Points p)" using assms by (simp add: unat_of_nat)
  have e: "encodeWritePayload p = ?h @ concat (map put_point ([] @ wp_Points p))"
    by (simp add: encodeWritePayload_def)
  have "decode_payload_loop (encodeWritePayload p) 0 (length (wp_Points p)) = Inr (wp_Points p)"
    using decode_payload_loop_encoded [of ?h "[]" "wp_Points p"] assms unfolding e by simp
  moreover have "slice (encodeWritePayload p) 0 8 = Inr (put_le 8 (wp_SeriesID p))"
    using slice_middle [of 0 "[]" 8 "put_le 8 (wp_SeriesID p)" "put_le 4 ?n @ concat (map put_point (wp_Points p))"]
    by (simp add: encodeWritePayload_def)
  moreover have "slice (encodeWritePayload p) 8 12 = Inr (put_le 4 ?n)"
    using slice_middle [of 8 "put_le 8 (wp_SeriesID p)" 12 "put_le 4 ?n" "concat (map put_point (wp_Points p))"]
    by (simp add: encodeWritePayload_def)
  ultimately show ?thesis by (simp add: decodeWritePayload_def n)
qed

subsection \<open>What the handlers do\<close>

lemma runtime_sorters:
  assumes "runtime_ok rt"
  shows "slice_sorter (rt_sortPoints rt) ts" and "slice_sorter (rt_sortSeries rt) SeriesID"
    and "slice_sorter (rt_sortEntries rt) (sint \<circ> SeriesCount)" and "range_order (rt_range rt)"
  using assms by (simp_all add: runtime_ok_def)

lemma write_buffer_of:
  "runtime_ok rt \<Longrightarrow> write_buffer (memtable_Insert (rt_sortPoints rt)) memtable_Get memtable_live"
  by (rule memtable_write_buffer) (rule runtime_sorters)

text \<open>The writes of a list that reach the log before the first error, that error, and the log afterwards.\<close>

fun log_writes :: "wal_writer \<Rightarrow> BatchWritePayload \<Rightarrow> BatchWritePayload \<times> go_error option \<times> wal_writer" where
  "log_writes w [] = ([], None, w)"
| "log_writes w (p # ps) =
     (case Append w (encodeWritePayload p) of
        (Some err, w) \<Rightarrow> ([], Some err, w)
      | (None, w) \<Rightarrow> (case log_writes w ps of (acc, err, w) \<Rightarrow> (p # acc, err, w)))"

abbreviation writes_for :: "u64 \<Rightarrow> BatchWritePayload \<Rightarrow> point list" where
  "writes_for sid ps \<equiv> points_for sid (map (\<lambda>p. (wp_SeriesID p, wp_Points p)) ps)"

definition points_total :: "BatchWritePayload \<Rightarrow> nat" where
  "points_total ps = sum_list (map (length \<circ> wp_Points) ps)"

definition count_write :: "go_error option \<Rightarrow> nat \<Rightarrow> Metrics \<Rightarrow> Metrics" where
  "count_write err n m =
     (case err of
        None \<Rightarrow> m\<lparr>PointsWritten := PointsWritten m + of_nat n, WritesOK := WritesOK m + 1\<rparr>
      | Some _ \<Rightarrow> m\<lparr>WritesError := WritesError m + 1\<rparr>)"

definition write_answer :: "go_error option \<Rightarrow> Response" where
  "write_answer err = (case err of None \<Rightarrow> RespNone | Some x \<Rightarrow> RespErr x)"

lemma batch_loop_spec:
  assumes "runtime_ok rt" and "memtable_live (e_active e)" and "log_writes (e_wal e) ps = (acc, err, w)"
  shows "\<exists>active. batch_loop rt n ps e = Inr (write_answer err,
      e\<lparr>e_wal := w, e_active := active, e_metrics := count_write err (n + points_total acc) (e_metrics e)\<rparr>) \<and>
    memtable_live active \<and> (\<forall>sid. mset (memtable_Get active sid) = mset (memtable_Get (e_active e) sid) + mset (writes_for sid acc))"
  using assms(2,3)
proof (induction ps arbitrary: e n acc)
  case Nil
  then show ?case
    by (intro exI [of _ "e_active e"]) (simp add: write_answer_def write_done_def count_write_def points_total_def)
next
  case (Cons p ps)
  note buf = write_buffer.ins_ok [OF write_buffer_of [OF assms(1)] Cons.prems(1), of "wp_SeriesID p" "wp_Points p"]
  obtain err1 w1 where app: "Append (e_wal e) (encodeWritePayload p) = (err1, w1)" by (metis prod.collapse)
  show ?case
  proof (cases err1)
    case (Some x)
    then have "acc = []" "err = Some x" "w = w1" using Cons.prems(2) app by auto
    then show ?thesis
      using Cons.prems(1) app Some
      by (intro exI [of _ "e_active e"]) (simp add: write_answer_def write_failed_def count_write_def)
  next
    case None
    obtain active1 pts where ins: "memtable_Insert (rt_sortPoints rt) (e_active e) (wp_SeriesID p) (wp_Points p) = Inr (active1, pts)"
      and live: "memtable_live active1"
      and get: "\<And>j. mset (memtable_Get active1 j) = mset (memtable_Get (e_active e) j) + (if j = wp_SeriesID p then mset (wp_Points p) else {#})"
      using buf by blast
    obtain acc1 where rest: "log_writes w1 ps = (acc1, err, w)" "acc = p # acc1"
      using Cons.prems(2) app None by (auto split: prod.splits)
    let ?e = "e\<lparr>e_wal := w1, e_active := active1\<rparr>"
    from Cons.IH [of ?e acc1 "n + length (wp_Points p)"] live rest(1) obtain active
      where IH: "batch_loop rt (n + length (wp_Points p)) ps ?e = Inr (write_answer err,
          ?e\<lparr>e_wal := w, e_active := active, e_metrics := count_write err (n + length (wp_Points p) + points_total acc1) (e_metrics e)\<rparr>)"
        "memtable_live active"
        "\<And>sid. mset (memtable_Get active sid) = mset (memtable_Get active1 sid) + mset (writes_for sid acc1)"
      by auto
    show ?thesis
      using IH get app None ins
      by (intro exI [of _ active]) (auto simp: rest(2) points_total_def add.assoc)
  qed
qed

text \<open>A single write is a batch of one.\<close>

lemma handleWrite_batch: "handleWrite rt (PWrite p) e = batch_loop rt 0 [p] e"
  by (simp add: handleWrite_def split: prod.splits option.splits)

text \<open>What a query finds of a series when no reader panics.\<close>

definition found_points :: "engine \<Rightarrow> os_state \<Rightarrow> string list \<Rightarrow> i64 \<Rightarrow> i64 \<Rightarrow> u64 \<Rightarrow> point list" where
  "found_points e st paths a b sid =
     Filter (Merge [GetPoints e sid, FrozenPoints e sid, Merge (filter (\<lambda>l. l \<noteq> []) (map (segment_points st sid) paths))]) a b"

lemma query_points_found:
  "\<forall>path\<in>set paths. reads_safely st path \<Longrightarrow> query_points e st paths a b sid = Inr (found_points e st paths a b sid)"
  by (simp add: query_points_def ReadSegments_def readSegments_loop_eq found_points_def GetPoints_def FrozenPoints_def Let_def)

lemma query_points_panics:
  "path \<in> set paths \<Longrightarrow> res_bind (OpenReader path st) (\<lambda>r. ReadSeries r sid) = Inl Panic \<Longrightarrow>
   query_points e st paths a b sid = Inl Panic"
  by (simp add: query_points_def ReadSegments_def readSegments_loop_panics Let_def)

lemma aggregate_loop_errors: "aggregate_loop f w bs pts = Inl err \<Longrightarrow> err = Panic"
  by (induction f w bs pts rule: aggregate_loop.induct) (auto simp: Let_def split: if_splits)

lemma query_loop_errors: "query_loop e st paths a b w sids = Inl err \<Longrightarrow> err = Panic"
proof (induction sids)
  case (Cons sid sids)
  have agg: "Aggregate pts w = Inl x \<Longrightarrow> x = Panic" for pts x
    by (auto simp: Aggregate_def Let_def res_bind_def split: if_splits sum.splits dest: aggregate_loop_errors)
  have pts: "query_points e st paths a b sid = Inl x \<Longrightarrow> x = Panic" for x
    by (auto simp: query_points_def ReadSegments_def Let_def res_bind_def split: sum.splits dest: readSegments_loop_errors)
  show ?case using Cons agg pts by (auto simp: res_bind_def split: sum.splits if_splits)
qed simp

text \<open>A query without buckets returns, unless it has to read a segment whose reader panics.\<close>

lemma handleQuery_raw:
  assumes "sint (Milliseconds (q_BucketWidth q)) \<le> 0"
    and "\<forall>path\<in>set (query_paths (e_manifest e) (UnixMilli (q_StartTime q)) (UnixMilli (q_EndTime q))). reads_safely st path"
  shows "handleQuery (PQuery q) e st = Inr (RespResults (map (\<lambda>sid. \<lparr>qr_SeriesID = sid, qr_Buckets = [],
      qr_Points = found_points e st (query_paths (e_manifest e) (UnixMilli (q_StartTime q)) (UnixMilli (q_EndTime q)))
        (UnixMilli (q_StartTime q)) (UnixMilli (q_EndTime q)) sid, qr_Err = None\<rparr>)
      (idx_Resolve (e_index e) (q_Metric q) (q_TagFilters q))), query_counted e)"
proof -
  have "query_loop e st paths a b (Milliseconds (q_BucketWidth q)) sids = Inr (map (\<lambda>sid. \<lparr>qr_SeriesID = sid, qr_Buckets = [],
      qr_Points = found_points e st paths a b sid, qr_Err = None\<rparr>) sids)"
    if "\<forall>path\<in>set paths. reads_safely st path" for paths a b sids
    using assms(1) by (induction sids) (simp_all add: query_points_found [OF that])
  from this [OF assms(2)] show ?thesis by (simp add: handleQuery_def Let_def)
qed

lemma handleQuery_panics:
  assumes "path \<in> set (query_paths (e_manifest e) (UnixMilli (q_StartTime q)) (UnixMilli (q_EndTime q)))"
    and "sid \<in> set (idx_Resolve (e_index e) (q_Metric q) (q_TagFilters q))"
    and "res_bind (OpenReader path st) (\<lambda>r. ReadSeries r sid) = Inl Panic"
  shows "handleQuery (PQuery q) e st = Inl Panic"
proof -
  have "\<exists>x. query_loop e st paths a b w sids = Inl x" if "path \<in> set paths" "sid \<in> set sids" for paths a b w sids
    using that(2)
  proof (induction sids)
    case (Cons i sids)
    show ?case
    proof (cases "i = sid")
      case True
      then show ?thesis using query_points_panics [OF that(1) assms(3)] by simp
    next
      case False
      then obtain x where "query_loop e st paths a b w sids = Inl x" using Cons by auto
      then show ?thesis by (auto simp: res_bind_def split: sum.splits)
    qed
  qed simp
  from this [OF assms(1,2)] obtain x where x: "query_loop e st (query_paths (e_manifest e) (UnixMilli (q_StartTime q)) (UnixMilli (q_EndTime q)))
      (UnixMilli (q_StartTime q)) (UnixMilli (q_EndTime q)) (Milliseconds (q_BucketWidth q))
      (idx_Resolve (e_index e) (q_Metric q) (q_TagFilters q)) = Inl x" by blast
  have "idx_Resolve (e_index e) (q_Metric q) (q_TagFilters q) \<noteq> []" using assms(2) by auto
  then show ?thesis using x query_loop_errors [OF x] by (simp add: handleQuery_def Let_def)
qed

lemma compaction_job_panics:
  assumes "compaction_job rt cands dir st = (Inl err, st')"
  shows "\<exists>c\<in>set cands. \<not> reads_safely st (Path c)"
proof -
  have "fst (Compact (rt_sortPoints rt) (rt_sortSeries rt) (rt_range rt) cands (compaction_output cands dir) st) = Inl Panic"
    using assms by (auto simp: compaction_job_def split: prod.splits sum.splits if_splits)
  then show ?thesis using Compact_panics by (metis prod.collapse)
qed

lemma maybeRotate_cases:
  obtains "maybeRotateMemtable e = (None, e)" "memtable_SizeBytes (e_active e) < e_memtableSize e"
  | f where "f = (e_active e)\<lparr>m_frozen := True\<rparr>" "maybeRotateMemtable e =
      (Some \<lparr>fa_table = f, fa_dir = e_dataDir e, fa_n = e_flushCount e, fa_walOff = word_of_int (wal_Offset (e_wal e))\<rparr>,
       e\<lparr>e_active := memtable_New, e_frozen := Some f, e_flushCount := e_flushCount e + 1\<rparr>)"
proof (cases "memtable_SizeBytes (e_active e) < e_memtableSize e")
  case False
  then show thesis using that(2) by (auto simp: maybeRotateMemtable_def memtable_Freeze_def Let_def)
qed (use that(1) in \<open>simp add: maybeRotateMemtable_def\<close>)

lemma flush_range_ok:
  assumes "\<forall>(sid, pts)\<in>set m. pts \<noteq> []"
  shows "\<exists>bs be. flush_range first a b m = Inr (bs, be)"
  using assms by (induction first a b m rule: flush_range.induct) auto

lemma memtable_wf_nonempty: "memtable_wf m \<Longrightarrow> \<forall>(sid, pts)\<in>set (m_series m). pts \<noteq> []"
  by (auto simp: memtable_wf_def series_sorted_def)

lemma flush_job_no_panic:
  assumes "runtime_ok rt" and "memtable_wf f"
  shows "fst (flush_job rt f dir n off st) \<noteq> Inl err"
proof -
  have "set (rt_range rt (m_series f)) = set (m_series f)"
    using range_order_facts(1) [OF runtime_sorters(4) [OF assms(1)]] by simp
  then obtain bs be where "flush_range True 0 0 (rt_range rt (m_series f)) = Inr (bs, be)"
    using flush_range_ok [of "rt_range rt (m_series f)" True 0 0] memtable_wf_nonempty [OF assms(2)] by auto
  then show ?thesis
    by (auto simp: flush_job_def memtable_GetAll_def Let_def split: sum.splits prod.splits option.splits)
qed

end
