(* ===== verification/Engine_Loop.thy ===== *)
theory Engine_Loop
  imports Engine
begin

text \<open>
  The engine at work: the loop of \<^verbatim>\<open>Run\<close>, the flush and compaction goroutines it starts, the clients
  that submit commands and the fsync goroutine of the log.  \<open>exec\<close> gives the effect of each event, \<open>run\<close>
  the runs.  A goroutine's file operations are one event: the code gives it files that no other
  goroutine writes.  The insertion of a series into the index by a request is one event as well, which the
  code does not ensure: \<^verbatim>\<open>index.Index\<close> has no lock, and concurrent accesses to its maps make the Go runtime
  abort the process.  The lemmas show that, apart from that, only the reading of a segment panics.
\<close>

subsection \<open>System\<close>

record system =
  s_engine :: engine
  s_os :: os_state
  s_flushJobs :: "flush_args list"
  s_compactJobs :: "(SegmentEntry list \<times> string) list"
  s_answers :: "Response list"
  s_running :: bool

text \<open>An event can complete, end the process by a panic, or find its goroutine blocked.\<close>

datatype 'a outcome = Completes 'a | Panics go_error | Blocks

definition reply :: "Response \<Rightarrow> system \<Rightarrow> system" where
  "reply r s = s\<lparr>s_answers := s_answers s @ [r]\<rparr>"

definition answer :: "system \<Rightarrow> (Response \<times> engine) res \<Rightarrow> system outcome" where
  "answer s res = (case res of Inl err \<Rightarrow> Panics err | Inr (r, e) \<Rightarrow> Completes (reply r (s\<lparr>s_engine := e\<rparr>)))"

definition dispatch :: "runtime \<Rightarrow> Command \<Rightarrow> system \<Rightarrow> system outcome" where
  "dispatch rt cmd s =
     (let e = s_engine s in
      case Kind cmd of
        WriteCmd \<Rightarrow> answer s (handleWrite rt (Payload cmd) e)
      | BatchWriteCmd \<Rightarrow> answer s (handleBatchWrite rt (Payload cmd) e)
      | QueryCmd \<Rightarrow> answer s (handleQuery (Payload cmd) e (s_os s))
      | FlushDoneCmd \<Rightarrow>
          (case Payload cmd of
             PFlushDone p \<Rightarrow>
               if length (e_flushDoneCh e) < doneCh_cap
               then Completes (reply RespNone (s\<lparr>s_engine := e\<lparr>e_flushDoneCh := e_flushDoneCh e @ [p]\<rparr>\<rparr>))
               else Blocks
           | _ \<Rightarrow> Panics Panic)
      | CompactionCmd \<Rightarrow>
          (case handleCompaction rt e of
             (r, None) \<Rightarrow> Completes (reply r s)
           | (r, Some job) \<Rightarrow> Completes (reply r (s\<lparr>s_compactJobs := s_compactJobs s @ [job]\<rparr>)))
      | RetentionCmd \<Rightarrow>
          (case handleRetention (Payload cmd) e (s_os s) of
             Inl err \<Rightarrow> Panics err
           | Inr (r, e, st) \<Rightarrow> Completes (reply r (s\<lparr>s_engine := e, s_os := st\<rparr>)))
      | _ \<Rightarrow> Completes (reply (RespErr ErrUnknownCommand) s))"

definition active_at :: "int \<Rightarrow> engine \<Rightarrow> engine" where
  "active_at now e = e\<lparr>e_lastActivity := now\<rparr>"

text \<open>The five cases of the \<^verbatim>\<open>select\<close> in \<^verbatim>\<open>Run\<close>; \<open>None\<close> when the case is not ready.\<close>

definition run_command :: "runtime \<Rightarrow> int \<Rightarrow> system \<Rightarrow> system outcome option" where
  "run_command rt now s =
     (case e_cmdCh (s_engine s) of
        [] \<Rightarrow> None
      | cmd # cmds \<Rightarrow> Some (dispatch rt cmd (s\<lparr>s_engine := active_at now (s_engine s)\<lparr>e_cmdCh := cmds\<rparr>\<rparr>)))"

definition run_tick :: "int \<Rightarrow> system \<Rightarrow> system option" where
  "run_tick now s =
     (if \<not> e_ticking (s_engine s) then None
      else case maybeRotateMemtable (active_at now (s_engine s)) of
        (None, e) \<Rightarrow> Some (s\<lparr>s_engine := e\<rparr>)
      | (Some job, e) \<Rightarrow> Some (s\<lparr>s_engine := e, s_flushJobs := s_flushJobs s @ [job]\<rparr>))"

definition run_flush_done :: "int \<Rightarrow> system \<Rightarrow> system option" where
  "run_flush_done now s =
     (case e_flushDoneCh (s_engine s) of
        [] \<Rightarrow> None
      | res # rest \<Rightarrow>
          (case applyFlushResult res (active_at now (s_engine s)\<lparr>e_flushDoneCh := rest\<rparr>) (s_os s) of
             (e, st) \<Rightarrow> Some (s\<lparr>s_engine := e, s_os := st\<rparr>)))"

definition run_compaction_done :: "int \<Rightarrow> system \<Rightarrow> system option" where
  "run_compaction_done now s =
     (case e_compactionDoneCh (s_engine s) of
        [] \<Rightarrow> None
      | res # rest \<Rightarrow>
          (case applyCompactionResult res (active_at now (s_engine s)\<lparr>e_compactionDoneCh := rest\<rparr>) (s_os s) of
             (e, st) \<Rightarrow> Some (s\<lparr>s_engine := e, s_os := st\<rparr>)))"

definition run_shutdown :: "system \<Rightarrow> system" where
  "run_shutdown s = s\<lparr>s_engine := engine_shutdown (s_engine s), s_running := False\<rparr>"

text \<open>The goroutines; a send on a channel that is full waits.\<close>

definition run_flush_job :: "runtime \<Rightarrow> nat \<Rightarrow> system \<Rightarrow> system outcome option" where
  "run_flush_job rt i s =
     (if i < length (s_flushJobs s) \<and> length (e_flushDoneCh (s_engine s)) < doneCh_cap then
        let a = s_flushJobs s ! i in
        (case flush_job rt (fa_table a) (fa_dir a) (fa_n a) (fa_walOff a) (s_os s) of
           (Inl err, st) \<Rightarrow> Some (Panics err)
         | (Inr res, st) \<Rightarrow>
             Some (Completes (s\<lparr>s_os := st, s_flushJobs := take i (s_flushJobs s) @ drop (Suc i) (s_flushJobs s),
               s_engine := (s_engine s)\<lparr>e_flushDoneCh := e_flushDoneCh (s_engine s) @ [res]\<rparr>\<rparr>)))
      else None)"

definition run_compact_job :: "runtime \<Rightarrow> nat \<Rightarrow> system \<Rightarrow> system outcome option" where
  "run_compact_job rt i s =
     (if i < length (s_compactJobs s) \<and> length (e_compactionDoneCh (s_engine s)) < doneCh_cap then
        (case s_compactJobs s ! i of (cands, dir) \<Rightarrow>
           (case compaction_job rt cands dir (s_os s) of
              (Inl err, st) \<Rightarrow> Some (Panics err)
            | (Inr res, st) \<Rightarrow>
                Some (Completes (s\<lparr>s_os := st, s_compactJobs := take i (s_compactJobs s) @ drop (Suc i) (s_compactJobs s),
                  s_engine := (s_engine s)\<lparr>e_compactionDoneCh := e_compactionDoneCh (s_engine s) @ [res]\<rparr>\<rparr>))))
      else None)"

definition run_fsync :: "system \<Rightarrow> system" where
  "run_fsync s = s\<lparr>s_engine := (s_engine s)\<lparr>e_wal := snd (fsyncLoop_tick (e_wal (s_engine s)))\<rparr>\<rparr>"

text \<open>
  Events.  \<open>Device\<close> is the environment: how many bytes the devices of the files and of the log still
  take, and whether a sync of the log succeeds.  \<open>IndexInsert\<close> is another goroutine that enters a series
  into the index that it shares with the engine, without a lock in the code: the event stands for an
  insertion that no other access to the index overlaps.
\<close>

datatype event =
    Client Command
  | TakeCommand int
  | Tick int
  | FlushDone int
  | CompactionDone int
  | Shutdown
  | FlushJob nat
  | CompactJob nat
  | Fsync
  | Device nat nat bool
  | IndexInsert u64 string "(string, string) gomap"

definition set_device :: "nat \<Rightarrow> nat \<Rightarrow> bool \<Rightarrow> system \<Rightarrow> system" where
  "set_device free walFree syncok s =
     s\<lparr>s_os := (s_os s)\<lparr>o_free := free\<rparr>,
       s_engine := (s_engine s)\<lparr>e_wal := (e_wal (s_engine s))\<lparr>w_file :=
         (w_file (e_wal (s_engine s)))\<lparr>f_free := walFree, f_syncok := syncok\<rparr>\<rparr>\<rparr>\<rparr>"

definition index_series :: "u64 \<Rightarrow> string \<Rightarrow> (string, string) gomap \<Rightarrow> system \<Rightarrow> system" where
  "index_series sid metric tags s =
     s\<lparr>s_engine := SetIndex (idx_Insert (e_index (s_engine s)) sid metric tags) (s_engine s)\<rparr>"

definition from_loop :: "event \<Rightarrow> bool" where
  "from_loop ev = (case ev of TakeCommand _ \<Rightarrow> True | Tick _ \<Rightarrow> True | FlushDone _ \<Rightarrow> True
     | CompactionDone _ \<Rightarrow> True | Shutdown \<Rightarrow> True | _ \<Rightarrow> False)"

text \<open>What an event does; \<open>None\<close> if it cannot happen.\<close>

definition exec :: "runtime \<Rightarrow> event \<Rightarrow> system \<Rightarrow> system outcome option" where
  "exec rt ev s =
     (if from_loop ev \<and> \<not> s_running s then None
      else case ev of
        Client cmd \<Rightarrow> Some (Completes (s\<lparr>s_engine := snd (Submit cmd (s_engine s))\<rparr>))
      | TakeCommand now \<Rightarrow> run_command rt now s
      | Tick now \<Rightarrow> map_option Completes (run_tick now s)
      | FlushDone now \<Rightarrow> map_option Completes (run_flush_done now s)
      | CompactionDone now \<Rightarrow> map_option Completes (run_compaction_done now s)
      | Shutdown \<Rightarrow> Some (Completes (run_shutdown s))
      | FlushJob i \<Rightarrow> run_flush_job rt i s
      | CompactJob i \<Rightarrow> run_compact_job rt i s
      | Fsync \<Rightarrow> Some (Completes (run_fsync s))
      | Device free walFree syncok \<Rightarrow> Some (Completes (set_device free walFree syncok s))
      | IndexInsert sid metric tags \<Rightarrow> Some (Completes (index_series sid metric tags s)))"

inductive run :: "runtime \<Rightarrow> system \<Rightarrow> event list \<Rightarrow> system \<Rightarrow> bool" for rt where
  run_Nil: "run rt s [] s"
| run_snoc: "run rt s evs s' \<Longrightarrow> exec rt ev s' = Some (Completes s'') \<Longrightarrow> run rt s (evs @ [ev]) s''"

inductive_cases run_NilE: "run rt s [] s'"
inductive_cases run_snocE: "run rt s (evs @ [ev]) s'"

text \<open>A system whose engine has just been created.\<close>

definition started :: "engine \<Rightarrow> os_state \<Rightarrow> system" where
  "started e st = \<lparr>s_engine = e, s_os = st, s_flushJobs = [], s_compactJobs = [], s_answers = [], s_running = True\<rparr>"

subsection \<open>What panics\<close>

text \<open>The payload has the type that the handler asserts; and the query asks for no buckets.\<close>

definition command_typed :: "Command \<Rightarrow> bool" where
  "command_typed cmd =
     (case (Kind cmd, Payload cmd) of
        (WriteCmd, PWrite _) \<Rightarrow> True
      | (BatchWriteCmd, PBatch _) \<Rightarrow> True
      | (QueryCmd, PQuery _) \<Rightarrow> True
      | (FlushDoneCmd, PFlushDone _) \<Rightarrow> True
      | (RetentionCmd, PRetention _) \<Rightarrow> True
      | (CompactionCmd, _) \<Rightarrow> True
      | (CompactionDoneCmd, _) \<Rightarrow> True
      | (ShutdownCmd, _) \<Rightarrow> True
      | _ \<Rightarrow> False)"

definition command_ok :: "Command \<Rightarrow> bool" where
  "command_ok cmd \<longleftrightarrow> command_typed cmd \<and>
     (case Payload cmd of PQuery q \<Rightarrow> Kind cmd = QueryCmd \<longrightarrow> sint (Milliseconds (q_BucketWidth q)) \<le> 0 | _ \<Rightarrow> True)"

definition event_ok :: "event \<Rightarrow> bool" where
  "event_ok ev = (case ev of Client cmd \<Rightarrow> command_ok cmd | _ \<Rightarrow> True)"

definition system_wf :: "system \<Rightarrow> bool" where
  "system_wf s \<longleftrightarrow> memtable_live (e_active (s_engine s)) \<and> (\<forall>a\<in>set (s_flushJobs s). memtable_wf (fa_table a)) \<and>
     (\<forall>cmd\<in>set (e_cmdCh (s_engine s)). command_ok cmd)"

text \<open>The parts of the system that an event of a given kind touches.\<close>

lemma applyFlushResult_keeps:
  assumes "applyFlushResult res e st = (e', st')"
  shows "e_active e' = e_active e" and "e_cmdCh e' = e_cmdCh e" and "e_wal e' = e_wal e" and "e_flushDoneCh e' = e_flushDoneCh e"
    and "e_compactionDoneCh e' = e_compactionDoneCh e" and "e_frozen e' = None" and "e_flushCount e' = e_flushCount e"
    and "e_dataDir e' = e_dataDir e" and "e_index e' = e_index e"
  using assms by (auto simp: applyFlushResult_def Let_def split: if_splits prod.splits)

lemma applyCompactionResult_keeps:
  assumes "applyCompactionResult res e st = (e', st')"
  shows "e_active e' = e_active e" and "e_cmdCh e' = e_cmdCh e" and "e_wal e' = e_wal e" and "e_flushDoneCh e' = e_flushDoneCh e"
    and "e_compactionDoneCh e' = e_compactionDoneCh e" and "e_frozen e' = e_frozen e" and "e_flushCount e' = e_flushCount e"
    and "e_dataDir e' = e_dataDir e" and "e_index e' = e_index e"
  using assms by (auto simp: applyCompactionResult_def Let_def split: if_splits prod.splits option.splits)

lemma handleRetention_keeps:
  assumes "handleRetention pl e st = Inr (r, e', st')"
  shows "e_active e' = e_active e" and "e_cmdCh e' = e_cmdCh e"
  using assms by (auto simp: handleRetention_def Let_def split: payload.splits if_splits prod.splits option.splits)

lemma batch_loop_live:
  assumes "runtime_ok rt" and "memtable_live (e_active e)"
  shows "\<exists>r e'. batch_loop rt n ps e = Inr (r, e') \<and> memtable_live (e_active e') \<and> e_cmdCh e' = e_cmdCh e"
proof -
  obtain acc err w where "log_writes (e_wal e) ps = (acc, err, w)" by (metis prod_cases3)
  from batch_loop_spec [OF assms this] show ?thesis by fastforce
qed

lemma handleQuery_keeps: "handleQuery pl e st = Inr (r, e') \<Longrightarrow> e' = query_counted e"
  by (cases pl) (auto simp: handleQuery_def Let_def res_bind_eq_Inr split: if_splits)

lemma query_counted_keeps: "e_active (query_counted e) = e_active e" "e_cmdCh (query_counted e) = e_cmdCh e"
  by (simp_all add: query_counted_def)

lemma handleRetention_returns: "handleRetention (PRetention p) e st \<noteq> Inl x"
  by (auto simp: handleRetention_def Let_def split: prod.splits option.splits)

lemma dispatch_wf:
  assumes "runtime_ok rt" and "system_wf s" and "command_ok cmd" and "dispatch rt cmd s = Completes s'"
  shows "system_wf s'"
proof -
  have live: "memtable_live (e_active (s_engine s))" using assms(2) by (simp add: system_wf_def)
  obtain k pl where cmd: "cmd = \<lparr>Kind = k, Payload = pl\<rparr>" by (cases cmd) simp
  note typed = assms(3) [unfolded command_ok_def command_typed_def cmd]
  show ?thesis
  proof (cases k)
    case WriteCmd
    then obtain p where "pl = PWrite p" using typed by (auto split: payload.splits)
    then show ?thesis
      using batch_loop_live [OF assms(1) live, of 0 "[p]"] assms(2,4) WriteCmd
      by (auto simp: cmd dispatch_def Let_def handleWrite_batch answer_def reply_def system_wf_def)
  next
    case BatchWriteCmd
    then obtain ps where "pl = PBatch ps" using typed by (auto split: payload.splits)
    then show ?thesis
      using batch_loop_live [OF assms(1) live, of 0 ps] assms(2,4) BatchWriteCmd
      by (auto simp: cmd dispatch_def Let_def handleBatchWrite_def answer_def reply_def system_wf_def)
  next
    case QueryCmd
    then show ?thesis
      using assms(2,4) query_counted_keeps
      by (auto simp: cmd dispatch_def Let_def answer_def reply_def system_wf_def split: sum.splits dest!: handleQuery_keeps)
  next
    case RetentionCmd
    then show ?thesis
      using assms(2,4) handleRetention_keeps
      by (auto simp: cmd dispatch_def Let_def reply_def system_wf_def split: sum.splits prod.splits)
  next
    case FlushDoneCmd
    then show ?thesis
      using assms(2,4) by (auto simp: cmd dispatch_def Let_def reply_def system_wf_def split: payload.splits if_splits)
  next
    case CompactionCmd
    then show ?thesis
      using assms(2,4) by (auto simp: cmd dispatch_def Let_def reply_def system_wf_def split: prod.splits option.splits)
  qed (use assms(2,4) in \<open>auto simp: cmd dispatch_def Let_def reply_def system_wf_def\<close>)
qed

text \<open>A command of the right type without buckets panics only when a query has to read a segment that does.\<close>

lemma dispatch_panics:
  assumes "runtime_ok rt" and "system_wf s" and "command_ok cmd" and "dispatch rt cmd s = Panics err"
  shows "Kind cmd = QueryCmd \<and> (\<exists>en\<in>set (Segments (e_manifest (s_engine s))). \<not> reads_safely (s_os s) (Path en))"
proof -
  have live: "memtable_live (e_active (s_engine s))" using assms(2) by (simp add: system_wf_def)
  obtain k pl where cmd: "cmd = \<lparr>Kind = k, Payload = pl\<rparr>" by (cases cmd) simp
  note typed = assms(3) [unfolded command_ok_def command_typed_def cmd]
  show ?thesis
  proof (cases k)
    case WriteCmd
    then obtain p where "pl = PWrite p" using typed by (auto split: payload.splits)
    then show ?thesis
      using batch_loop_live [OF assms(1) live, of 0 "[p]"] assms(4) WriteCmd
      by (auto simp: cmd dispatch_def Let_def handleWrite_batch answer_def)
  next
    case BatchWriteCmd
    then obtain ps where "pl = PBatch ps" using typed by (auto split: payload.splits)
    then show ?thesis
      using batch_loop_live [OF assms(1) live, of 0 ps] assms(4) BatchWriteCmd
      by (auto simp: cmd dispatch_def Let_def handleBatchWrite_def answer_def)
  next
    case QueryCmd
    then obtain q where q: "pl = PQuery q" "sint (Milliseconds (q_BucketWidth q)) \<le> 0"
      using typed by (auto split: payload.splits)
    show ?thesis
    proof (rule ccontr)
      assume "\<not> ?thesis"
      then have "\<forall>path\<in>set (query_paths (e_manifest (s_engine s)) a b). reads_safely (s_os s) path" for a b
        using QueryCmd by (auto simp: cmd query_paths_def man_List_def)
      then show False
        using handleQuery_raw [OF q(2)] assms(4) QueryCmd by (simp add: cmd q(1) dispatch_def Let_def answer_def)
    qed
  next
    case RetentionCmd
    then obtain p where "pl = PRetention p" using typed by (auto split: payload.splits)
    then show ?thesis
      using assms(4) RetentionCmd handleRetention_returns
      by (auto simp: cmd dispatch_def Let_def split: sum.splits prod.splits)
  next
    case FlushDoneCmd
    then show ?thesis
      using assms(4) typed by (auto simp: cmd dispatch_def Let_def split: payload.splits if_splits)
  next
    case CompactionCmd
    then show ?thesis
      using assms(4) by (auto simp: cmd dispatch_def Let_def split: prod.splits option.splits)
  qed (use assms(4) in \<open>auto simp: cmd dispatch_def Let_def\<close>)
qed

lemma run_command_takes:
  assumes "system_wf s" and "run_command rt now s = Some out"
  obtains cmd cmds where "e_cmdCh (s_engine s) = cmd # cmds" and "command_ok cmd"
    and "out = dispatch rt cmd (s\<lparr>s_engine := active_at now (s_engine s)\<lparr>e_cmdCh := cmds\<rparr>\<rparr>)"
    and "system_wf (s\<lparr>s_engine := active_at now (s_engine s)\<lparr>e_cmdCh := cmds\<rparr>\<rparr>)"
proof -
  obtain cmd cmds where ch: "e_cmdCh (s_engine s) = cmd # cmds" using assms(2) by (auto simp: run_command_def split: list.splits)
  have "system_wf (s\<lparr>s_engine := active_at now (s_engine s)\<lparr>e_cmdCh := cmds\<rparr>\<rparr>)" "command_ok cmd"
    using assms(1) ch by (simp_all add: system_wf_def active_at_def)
  then show thesis using that ch assms(2) by (simp add: run_command_def)
qed

lemma run_tick_wf:
  assumes "system_wf s" and "run_tick now s = Some s'"
  shows "system_wf s'"
proof (cases rule: maybeRotate_cases [of "active_at now (s_engine s)"])
  case 1
  then show ?thesis using assms by (auto simp: run_tick_def system_wf_def active_at_def split: if_splits)
next
  case (2 f)
  have "memtable_wf f" using assms(1) 2(1) by (simp add: system_wf_def memtable_live_def memtable_wf_def active_at_def)
  moreover have "memtable_live memtable_New" by (simp add: memtable_live_def) (simp add: memtable_New_def)
  ultimately show ?thesis
    using assms unfolding run_tick_def 2(2) by (auto simp: system_wf_def active_at_def split: if_splits)
qed

lemma run_flush_job_wf:
  assumes "runtime_ok rt" and "system_wf s" and "run_flush_job rt i s = Some out"
  shows "out \<noteq> Panics err \<and> (out = Completes s' \<longrightarrow> system_wf s')"
proof -
  let ?a = "s_flushJobs s ! i"
  have i: "i < length (s_flushJobs s)" "length (e_flushDoneCh (s_engine s)) < doneCh_cap"
    using assms(3) by (auto simp: run_flush_job_def split: if_splits)
  obtain x st where job: "flush_job rt (fa_table ?a) (fa_dir ?a) (fa_n ?a) (fa_walOff ?a) (s_os s) = (x, st)" by (metis prod.collapse)
  have "memtable_wf (fa_table ?a)" using assms(2) nth_mem [OF i(1)] by (simp add: system_wf_def)
  then obtain res where "x = Inr res"
    using flush_job_no_panic [OF assms(1)] job by (metis fst_conv sum.exhaust)
  then have out: "out = Completes (s\<lparr>s_os := st, s_flushJobs := take i (s_flushJobs s) @ drop (Suc i) (s_flushJobs s),
      s_engine := (s_engine s)\<lparr>e_flushDoneCh := e_flushDoneCh (s_engine s) @ [res]\<rparr>\<rparr>)"
    using assms(3) i job by (simp add: run_flush_job_def Let_def)
  show ?thesis using assms(2) by (auto simp: out system_wf_def dest!: in_set_takeD in_set_dropD)
qed

lemma exec_wf:
  assumes "runtime_ok rt" and "system_wf s" and "event_ok ev" and "exec rt ev s = Some (Completes s')"
  shows "system_wf s'"
proof (cases ev)
  case (Client cmd)
  then show ?thesis
    using assms by (cases "length (e_cmdCh (s_engine s)) < cmdCh_cap")
      (auto simp: exec_def from_loop_def event_ok_def Submit_def system_wf_def)
next
  case (TakeCommand now)
  then have "run_command rt now s = Some (Completes s')" using assms(4) by (auto simp: exec_def split: if_splits)
  then show ?thesis by (rule run_command_takes [OF assms(2)]) (use dispatch_wf [OF assms(1)] in metis)
next
  case (Tick now)
  then show ?thesis using run_tick_wf [OF assms(2)] assms(4) by (auto simp: exec_def split: if_splits)
next
  case (FlushDone now)
  then show ?thesis
    using assms(2,4) applyFlushResult_keeps
    by (auto simp: exec_def run_flush_done_def system_wf_def active_at_def split: if_splits list.splits prod.splits)
next
  case (CompactionDone now)
  then show ?thesis
    using assms(2,4) applyCompactionResult_keeps
    by (auto simp: exec_def run_compaction_done_def system_wf_def active_at_def split: if_splits list.splits prod.splits)
next
  case (FlushJob i)
  then show ?thesis using run_flush_job_wf [OF assms(1,2)] assms(4) by (auto simp: exec_def split: if_splits)
next
  case (CompactJob i)
  then show ?thesis
    using assms(2,4) by (auto simp: exec_def run_compact_job_def system_wf_def split: if_splits prod.splits sum.splits)
qed (use assms(2,4) in \<open>auto simp: exec_def run_shutdown_def engine_shutdown_def run_fsync_def set_device_def index_series_def SetIndex_def system_wf_def split: if_splits\<close>)

text \<open>The only panics: a query over a listed segment, or a compaction over an input, that cannot be read without one.\<close>

lemma exec_panics:
  assumes "runtime_ok rt" and "system_wf s" and "exec rt ev s = Some (Panics err)"
  shows "(\<exists>now. ev = TakeCommand now) \<and> (\<exists>en\<in>set (Segments (e_manifest (s_engine s))). \<not> reads_safely (s_os s) (Path en)) \<or>
    (\<exists>i. ev = CompactJob i \<and> i < length (s_compactJobs s) \<and> (\<exists>en\<in>set (fst (s_compactJobs s ! i)). \<not> reads_safely (s_os s) (Path en)))"
proof (cases ev)
  case (TakeCommand now)
  then have r: "run_command rt now s = Some (Panics err)" using assms(3) by (auto simp: exec_def split: if_splits)
  have "\<exists>en\<in>set (Segments (e_manifest (s_engine s))). \<not> reads_safely (s_os s) (Path en)"
  proof (rule run_command_takes [OF assms(2) r])
    fix cmd cmds assume "command_ok cmd" and p: "Panics err = dispatch rt cmd (s\<lparr>s_engine := active_at now (s_engine s)\<lparr>e_cmdCh := cmds\<rparr>\<rparr>)"
      and "system_wf (s\<lparr>s_engine := active_at now (s_engine s)\<lparr>e_cmdCh := cmds\<rparr>\<rparr>)"
    from dispatch_panics [OF assms(1) this(3,1) p [symmetric]] show ?thesis by (simp add: active_at_def)
  qed
  then show ?thesis using TakeCommand by simp
next
  case (FlushJob i)
  then have "run_flush_job rt i s = Some (Panics err)" using assms(3) by (auto simp: exec_def split: if_splits)
  from run_flush_job_wf [OF assms(1,2) this] show ?thesis by blast
next
  case (CompactJob i)
  then have r: "run_compact_job rt i s = Some (Panics err)" using assms(3) by (auto simp: exec_def split: if_splits)
  obtain cands dir where job: "s_compactJobs s ! i = (cands, dir)" by (metis prod.collapse)
  have "i < length (s_compactJobs s)" "\<exists>st. compaction_job rt cands dir (s_os s) = (Inl err, st)"
    using r job by (auto simp: run_compact_job_def split: if_splits prod.splits sum.splits)
  then show ?thesis using compaction_job_panics CompactJob job by fastforce
qed (use assms(3) in \<open>auto simp: exec_def split: if_splits\<close>)

lemma run_wf:
  assumes "run rt s evs s'" and "runtime_ok rt" and "system_wf s" and "\<forall>ev\<in>set evs. event_ok ev"
  shows "system_wf s'"
  using assms(1,3,4) by (induction rule: run.induct) (use exec_wf [OF assms(2)] in auto)

lemma engine_New_fields:
  assumes "engine_New walFile st now cfg = Inr e"
  shows "e_active e = memtable_New" and "e_frozen e = None" and "e_cmdCh e = []" and "e_flushDoneCh e = []"
    and "e_compactionDoneCh e = []" and "e_flushCount e = 0" and "man_Load (cfg_ManifestPath cfg) st = Inr (e_manifest e)"
    and "NewWriter walFile [WithFsyncInterval (10 * 1000000), WithByteThreshold (2 ^ 20)] = Inr (e_wal e)"
  using assms unfolding engine_New_def res_bind_eq_Inr by (auto simp: Let_def split: if_splits)

lemma started_wf:
  assumes "engine_New walFile st now cfg = Inr e"
  shows "system_wf (started e st)"
  using engine_New_fields(1,3) [OF assms]
  by (simp add: system_wf_def started_def memtable_live_def) (simp add: memtable_New_def)

definition ex_rt :: runtime where
  "ex_rt = \<lparr>rt_sortPoints = insertionSort ts, rt_sortSeries = insertionSort SeriesID,
     rt_sortEntries = insertionSort (sint \<circ> SeriesCount), rt_range = (\<lambda>m. m)\<rparr>"

lemma ex_rt_ok: "runtime_ok ex_rt"
  by (simp add: runtime_ok_def ex_rt_def insertionSort_sorter range_order_def)

definition ex_cfg :: EngineConfig where
  "ex_cfg = \<lparr>cfg_WALPath = ''d/w'', cfg_DataDir = ''d'', cfg_ManifestPath = ''d/m'', cfg_MemtableSize = 16,
     cfg_FlushInterval = 1\<rparr>"

definition ex_engine :: engine where
  "ex_engine = (case engine_New (Inr (w_file ex_writer)) ex_disk 0 ex_cfg of Inr e \<Rightarrow> e)"

lemma ex_engine_new: "engine_New (Inr (w_file ex_writer)) ex_disk 0 ex_cfg = Inr ex_engine"
  by (simp add: ex_engine_def engine_New_def NewWriter_def Let_def man_Load_def os_ReadFile_def ex_disk_def ex_cfg_def)

definition ex_write :: Command where
  "ex_write = \<lparr>Kind = WriteCmd, Payload = PWrite \<lparr>wp_SeriesID = 7, wp_Points = [\<lparr>Timestamp = 5, Value = 0\<rparr>]\<rparr>\<rparr>"

end
