(* ===== verification/Engine_Store.thy ===== *)
theory Engine_Store
  imports Engine_Loop
begin

text \<open>
  What the engine stores.  In a run without failures of the devices, in which a flush ends before the
  next rotation and a compaction before the next one, the points of the accepted writes are all in the
  live memtable, the frozen one or the listed segments, each once; the segments hold those of the
  records before the manifest's offset into the log, the memtables those after it.  The invariant
  \<open>stored\<close> says so, and that the listed segments can be read; it is kept by every event of such a run.
\<close>

subsection \<open>Events that touch some files only\<close>

definition touches :: "string set \<Rightarrow> os_state \<Rightarrow> os_state \<Rightarrow> bool" where
  "touches P st st' \<longleftrightarrow> o_denied st' = o_denied st \<and> (\<forall>p. p \<notin> P \<longrightarrow> o_files st' p = o_files st p)"

lemma touches_refl [simp]: "touches P st st"
  by (simp add: touches_def)

lemma touches_trans: "touches P st st1 \<Longrightarrow> touches P st1 st2 \<Longrightarrow> touches P st st2"
  by (simp add: touches_def)

lemma touches_mono: "touches P st st' \<Longrightarrow> P \<subseteq> Q \<Longrightarrow> touches Q st st'"
  by (auto simp: touches_def)

lemma touches_free [simp]: "touches P st (st\<lparr>o_free := n\<rparr>)"
  by (simp add: touches_def)

lemma OpenReader_touches: "touches P st st' \<Longrightarrow> p \<notin> P \<Longrightarrow> OpenReader p st' = OpenReader p st"
proof -
  assume "touches P st st'" and "p \<notin> P"
  then have "os_ReadFile p st' = os_ReadFile p st" by (simp add: touches_def os_ReadFile_def)
  then show ?thesis by (simp add: OpenReader_def)
qed

lemma segment_points_touches: "touches P st st' \<Longrightarrow> p \<notin> P \<Longrightarrow> segment_points st' sid p = segment_points st sid p"
  using OpenReader_touches [of P st st' p] by (simp add: segment_points_def)

lemma reads_safely_touches: "touches P st st' \<Longrightarrow> p \<notin> P \<Longrightarrow> reads_safely st p \<Longrightarrow> reads_safely st' p"
  using OpenReader_touches [of P st st' p] by (simp add: reads_safely_def)

lemma man_Load_touches: "touches P st st' \<Longrightarrow> p \<notin> P \<Longrightarrow> man_Load p st' = man_Load p st"
  unfolding touches_def by (rule man_Load_cong) auto

lemma all_points_touches:
  "touches P st st' \<Longrightarrow> Path ` set es \<inter> P = {} \<Longrightarrow> all_points st' es sid = all_points st es sid"
proof -
  assume t: "touches P st st'" and d: "Path ` set es \<inter> P = {}"
  have "segment_points st' sid (Path e) = segment_points st sid (Path e)" if "e \<in> set es" for e
    using segment_points_touches [OF t] d that by blast
  then show ?thesis by (simp add: all_points_def cong: map_cong)
qed

lemma os_Remove_touches: "touches {p} st (snd (os_Remove p st))"
  by (simp add: touches_def os_Remove_file)

lemma remove_files_touches: "touches (set ps) st (remove_files ps st)"
proof (induction ps arbitrary: st)
  case (Cons p ps)
  have a: "touches (set (p # ps)) st (snd (os_Remove p st))"
    by (rule touches_mono [OF os_Remove_touches]) simp
  have b: "touches (set (p # ps)) (snd (os_Remove p st)) (remove_files ps (snd (os_Remove p st)))"
    by (rule touches_mono [OF Cons.IH]) auto
  show ?case using touches_trans [OF a b] by simp
qed simp

abbreviation manifest_files :: "manifest \<Rightarrow> string set" where
  "manifest_files m \<equiv> {man_path m, man_tmpPath (man_path m)}"

lemma man_save_touches: "man_save m st = (err, st') \<Longrightarrow> touches (manifest_files m) st st'"
proof (cases err)
  case None
  assume "man_save m st = (err, st')"
  then obtain st1 where w: "os_WriteFile (man_tmpPath (man_path m)) (man_Marshal m) st = (None, st1)"
    and r: "os_Rename (man_tmpPath (man_path m)) (man_path m) st1 = (None, st')"
    using None by (auto simp: man_save_def Let_def split: prod.splits option.splits)
  have "touches (manifest_files m) st st1" using os_WriteFile_other [OF w]
    using w by (auto simp: touches_def os_WriteFile_def os_Create_def os_Write_def Let_def split: if_splits)
  moreover have "touches (manifest_files m) st1 st'"
    using r by (auto simp: touches_def os_Rename_def split: if_splits option.splits)
  ultimately show ?thesis by (rule touches_trans)
next
  case (Some e)
  assume "man_save m st = (err, st')"
  then have F: "o_files st' p = o_files st p \<and> o_denied st' = o_denied st" if "p \<noteq> man_tmpPath (man_path m)" for p
    using man_save_failed [of m st e st' p] Some that by simp
  have "\<exists>p. p \<noteq> man_tmpPath (man_path m)" by (metis list.distinct(1))
  then show ?thesis using F by (auto simp: touches_def)
qed

lemma man_Add_save: "man_Add en m st = (err, m', st') \<longleftrightarrow> m' = m\<lparr>Segments := Segments m @ [en]\<rparr> \<and> man_save m' st = (err, st')"
  by (auto simp: man_Add_def Let_def split: prod.splits)

lemma man_SetWALOffset_save: "man_SetWALOffset off m st = (err, m', st') \<longleftrightarrow> m' = m\<lparr>WALOffset := off\<rparr> \<and> man_save m' st = (err, st')"
  by (auto simp: man_SetWALOffset_def Let_def split: prod.splits)

lemma man_RemoveBatch_save:
  "man_RemoveBatch ps m st = (err, m', st') \<longleftrightarrow>
     m' = m\<lparr>Segments := filter (\<lambda>e. Path e \<notin> set ps) (Segments m)\<rparr> \<and> man_save m' st = (err, st')"
  by (auto simp: man_RemoveBatch_def Let_def split: prod.splits)

lemmas man_op_save = man_Add_save man_SetWALOffset_save man_RemoveBatch_save

subsection \<open>What a flush leaves behind\<close>

lemma flush_range_bounds:
  assumes "flush_range False a b m = Inr (bs, be)" and "\<forall>(sid, pts)\<in>set m. sorted (map ts pts)"
  shows "sint bs \<le> sint a \<and> sint b \<le> sint be \<and> (\<forall>(sid, pts)\<in>set m. \<forall>p\<in>set pts. sint bs \<le> ts p \<and> ts p \<le> sint be)"
  using assms
proof (induction "False" a b m rule: flush_range.induct)
  case (2 a b sid pts m)
  have ne: "pts \<noteq> []" using "2.prems"(1) by auto
  have ends: "ts (hd pts) \<le> ts p \<and> ts p \<le> ts (last pts)" if "p \<in> set pts" for p
    using sorted_points_hd [of pts p] last_is_latest [of pts p] "2.prems"(2) that by auto
  show ?case using "2.hyps" [OF ne] "2.prems" ne ends by (fastforce simp: ts_def split: if_splits)
qed simp

lemma flush_range_first:
  assumes "flush_range True a b m = Inr (bs, be)" and "m \<noteq> []" and "\<forall>(sid, pts)\<in>set m. sorted (map ts pts)"
  shows "\<forall>(sid, pts)\<in>set m. \<forall>p\<in>set pts. sint bs \<le> ts p \<and> ts p \<le> sint be"
proof -
  obtain sid pts rest where m: "m = (sid, pts) # rest" using assms(2) by (metis list.exhaust prod.collapse)
  then have ne: "pts \<noteq> []" using assms(1) by auto
  have ends: "ts (hd pts) \<le> ts p \<and> ts p \<le> ts (last pts)" if "p \<in> set pts" for p
    using sorted_points_hd [of pts p] last_is_latest [of pts p] assms(3) m that by auto
  have "flush_range False (Timestamp (hd pts)) (Timestamp (last pts)) rest = Inr (bs, be)"
    using assms(1) ne by (simp add: m)
  from flush_range_bounds [OF this] show ?thesis using ends assms(3) by (fastforce simp: m ts_def)
qed

lemma digits_plain: "plain_name (c # d # e @ n @ f)" if "CHR ''/'' \<notin> set (c # d # e @ f)" and "list_all is_digit n" and "c \<noteq> CHR ''.''"
  using that digit_not_slash [of n] by (auto simp: plain_name_def)

lemma pad6_digits: "list_all is_digit (pad6 n)"
proof -
  have "is_digit (CHR ''0'')" by (simp add: is_digit_def)
  then show ?thesis using nat_str_digits [of n] by (auto simp: pad6_def Let_def list_all_iff)
qed

lemma flush_name_plain: "plain_name (flush_name n)"
  using digits_plain [of "CHR ''s''" "CHR ''e''" "''g-''" "''.seg''" "pad6 n"] pad6_digits [of n] by (simp add: flush_name_def)

lemma compacted_name_plain: "plain_name (compacted_name n)"
  using digits_plain [of "CHR ''c''" "CHR ''o''" "''mpacted-''" "''.seg''" "nat_str n"] nat_str_digits [of n] by (simp add: compacted_name_def)

lemma flush_name_inject: "flush_name m = flush_name n \<longleftrightarrow> m = n"
  by (simp add: flush_name_def pad6_inject)

text \<open>The files that the engine writes in its directory have different names.\<close>

lemma flush_paths [simp]:
  "filepath_Join dir (flush_name m) = filepath_Join dir (flush_name n) \<longleftrightarrow> m = n"
  "filepath_Join dir (flush_name m) \<noteq> compaction_output cands dir"
  "filepath_Join dir (flush_name m) \<noteq> []"
proof -
  show "filepath_Join dir (flush_name m) = filepath_Join dir (flush_name n) \<longleftrightarrow> m = n"
    by (simp add: filepath_Join_inject flush_name_plain flush_name_inject)
  have "flush_name m \<noteq> compacted_name k" for k by (simp add: flush_name_def compacted_name_def)
  then show "filepath_Join dir (flush_name m) \<noteq> compaction_output cands dir"
    by (simp add: compaction_output_def filepath_Join_inject flush_name_plain compacted_name_plain)
  obtain pre where "filepath_Join dir (flush_name m) = pre @ flush_name m"
    using filepath_Join_plain flush_name_plain by metis
  then show "filepath_Join dir (flush_name m) \<noteq> []" by (simp add: flush_name_def)
qed

lemma Get_pts_of: "memtable_Get f sid = pts_of (m_series f) sid"
  by (simp add: memtable_Get_def pts_of_def)

lemma flush_job_written:
  assumes "runtime_ok rt" and "flush_job rt f dir n off st = (Inr res, st')" and "fd_Err res = None"
    and "rt_range rt (m_series f) \<noteq> []"
  obtains w st1 w' bs be where "fresh_writer (filepath_Join dir (flush_name n)) st w st1" and "sw_version w = 1"
    and "seg_Write (rt_sortSeries rt) w (merged_list (\<lambda>p. p) (rt_range rt (m_series f))) bs be st1 = (None, w', st')"
    and "fd_SegmentPath res = filepath_Join dir (flush_name n)" and "flush_range True 0 0 (rt_range rt (m_series f)) = Inr (bs, be)"
    and "res = \<lparr>fd_SegmentPath = filepath_Join dir (flush_name n), fd_BlockStart = bs, fd_BlockEnd = be,
      fd_SeriesCount = of_nat (length (merged_list (\<lambda>p. p) (rt_range rt (m_series f)))), fd_WALOffset = off, fd_Err = None\<rparr>"
proof -
  let ?all = "rt_range rt (m_series f)" and ?path = "filepath_Join dir (flush_name n)"
  let ?sps = "merged_list (\<lambda>p. p) ?all"
  have sps: "map (\<lambda>(sid, pts). \<lparr>SeriesID = sid, Points = pts\<rparr>) ?all = ?sps" by (simp add: merged_list_def)
  obtain bs be where range: "flush_range True 0 0 ?all = Inr (bs, be)"
    using assms(2,4) by (auto simp: flush_job_def memtable_GetAll_def Let_def split: sum.splits)
  obtain w st1 where new: "seg_NewWriter ?path st = (Inr w, st1)"
    using assms(2,3,4) range
    by (auto simp: flush_job_def memtable_GetAll_def Let_def flush_failed_def split: sum.splits prod.splits)
  then have w: "fresh_writer ?path st w st1" "sw_version w = 1"
    by (auto simp: fresh_writer_def seg_NewWriter_def split: prod.splits option.splits)
  obtain w' where written: "seg_Write (rt_sortSeries rt) w ?sps bs be st1 = (None, w', st')"
    and res: "res = \<lparr>fd_SegmentPath = ?path, fd_BlockStart = bs, fd_BlockEnd = be,
      fd_SeriesCount = of_nat (length ?sps), fd_WALOffset = off, fd_Err = None\<rparr>"
    using assms(2-4) range new
    by (auto simp: flush_job_def memtable_GetAll_def Let_def flush_failed_def sps split: sum.splits prod.splits option.splits)
  show thesis by (rule that [OF w written _ range res]) (simp add: res)
qed

lemma flush_job_ok:
  assumes "runtime_ok rt" and "memtable_wf f" and "\<forall>sid. \<forall>p\<in>set (memtable_Get f sid). moderate p"
    and "points_in (m_series f) < 2 ^ 32"
    and "flush_job rt f dir n off st = (Inr res, st')" and "fd_Err res = None"
  shows "fd_WALOffset res = off \<and> touches {filepath_Join dir (flush_name n)} st st' \<and>
    fd_SegmentPath res = (if m_series f = [] then [] else filepath_Join dir (flush_name n)) \<and>
    (m_series f \<noteq> [] \<longrightarrow> reads_safely st' (fd_SegmentPath res) \<and>
      (\<forall>sid. segment_points st' sid (fd_SegmentPath res) = memtable_Get f sid \<and>
      (\<forall>p\<in>set (memtable_Get f sid). sint (fd_BlockStart res) \<le> ts p \<and> ts p \<le> sint (fd_BlockEnd res))))"
proof (cases "m_series f = []")
  case True
  then have "rt_range rt (m_series f) = []"
    using range_order_facts(2) [OF runtime_sorters(4) [OF assms(1)]] by (metis length_0_conv)
  then show ?thesis using assms(5) True by (auto simp: flush_job_def memtable_GetAll_def Let_def)
next
  case False
  let ?all = "rt_range rt (m_series f)" and ?path = "filepath_Join dir (flush_name n)"
  let ?sps = "merged_list (\<lambda>p. p) ?all"
  note rng = runtime_sorters(4) [OF assms(1)] and sort = runtime_sorters(2) [OF assms(1)]
  have ne: "?all \<noteq> []" using False range_order_facts(2) [OF rng] by (metis length_0_conv)
  have mwf: "map_wf (m_series f)" using assms(2) by (simp add: memtable_wf_def series_sorted_def)
  then have wf: "map_wf ?all" and get: "pts_of ?all sid = memtable_Get f sid" for sid
    using range_order_facts(3) [OF rng] pts_of_range_order [OF rng] by (simp_all add: Get_pts_of)
  obtain w st1 w' bs be where w: "fresh_writer ?path st w st1" and v: "sw_version w = 1"
    and written: "seg_Write (rt_sortSeries rt) w ?sps bs be st1 = (None, w', st')"
    and range: "flush_range True 0 0 ?all = Inr (bs, be)"
    and res: "res = \<lparr>fd_SegmentPath = ?path, fd_BlockStart = bs, fd_BlockEnd = be,
      fd_SeriesCount = of_nat (length ?sps), fd_WALOffset = off, fd_Err = None\<rparr>"
    by (rule flush_job_written [OF assms(1,5,6) ne])
  have len: "sum_list (map (length \<circ> Points) ?sps) = points_in ?all" for m
    by (simp add: merged_list_def points_in_def comp_def split_beta)
  have "writable (sw_version w) ?sps"
    unfolding v
  proof (rule moderate_writable)
    show "distinct (map SeriesID ?sps)" using wf by (simp add: merged_list_ids map_wf_def)
    show "\<forall>sp\<in>set ?sps. \<forall>p\<in>set (Points sp). moderate p"
      using merged_list_member(1) [OF wf] get assms(3) by fastforce
    have "points_in ?all = points_in (m_series f)"
      using total_len_range_order [OF rng] by (simp add: points_in_def total_len_def)
    then show "sum_list (map (length \<circ> Points) ?sps) < 2 ^ 32" using assms(4) len by simp
  qed
  from segment_readback [OF sort w this written] obtain r where r: "OpenReader ?path st' = Inr r"
    "\<And>sp. sp \<in> set ?sps \<Longrightarrow> ReadSeries r (SeriesID sp) = Inr (Points sp)"
    "\<And>sid. sid \<notin> SeriesID ` set ?sps \<Longrightarrow> ReadSeries r sid = Inr []" "\<exists>m. ReadAll r = Inr m" by blast
  have "\<exists>pts. ReadSeries r sid = Inr pts" for sid
  proof (cases "sid \<in> SeriesID ` set ?sps")
    case True
    then show ?thesis using r(2) by blast
  qed (use r(3) in blast)
  then have "reads_safely st' ?path" using r(1,4) reads_safelyI by blast
  moreover
  have "segment_points st' sid ?path = memtable_Get f sid" for sid
  proof (cases "sid \<in> SeriesID ` set ?sps")
    case True
    then show ?thesis using r(1,2) merged_list_member(1) [OF wf] get by (fastforce simp: segment_points_def)
  next
    case False
    then show ?thesis using r(1) r(3) [OF False] merged_list_member(2) [OF wf False] get by (simp add: segment_points_def)
  qed
  moreover have "touches {?path} st st'"
    using seg_Write_written [OF w written] fresh_writer_facts(8,9) [OF w] by (simp add: touches_def)
  moreover have "sint bs \<le> ts p \<and> ts p \<le> sint be" if "p \<in> set (memtable_Get f sid)" for sid p
  proof -
    have s: "\<forall>(sid, pts)\<in>set ?all. sorted (map ts pts)"
      using assms(2) range_order_facts(1) [OF rng] by (auto simp: memtable_wf_def series_sorted_def)
    have "(sid, memtable_Get f sid) \<in> set ?all"
      using that lookup_Some_iff [OF mwf] range_order_facts(1) [OF rng, of "m_series f"]
      by (auto simp: memtable_Get_def split: option.splits)
    then show ?thesis using flush_range_first [OF range ne s] that by blast
  qed
  ultimately show ?thesis using False by (simp add: res)
qed

lemma compaction_job_ok:
  assumes "runtime_ok rt" and "\<forall>sid. \<forall>p\<in>set (all_points st cands sid). moderate p"
    and "sum_list (map (segment_total st \<circ> Path) cands) < 2 ^ 32"
    and "compaction_job rt cands dir st = (Inr res, st')" and "cd_Err res = None"
  shows "cd_OldPaths res = map Path cands \<and> cd_SegmentPath res = compaction_output cands dir \<and>
    touches {compaction_output cands dir} st st' \<and> reads_safely st' (compaction_output cands dir) \<and>
    (\<forall>sid. let pts = segment_points st' sid (compaction_output cands dir) in
       sorted (map ts pts) \<and> mset pts = mset (all_points st cands sid) \<and>
       (\<forall>p\<in>set pts. sint (cd_BlockStart res) \<le> ts p \<and> ts p \<le> sint (cd_BlockEnd res)))"
proof -
  let ?out = "compaction_output cands dir"
  obtain entry where c: "Compact (rt_sortPoints rt) (rt_sortSeries rt) (rt_range rt) cands ?out st = (Inr entry, st')"
    and res: "res = \<lparr>cd_OldPaths = map Path cands, cd_SegmentPath = Path entry, cd_BlockStart = BlockStart entry,
       cd_BlockEnd = BlockEnd entry, cd_SeriesCount = SeriesCount entry, cd_Err = None\<rparr>"
    using assms(4,5) by (auto simp: compaction_job_def compaction_failed_def split: prod.splits sum.splits if_splits)
  note sorters = runtime_sorters [OF assms(1)]
  from Compact_spec [OF sorters(1,2,4) assms(2,3) c]
  obtain r where r: "OpenReader ?out st' = Inr r" "Path entry = ?out"
    "\<forall>sid. \<exists>pts. ReadSeries r sid = Inr pts \<and> sorted (map ts pts) \<and> mset pts = mset (all_points st cands sid) \<and>
       (\<forall>p\<in>set pts. sint (BlockStart entry) \<le> ts p \<and> ts p \<le> sint (BlockEnd entry))"
    "\<forall>path. path \<noteq> ?out \<longrightarrow> o_files st' path = o_files st path" "reads_safely st' ?out" by blast
  obtain m bs be w st1 w' where w: "fresh_writer ?out st w st1"
    and written: "seg_Write (rt_sortSeries rt) w (merged_list (rt_sortPoints rt) (rt_range rt m)) bs be st1 = (None, w', st')"
    by (rule Compact_ok [OF c])
  have "o_denied st' = o_denied st"
    using seg_Write_written [OF w written] fresh_writer_facts(9) [OF w] by simp
  then have "touches {?out} st st'" using r(4) by (simp add: touches_def)
  moreover have "sorted (map ts (segment_points st' sid ?out)) \<and> mset (segment_points st' sid ?out) = mset (all_points st cands sid) \<and>
      (\<forall>p\<in>set (segment_points st' sid ?out). sint (BlockStart entry) \<le> ts p \<and> ts p \<le> sint (BlockEnd entry))" for sid
  proof -
    obtain pts where pts: "ReadSeries r sid = Inr pts" "sorted (map ts pts)" "mset pts = mset (all_points st cands sid)"
      "\<forall>p\<in>set pts. sint (BlockStart entry) \<le> ts p \<and> ts p \<le> sint (BlockEnd entry)" using r(3) by blast
    have "segment_points st' sid ?out = pts" using r(1) pts(1) by (simp add: segment_points_def)
    then show ?thesis using pts(2-4) by simp
  qed
  ultimately show ?thesis using r(2,5) by (simp add: res Let_def)
qed

subsection \<open>The invariant\<close>

text \<open>Writes that are read back from the log and from a segment.\<close>

definition write_ok :: "WritePayload \<Rightarrow> bool" where
  "write_ok p \<longleftrightarrow> (\<forall>pt\<in>set (wp_Points p). moderate pt) \<and> length (wp_Points p) < 2 ^ 28 - 1"

definition log_of :: "BatchWritePayload \<Rightarrow> byte list" where
  "log_of ps = wal_log (map encodeWritePayload ps)"

text \<open>The log holds the accepted writes, in order; the manifest's offset is the end of the first \<open>k\<close>.\<close>

definition log_inv :: "BatchWritePayload \<Rightarrow> nat \<Rightarrow> wal_writer \<Rightarrow> manifest \<Rightarrow> bool" where
  "log_inv recs k w m \<longleftrightarrow> (\<forall>p\<in>set recs. write_ok p) \<and> wal_wf w \<and> log_bytes w = log_of recs \<and>
     w_offset w = int (length (log_of recs)) \<and> sint (WALOffset m) = int (length (log_of (take k recs)))"

text \<open>The frozen memtable holds the writes from \<open>k\<close> to \<open>j\<close>, the live one those from \<open>j\<close> on.\<close>

definition mem_inv :: "BatchWritePayload \<Rightarrow> nat \<Rightarrow> nat \<Rightarrow> engine \<Rightarrow> bool" where
  "mem_inv recs k j e \<longleftrightarrow> k \<le> j \<and> j \<le> length recs \<and> memtable_live (e_active e) \<and>
     (\<forall>sid. mset (GetPoints e sid) = mset (writes_for sid (drop j recs))) \<and>
     (\<forall>sid. mset (FrozenPoints e sid) = mset (writes_for sid (drop k (take j recs))))"

definition entry_ok :: "os_state \<Rightarrow> SegmentEntry \<Rightarrow> bool" where
  "entry_ok st en \<longleftrightarrow> (\<forall>sid. let pts = segment_points st sid (Path en) in
     sorted (map ts pts) \<and> (\<forall>p\<in>set pts. sint (BlockStart en) \<le> ts p \<and> ts p \<le> sint (BlockEnd en)))"

definition names_apart :: "manifest \<Rightarrow> string \<Rightarrow> bool" where
  "names_apart m dir \<longleftrightarrow> (\<forall>n. filepath_Join dir (flush_name n) \<notin> manifest_files m) \<and>
     (\<forall>cands. compaction_output cands dir \<notin> manifest_files m)"

text \<open>The listed segments hold the first \<open>k\<close> writes, and the manifest is on the disk as it is in memory.\<close>

definition seg_inv :: "BatchWritePayload \<Rightarrow> nat \<Rightarrow> engine \<Rightarrow> os_state \<Rightarrow> bool" where
  "seg_inv recs k e st \<longleftrightarrow> (let m = e_manifest e; es = Segments m in
     distinct (map Path es) \<and> (\<forall>en\<in>set es. entry_ok st en \<and> reads_safely st (Path en) \<and> Path en \<notin> manifest_files m \<and>
       (\<forall>n. Path en = filepath_Join (e_dataDir e) (flush_name n) \<longrightarrow> n < e_flushCount e)) \<and>
     (\<forall>sid. mset (all_points st es sid) = mset (writes_for sid (take k recs))) \<and>
     man_Load (man_path m) st = Inr m \<and> names_apart m (e_dataDir e))"

definition flushed :: "os_state \<Rightarrow> memtable \<Rightarrow> string \<Rightarrow> i64 \<Rightarrow> FlushDonePayload \<Rightarrow> bool" where
  "flushed st f path off res \<longleftrightarrow> fd_Err res = None \<and> fd_WALOffset res = off \<and>
     fd_SegmentPath res = (if m_series f = [] then [] else path) \<and>
     (m_series f \<noteq> [] \<longrightarrow> reads_safely st path \<and> (\<forall>sid. segment_points st sid path = memtable_Get f sid \<and>
       (\<forall>p\<in>set (memtable_Get f sid). sint (fd_BlockStart res) \<le> ts p \<and> ts p \<le> sint (fd_BlockEnd res))))"

text \<open>Between a rotation and the result of the flush there is a frozen memtable and one goroutine or one result.\<close>

definition flush_phase :: "BatchWritePayload \<Rightarrow> nat \<Rightarrow> engine \<Rightarrow> os_state \<Rightarrow> flush_args list \<Rightarrow> bool" where
  "flush_phase recs j e st jobs \<longleftrightarrow>
     e_frozen e = None \<and> jobs = [] \<and> e_flushDoneCh e = [] \<or>
     (\<exists>f n off. e_frozen e = Some f \<and> memtable_wf f \<and> sint off = int (length (log_of (take j recs))) \<and>
        n < e_flushCount e \<and> filepath_Join (e_dataDir e) (flush_name n) \<notin> Path ` set (Segments (e_manifest e)) \<and>
        (jobs = [\<lparr>fa_table = f, fa_dir = e_dataDir e, fa_n = n, fa_walOff = off\<rparr>] \<and> e_flushDoneCh e = [] \<or>
         jobs = [] \<and> (\<exists>res. e_flushDoneCh e = [res] \<and> flushed st f (filepath_Join (e_dataDir e) (flush_name n)) off res)))"

definition compacted :: "os_state \<Rightarrow> SegmentEntry list \<Rightarrow> string \<Rightarrow> CompactionDonePayload \<Rightarrow> bool" where
  "compacted st cands out res \<longleftrightarrow> cd_Err res = None \<and> cd_OldPaths res = map Path cands \<and> cd_SegmentPath res = out \<and> reads_safely st out \<and>
     (\<forall>sid. let pts = segment_points st sid out in
       sorted (map ts pts) \<and> mset pts = mset (all_points st cands sid) \<and>
       (\<forall>p\<in>set pts. sint (cd_BlockStart res) \<le> ts p \<and> ts p \<le> sint (cd_BlockEnd res)))"

definition compact_phase :: "engine \<Rightarrow> os_state \<Rightarrow> (SegmentEntry list \<times> string) list \<Rightarrow> bool" where
  "compact_phase e st jobs \<longleftrightarrow> jobs = [] \<and> e_compactionDoneCh e = [] \<or>
     (\<exists>cands. let out = compaction_output cands (e_dataDir e); es = Segments (e_manifest e) in
        set cands \<subseteq> set es \<and> distinct cands \<and>
        (jobs = [(cands, e_dataDir e)] \<and> e_compactionDoneCh e = [] \<or>
         jobs = [] \<and> out \<notin> Path ` set es \<and> (\<exists>res. e_compactionDoneCh e = [res] \<and> compacted st cands out res)))"

text \<open>The commands of a clean run: writes that can be read back, queries, compactions.\<close>

definition calm_command :: "Command \<Rightarrow> bool" where
  "calm_command cmd =
     (case (Kind cmd, Payload cmd) of
        (WriteCmd, PWrite p) \<Rightarrow> write_ok p
      | (BatchWriteCmd, PBatch ps) \<Rightarrow> \<forall>p\<in>set ps. write_ok p
      | (FlushDoneCmd, _) \<Rightarrow> False
      | (RetentionCmd, _) \<Rightarrow> False
      | _ \<Rightarrow> True)"

definition stored :: "BatchWritePayload \<Rightarrow> nat \<Rightarrow> nat \<Rightarrow> system \<Rightarrow> bool" where
  "stored recs k j s \<longleftrightarrow> (let e = s_engine s; st = s_os s in
     log_inv recs k (e_wal e) (e_manifest e) \<and> mem_inv recs k j e \<and> seg_inv recs k e st \<and>
     flush_phase recs j e st (s_flushJobs s) \<and> compact_phase e st (s_compactJobs s) \<and>
     (\<forall>cmd\<in>set (e_cmdCh e). calm_command cmd))"

text \<open>The writes that an event adds, and what makes an event clean.\<close>

definition accepted_by :: "event \<Rightarrow> system \<Rightarrow> BatchWritePayload" where
  "accepted_by ev s =
     (case (ev, e_cmdCh (s_engine s)) of
        (TakeCommand _, cmd # _) \<Rightarrow>
          (case (Kind cmd, Payload cmd) of
             (WriteCmd, PWrite p) \<Rightarrow> fst (log_writes (e_wal (s_engine s)) [p])
           | (BatchWriteCmd, PBatch ps) \<Rightarrow> fst (log_writes (e_wal (s_engine s)) ps)
           | _ \<Rightarrow> [])
      | _ \<Rightarrow> [])"

definition logged_ok :: "wal_writer \<Rightarrow> Command \<Rightarrow> bool" where
  "logged_ok w cmd =
     (case (Kind cmd, Payload cmd) of
        (WriteCmd, PWrite p) \<Rightarrow> fst (snd (log_writes w [p])) = None
      | (BatchWriteCmd, PBatch ps) \<Rightarrow> fst (snd (log_writes w ps)) = None
      | _ \<Rightarrow> True)"

definition flush_saved :: "FlushDonePayload \<Rightarrow> manifest \<Rightarrow> os_state \<Rightarrow> bool" where
  "flush_saved res m st \<longleftrightarrow>
     (case man_Add \<lparr>Path = fd_SegmentPath res, BlockStart = fd_BlockStart res, BlockEnd = fd_BlockEnd res,
         SeriesCount = fd_SeriesCount res, Size = 0\<rparr> m st of
        (err, m, st) \<Rightarrow> err = None \<and> fst (man_SetWALOffset (fd_WALOffset res) m st) = None)"

definition compaction_saved :: "CompactionDonePayload \<Rightarrow> manifest \<Rightarrow> os_state \<Rightarrow> bool" where
  "compaction_saved res m st \<longleftrightarrow>
     (case man_Add \<lparr>Path = cd_SegmentPath res, BlockStart = cd_BlockStart res, BlockEnd = cd_BlockEnd res,
         SeriesCount = cd_SeriesCount res, Size = 0\<rparr> m st of
        (err, m, st) \<Rightarrow> err = None \<and> fst (man_RemoveBatch (cd_OldPaths res) m st) = None)"

definition clean :: "runtime \<Rightarrow> event \<Rightarrow> system \<Rightarrow> bool" where
  "clean rt ev s \<longleftrightarrow> (let e = s_engine s; st = s_os s in
     case ev of
       Client cmd \<Rightarrow> calm_command cmd
     | TakeCommand _ \<Rightarrow>
         (case e_cmdCh e of
            [] \<Rightarrow> True
          | cmd # _ \<Rightarrow> logged_ok (e_wal e) cmd \<and> (Kind cmd = CompactionCmd \<longrightarrow> s_compactJobs s = [] \<and> e_compactionDoneCh e = []))
     | Tick _ \<Rightarrow> w_offset (e_wal e) < 2 ^ 63 \<and> (e_memtableSize e \<le> memtable_SizeBytes (e_active e) \<longrightarrow> e_frozen e = None)
     | FlushJob i \<Rightarrow>
         (let a = s_flushJobs s ! i in
          points_in (m_series (fa_table a)) < 2 ^ 32 \<and>
          (case fst (flush_job rt (fa_table a) (fa_dir a) (fa_n a) (fa_walOff a) st) of
             Inl _ \<Rightarrow> True | Inr res \<Rightarrow> fd_Err res = None))
     | FlushDone _ \<Rightarrow> (\<forall>res\<in>set (e_flushDoneCh e). fd_SegmentPath res \<noteq> [] \<longrightarrow> flush_saved res (e_manifest e) st)
     | CompactJob i \<Rightarrow>
         (case s_compactJobs s ! i of (cands, dir) \<Rightarrow>
            sum_list (map (segment_total st \<circ> Path) cands) < 2 ^ 32 \<and>
            compaction_output cands dir \<notin> Path ` set (Segments (e_manifest e)) \<and>
            (case fst (compaction_job rt cands dir st) of Inl _ \<Rightarrow> True | Inr res \<Rightarrow> cd_Err res = None))
     | CompactionDone _ \<Rightarrow> (\<forall>res\<in>set (e_compactionDoneCh e). compaction_saved res (e_manifest e) st)
     | Shutdown \<Rightarrow> False
     | Fsync \<Rightarrow> True
     | Device _ _ _ \<Rightarrow> True
     | IndexInsert _ _ _ \<Rightarrow> True)"

inductive clean_run :: "runtime \<Rightarrow> system \<Rightarrow> BatchWritePayload \<Rightarrow> system \<Rightarrow> bool" for rt s0 where
  clean_Nil: "clean_run rt s0 [] s0"
| clean_step: "clean_run rt s0 ws s \<Longrightarrow> exec rt ev s = Some (Completes s') \<Longrightarrow> clean rt ev s \<Longrightarrow>
    clean_run rt s0 (ws @ accepted_by ev s) s'"

subsection \<open>The invariant is kept\<close>

lemma log_of_simps [simp]:
  "log_of [] = []" "log_of (p # ps) = wal_record (encodeWritePayload p) @ log_of ps" "log_of (ps @ qs) = log_of ps @ log_of qs"
  by (simp_all add: log_of_def)

lemma log_writes_ok:
  assumes "log_writes w ps = (acc, None, w')" and "wal_wf w" and "w_offset w = int (length (log_bytes w))"
  shows "acc = ps \<and> wal_wf w' \<and> log_bytes w' = log_bytes w @ log_of ps \<and> w_offset w' = int (length (log_bytes w'))"
  using assms
proof (induction ps arbitrary: w acc)
  case (Cons p ps)
  obtain w1 acc1 where app: "Append w (encodeWritePayload p) = (None, w1)" and rest: "log_writes w1 ps = (acc1, None, w')" "acc = p # acc1"
    using Cons.prems(1) by (auto split: prod.splits option.splits)
  note ok = Append_ok(1-3) [OF Cons.prems(2) app]
  from Cons.IH [OF rest(1) ok(1,3)] ok(2) show ?case by (simp add: rest(2))
qed simp

lemma fsyncLoop_tick_log:
  "log_bytes (snd (fsyncLoop_tick w)) = log_bytes w" "w_offset (snd (fsyncLoop_tick w)) = w_offset w"
  "wal_wf w \<Longrightarrow> wal_wf (snd (fsyncLoop_tick w))"
proof -
  obtain e w' where "wal_flush w = (e, w')" by (metis prod.collapse)
  from wal_flush_log(1,2,5) [OF this] this show "log_bytes (snd (fsyncLoop_tick w)) = log_bytes w" "w_offset (snd (fsyncLoop_tick w)) = w_offset w"
    "wal_wf w \<Longrightarrow> wal_wf (snd (fsyncLoop_tick w))"
    by (simp_all add: fsyncLoop_tick_def)
qed

text \<open>The invariant looks at these parts of a system only.\<close>

lemma stored_same:
  assumes "stored recs k j s" and "s_os s' = s_os s" and "s_flushJobs s' = s_flushJobs s" and "s_compactJobs s' = s_compactJobs s"
    and "e_active (s_engine s') = e_active (s_engine s)" and "e_frozen (s_engine s') = e_frozen (s_engine s)"
    and "e_wal (s_engine s') = e_wal (s_engine s)" and "e_manifest (s_engine s') = e_manifest (s_engine s)"
    and "e_dataDir (s_engine s') = e_dataDir (s_engine s)" and "e_flushCount (s_engine s') = e_flushCount (s_engine s)"
    and "e_flushDoneCh (s_engine s') = e_flushDoneCh (s_engine s)" and "e_compactionDoneCh (s_engine s') = e_compactionDoneCh (s_engine s)"
    and "\<forall>cmd\<in>set (e_cmdCh (s_engine s')). calm_command cmd"
  shows "stored recs k j s'"
proof -
  have "mem_inv recs k j (s_engine s') = mem_inv recs k j (s_engine s)"
    by (simp add: mem_inv_def GetPoints_def FrozenPoints_def assms(5,6))
  moreover have "seg_inv recs k (s_engine s') st = seg_inv recs k (s_engine s) st" for st
    by (simp add: seg_inv_def assms(8-10))
  moreover have "flush_phase recs j (s_engine s') st js = flush_phase recs j (s_engine s) st js" for st js
    by (simp add: flush_phase_def assms(6,8-11))
  moreover have "compact_phase (s_engine s') st js = compact_phase (s_engine s) st js" for st js
    by (simp add: compact_phase_def assms(8,9,12))
  ultimately show ?thesis using assms(1,13) by (simp add: stored_def Let_def assms(2-4,7,8))
qed

lemma stored_write:
  assumes "runtime_ok rt" and "stored recs k j s" and "\<forall>p\<in>set ps. write_ok p"
    and "log_writes (e_wal (s_engine s)) ps = (acc, None, w)" and "batch_loop rt n ps (s_engine s) = Inr (r, e')"
  shows "stored (recs @ ps) k j (s\<lparr>s_engine := e'\<rparr>) \<and> acc = ps"
proof -
  let ?e = "s_engine s"
  have log: "log_inv recs k (e_wal ?e) (e_manifest ?e)" and mem: "mem_inv recs k j ?e" and seg: "seg_inv recs k ?e (s_os s)"
    and flush: "flush_phase recs j ?e (s_os s) (s_flushJobs s)" and compact: "compact_phase ?e (s_os s) (s_compactJobs s)"
    and calm: "\<forall>cmd\<in>set (e_cmdCh ?e). calm_command cmd"
    using assms(2) by (simp_all add: stored_def Let_def)
  have live: "memtable_live (e_active ?e)" and le: "k \<le> j" "j \<le> length recs" using mem by (simp_all add: mem_inv_def)
  have w: "acc = ps" "wal_wf w" "log_bytes w = log_of (recs @ ps)" "w_offset w = int (length (log_of (recs @ ps)))"
    using log_writes_ok [OF assms(4)] log by (simp_all add: log_inv_def)
  obtain active ms where e': "e' = ?e\<lparr>e_wal := w, e_active := active, e_metrics := ms\<rparr>"
    and active: "memtable_live active" "\<And>sid. mset (memtable_Get active sid) = mset (memtable_Get (e_active ?e) sid) + mset (writes_for sid ps)"
    using batch_loop_spec [OF assms(1) live assms(4), of n] assms(5) w(1) by auto
  have "log_inv (recs @ ps) k w (e_manifest ?e)" using log w assms(3) le by (auto simp: log_inv_def)
  moreover have "mem_inv (recs @ ps) k j e'"
    using mem active le by (simp add: mem_inv_def e' GetPoints_def FrozenPoints_def)
  moreover have "seg_inv (recs @ ps) k e' (s_os s)" using seg le by (simp add: seg_inv_def e' Let_def)
  moreover have "flush_phase (recs @ ps) j e' (s_os s) (s_flushJobs s)" using flush le by (simp add: flush_phase_def e')
  moreover have "compact_phase e' (s_os s) (s_compactJobs s)" using compact by (simp add: compact_phase_def e' Let_def)
  ultimately show ?thesis using calm w(1) by (simp add: stored_def e' Let_def)
qed

lemma stored_reply [simp]: "stored recs k j (reply r s) = stored recs k j s"
  by (simp add: stored_def reply_def Let_def)

lemma SelectCandidates_subset:
  assumes "slice_sorter srt key" and "distinct es"
  shows "set (SelectCandidates srt es n) \<subseteq> set es" and "distinct (SelectCandidates srt es n)"
proof -
  have "set (srt es) = set es" "distinct (srt es)"
    using slice_sorter.set_srt [OF assms(1)] slice_sorter.mset_srt [OF assms(1)] assms(2) mset_eq_imp_distinct_iff by blast+
  then show "set (SelectCandidates srt es n) \<subseteq> set es" "distinct (SelectCandidates srt es n)"
    by (auto simp: SelectCandidates_def Let_def dest: in_set_takeD)
qed

lemma stored_compaction:
  assumes "runtime_ok rt" and "stored recs k j s" and "handleCompaction rt (s_engine s) = (r, Some job)"
    and "s_compactJobs s = []" and "e_compactionDoneCh (s_engine s) = []"
  shows "stored recs k j (s\<lparr>s_compactJobs := s_compactJobs s @ [job]\<rparr>)"
proof -
  let ?e = "s_engine s" and ?c = "SelectCandidates (rt_sortEntries rt) (Segments (e_manifest (s_engine s))) 5"
  have job: "job = (?c, e_dataDir ?e)"
    using assms(3) by (auto simp: handleCompaction_def man_List_def Let_def split: if_splits)
  have "distinct (Segments (e_manifest ?e))" using assms(2) by (simp add: stored_def seg_inv_def Let_def distinct_map)
  note SelectCandidates_subset [OF runtime_sorters(3) [OF assms(1)] this]
  then have "compact_phase ?e (s_os s) [job]"
    using assms(5) unfolding compact_phase_def by (intro disjI2 exI [of _ ?c]) (simp add: job Let_def)
  then show ?thesis using assms(2,4) by (simp add: stored_def Let_def)
qed

lemma storedD:
  assumes "stored recs k j s"
  shows "log_inv recs k (e_wal (s_engine s)) (e_manifest (s_engine s))" and "mem_inv recs k j (s_engine s)"
    and "seg_inv recs k (s_engine s) (s_os s)" and "flush_phase recs j (s_engine s) (s_os s) (s_flushJobs s)"
    and "compact_phase (s_engine s) (s_os s) (s_compactJobs s)" and "\<forall>cmd\<in>set (e_cmdCh (s_engine s)). calm_command cmd"
  using assms by (simp_all add: stored_def Let_def)

text \<open>Events that leave the files of the invariant alone keep what it says of them.\<close>

lemma seg_invI:
  assumes "Segments (e_manifest e) = es" and "distinct (map Path es)" and "\<And>en. en \<in> set es \<Longrightarrow> entry_ok st en \<and> reads_safely st (Path en)"
    and "\<And>en. en \<in> set es \<Longrightarrow> Path en \<notin> manifest_files (e_manifest e)"
    and "\<And>en n. en \<in> set es \<Longrightarrow> Path en = filepath_Join (e_dataDir e) (flush_name n) \<Longrightarrow> n < e_flushCount e"
    and "\<And>sid. mset (all_points st es sid) = mset (writes_for sid (take k recs))"
    and "man_Load (man_path (e_manifest e)) st = Inr (e_manifest e)" and "names_apart (e_manifest e) (e_dataDir e)"
  shows "seg_inv recs k e st"
  using assms(2-8) unfolding seg_inv_def Let_def assms(1) by blast

lemma seg_inv_flush_names:
  "seg_inv recs k e st \<Longrightarrow> en \<in> set (Segments (e_manifest e)) \<Longrightarrow> Path en = filepath_Join (e_dataDir e) (flush_name n) \<Longrightarrow> n < e_flushCount e"
  unfolding seg_inv_def Let_def by blast

lemma entry_ok_touches: "touches P st st' \<Longrightarrow> Path en \<notin> P \<Longrightarrow> entry_ok st en \<Longrightarrow> entry_ok st' en"
  using segment_points_touches [of P st st' "Path en"] by (simp add: entry_ok_def)

lemma seg_inv_touches:
  assumes "seg_inv recs k e st" and "touches P st st'" and "P \<inter> Path ` set (Segments (e_manifest e)) = {}"
    and "man_path (e_manifest e) \<notin> P"
  shows "seg_inv recs k e st'"
proof -
  have "entry_ok st' en \<and> reads_safely st' (Path en)" if "en \<in> set (Segments (e_manifest e))" for en
    using entry_ok_touches [OF assms(2)] reads_safely_touches [OF assms(2)] assms(1,3) that unfolding seg_inv_def Let_def by blast
  moreover have "all_points st' (Segments (e_manifest e)) sid = all_points st (Segments (e_manifest e)) sid" for sid
    using all_points_touches [OF assms(2)] assms(3) by (simp add: Int_commute)
  ultimately show ?thesis
    using assms(1) man_Load_touches [OF assms(2,4)] by (simp add: seg_inv_def Let_def)
qed

lemma flushed_touches: "touches P st st' \<Longrightarrow> path \<notin> P \<Longrightarrow> flushed st f path off res \<Longrightarrow> flushed st' f path off res"
  using segment_points_touches [of P st st' path] reads_safely_touches [of P st st' path] by (simp add: flushed_def)

lemma compacted_touches:
  "touches P st st' \<Longrightarrow> out \<notin> P \<Longrightarrow> Path ` set cands \<inter> P = {} \<Longrightarrow> compacted st cands out res \<Longrightarrow> compacted st' cands out res"
  using segment_points_touches [of P st st' out] all_points_touches [of P st st' cands] reads_safely_touches [of P st st' out]
  by (simp add: compacted_def)

lemma compact_phase_touches:
  assumes "compact_phase e st jobs" and "touches P st st'" and "P \<inter> Path ` set (Segments (e_manifest e)) = {}"
    and "\<And>cands. compaction_output cands (e_dataDir e) \<notin> P"
  shows "compact_phase e st' jobs"
proof -
  have "compacted st' cands (compaction_output cands (e_dataDir e)) res"
    if "set cands \<subseteq> set (Segments (e_manifest e))" "compacted st cands (compaction_output cands (e_dataDir e)) res" for cands res
    using compacted_touches [OF assms(2) assms(4) _ that(2)] that(1) assms(3) by blast
  then show ?thesis using assms(1) unfolding compact_phase_def Let_def by blast
qed

lemma flush_phase_touches:
  assumes "flush_phase recs j e st jobs" and "touches P st st'"
    and "\<And>n. filepath_Join (e_dataDir e) (flush_name n) \<notin> Path ` set (Segments (e_manifest e)) \<Longrightarrow>
      filepath_Join (e_dataDir e) (flush_name n) \<notin> P"
  shows "flush_phase recs j e st' jobs"
  using assms(1) flushed_touches [OF assms(2) assms(3)] unfolding flush_phase_def by blast

lemma flush_phase_listed:
  assumes "flush_phase recs j e st jobs" and "e_frozen e' = e_frozen e" and "e_dataDir e' = e_dataDir e"
    and "e_flushCount e' = e_flushCount e" and "e_flushDoneCh e' = e_flushDoneCh e"
    and "\<And>n. filepath_Join (e_dataDir e) (flush_name n) \<notin> Path ` set (Segments (e_manifest e)) \<Longrightarrow>
      filepath_Join (e_dataDir e) (flush_name n) \<notin> Path ` set (Segments (e_manifest e'))"
  shows "flush_phase recs j e' st jobs"
  using assms(1,6) unfolding flush_phase_def assms(2-5) by blast

text \<open>The points of the accepted writes are moderate.\<close>

lemma writes_moderate:
  assumes "\<forall>p\<in>set recs. write_ok p" and "set ps \<subseteq> set recs" and "pt \<in> set (writes_for sid ps)"
  shows "moderate pt"
  using assms by (auto simp: points_for_def write_ok_def)

lemma writes_for_append: "recs = ps @ qs \<Longrightarrow> writes_for sid recs = writes_for sid ps @ writes_for sid qs"
  by simp

lemma writes_split: "k \<le> j \<Longrightarrow> writes_for sid (drop k recs) = writes_for sid (drop k (take j recs)) @ writes_for sid (drop j recs)"
proof (rule writes_for_append)
  assume "k \<le> j"
  then have "drop k (take j recs @ drop j recs) = drop k (take j recs) @ drop j recs"
    by (simp only: drop_append) (cases "j \<le> length recs"; simp)
  then show "drop k recs = drop k (take j recs) @ drop j recs" by (simp only: append_take_drop_id)
qed

lemma writes_take_split: "k \<le> j \<Longrightarrow> writes_for sid (take j recs) = writes_for sid (take k recs) @ writes_for sid (drop k (take j recs))"
proof (rule writes_for_append)
  assume "k \<le> j"
  then have "take k (take j recs) = take k recs" by simp
  then show "take j recs = take k recs @ drop k (take j recs)" using append_take_drop_id [of k "take j recs"] by simp
qed

subsection \<open>Rotation\<close>

lemma stored_rotate:
  assumes "stored recs k j s" and "w_offset (e_wal (s_engine s)) < 2 ^ 63" and "e_frozen (s_engine s) = None"
    and "f = (e_active (s_engine s))\<lparr>m_frozen := True\<rparr>"
    and "e' = (s_engine s)\<lparr>e_lastActivity := now, e_active := memtable_New, e_frozen := Some f, e_flushCount := e_flushCount (s_engine s) + 1\<rparr>"
    and "job = \<lparr>fa_table = f, fa_dir = e_dataDir (s_engine s), fa_n = e_flushCount (s_engine s),
      fa_walOff = word_of_int (wal_Offset (e_wal (s_engine s)))\<rparr>"
  shows "stored recs k (length recs) (s\<lparr>s_engine := e', s_flushJobs := s_flushJobs s @ [job]\<rparr>)"
proof -
  let ?e = "s_engine s"
  note D = storedD [OF assms(1)]
  have idle: "s_flushJobs s = []" "e_flushDoneCh ?e = []" using D(4) assms(3) by (simp_all add: flush_phase_def)
  have mem: "k \<le> j" "j \<le> length recs" "memtable_live (e_active ?e)" using D(2) by (simp_all add: mem_inv_def)
  have f: "memtable_wf f" "memtable_Get f sid = memtable_Get (e_active ?e) sid" for sid
    using mem(3) by (simp_all add: assms(4) memtable_live_def memtable_wf_def memtable_Get_def)
  have off: "sint (word_of_int (w_offset (e_wal ?e)) :: i64) = int (length (log_of recs))"
    using assms(2) D(1) sint_of_int [of "w_offset (e_wal ?e)"] by (simp add: log_inv_def)
  have log: "log_inv recs k (e_wal e') (e_manifest e')" using D(1) by (simp add: assms(5))
  have "mset (memtable_Get f sid) = mset (writes_for sid (drop k recs))" for sid
    using D(2) assms(3) writes_split [OF mem(1), of sid recs] by (simp add: mem_inv_def f GetPoints_def FrozenPoints_def)
  moreover have "memtable_live memtable_New" by (simp add: memtable_live_def) (simp add: memtable_New_def)
  ultimately have m: "mem_inv recs k (length recs) e'"
    using mem by (simp add: mem_inv_def assms(5) GetPoints_def FrozenPoints_def)
  have s: "seg_inv recs k e' (s_os s)" using D(3) by (auto simp: seg_inv_def assms(5) Let_def)
  have "filepath_Join (e_dataDir ?e) (flush_name (e_flushCount ?e)) \<notin> Path ` set (Segments (e_manifest ?e))"
  proof
    assume "filepath_Join (e_dataDir ?e) (flush_name (e_flushCount ?e)) \<in> Path ` set (Segments (e_manifest ?e))"
    then obtain en where "en \<in> set (Segments (e_manifest ?e))" "Path en = filepath_Join (e_dataDir ?e) (flush_name (e_flushCount ?e))"
      by auto
    then have "e_flushCount ?e < e_flushCount ?e" using D(3) unfolding seg_inv_def Let_def by blast
    then show False by simp
  qed
  then have p: "flush_phase recs (length recs) e' (s_os s) [job]"
    using f(1) off idle(2) by (simp add: flush_phase_def assms(5,6) wal_Offset_def)
  have "compact_phase e' (s_os s) (s_compactJobs s)" using D(5) by (simp add: compact_phase_def assms(5))
  then show ?thesis using log m s p D(6) idle by (simp add: stored_def Let_def assms(5))
qed

subsection \<open>Flush\<close>

lemma seg_inv_names:
  assumes "seg_inv recs k e st"
  shows "names_apart (e_manifest e) (e_dataDir e)"
    and "filepath_Join (e_dataDir e) (flush_name n) \<noteq> man_path (e_manifest e)"
    and "filepath_Join (e_dataDir e) (flush_name n) \<noteq> man_tmpPath (man_path (e_manifest e))"
    and "compaction_output cands (e_dataDir e) \<noteq> man_path (e_manifest e)"
    and "compaction_output cands (e_dataDir e) \<noteq> man_tmpPath (man_path (e_manifest e))"
  using assms by (auto simp: seg_inv_def names_apart_def Let_def)

lemma stored_flush_job:
  assumes "runtime_ok rt" and "stored recs k j s" and "clean rt (FlushJob i) s"
    and "run_flush_job rt i s = Some (Completes s')"
  shows "stored recs k j s'"
proof -
  let ?e = "s_engine s" and ?st = "s_os s"
  note D = storedD [OF assms(2)]
  have i: "i < length (s_flushJobs s)" using assms(4) by (auto simp: run_flush_job_def split: if_splits)
  then obtain f n off where F: "e_frozen ?e = Some f" "memtable_wf f" "sint off = int (length (log_of (take j recs)))"
    "n < e_flushCount ?e" "filepath_Join (e_dataDir ?e) (flush_name n) \<notin> Path ` set (Segments (e_manifest ?e))"
    and job: "s_flushJobs s = [\<lparr>fa_table = f, fa_dir = e_dataDir ?e, fa_n = n, fa_walOff = off\<rparr>]" and ch: "e_flushDoneCh ?e = []"
    using D(4) by (auto simp: flush_phase_def)
  let ?path = "filepath_Join (e_dataDir ?e) (flush_name n)"
  have i0: "i = 0" using i job by simp
  obtain res st' where r: "flush_job rt f (e_dataDir ?e) n off ?st = (Inr res, st')"
    and s': "s' = s\<lparr>s_os := st', s_flushJobs := [], s_engine := ?e\<lparr>e_flushDoneCh := [res]\<rparr>\<rparr>"
    using assms(4) job ch i0 by (auto simp: run_flush_job_def Let_def split: if_splits prod.splits sum.splits)
  have "fd_Err res = None" "points_in (m_series f) < 2 ^ 32"
    using assms(3) job i0 r by (simp_all add: clean_def Let_def)
  moreover have "\<forall>sid. \<forall>p\<in>set (memtable_Get f sid). moderate p"
  proof (intro allI ballI)
    fix sid p assume p: "p \<in> set (memtable_Get f sid)"
    have "mset (memtable_Get f sid) = mset (writes_for sid (drop k (take j recs)))"
      using D(2) F(1) by (simp add: mem_inv_def FrozenPoints_def)
    then have "set (memtable_Get f sid) = set (writes_for sid (drop k (take j recs)))" by (rule mset_eq_setD)
    moreover have "set (drop k (take j recs)) \<subseteq> set recs" by (auto dest: in_set_dropD in_set_takeD)
    ultimately show "moderate p" using writes_moderate D(1) p unfolding log_inv_def by blast
  qed
  ultimately have ok: "flushed st' f ?path off res" and t: "touches {?path} ?st st'"
    using flush_job_ok [OF assms(1) F(2) _ _ r] by (auto simp: flushed_def)
  have "seg_inv recs k ?e st'"
    by (rule seg_inv_touches [OF D(3) t]) (use F(5) seg_inv_names(2) [OF D(3), of n] in auto)
  then have seg: "seg_inv recs k (s_engine s') st'" by (simp add: seg_inv_def s')
  have "compact_phase ?e st' (s_compactJobs s)"
    by (rule compact_phase_touches [OF D(5) t]) (use F(5) in \<open>auto simp: flush_paths(2) [symmetric]\<close>)
  then have "compact_phase (s_engine s') st' (s_compactJobs s)" by (simp add: compact_phase_def s')
  moreover have "flush_phase recs j (s_engine s') st' []" using F ok by (auto simp: flush_phase_def s')
  moreover have "mem_inv recs k j (s_engine s')" using D(2) by (simp add: mem_inv_def s' GetPoints_def FrozenPoints_def)
  ultimately show ?thesis using D(1,6) seg by (simp add: stored_def Let_def s')
qed

text \<open>A new entry for a file that is not listed yet.\<close>

lemma seg_inv_add:
  assumes "seg_inv recs k e st" and "touches (manifest_files (e_manifest e)) st st'"
    and "m' = (e_manifest e)\<lparr>Segments := Segments (e_manifest e) @ [en], WALOffset := off\<rparr>" and "man_Load (man_path m') st' = Inr m'"
    and "Path en = filepath_Join (e_dataDir e) (flush_name n)" and "n < e_flushCount e"
    and "Path en \<notin> Path ` set (Segments (e_manifest e))" and "entry_ok st en \<and> reads_safely st (Path en)"
    and "\<And>sid. mset (segment_points st sid (Path en)) + mset (writes_for sid (take k recs)) = mset (writes_for sid (take j recs))"
    and "e_manifest e' = m'" and "e_dataDir e' = e_dataDir e" and "e_flushCount e' = e_flushCount e"
  shows "seg_inv recs j e' st'"
proof -
  let ?m = "e_manifest e"
  note N = seg_inv_names [OF assms(1)]
  have apart: "Path x \<notin> manifest_files ?m" if "x \<in> set (Segments ?m @ [en])" for x
  proof (cases "x = en")
    case True
    then show ?thesis using assms(5) N(2) [of n] N(3) [of n] by simp
  next
    case False
    then show ?thesis using that assms(1) by (auto simp: seg_inv_def Let_def)
  qed
  have old: "entry_ok st' x \<and> reads_safely st' (Path x)" if "x \<in> set (Segments ?m @ [en])" for x
    using entry_ok_touches [OF assms(2) apart [OF that]] reads_safely_touches [OF assms(2) apart [OF that]] that assms(1,8)
    by (auto simp: seg_inv_def Let_def)
  have "Path ` set (Segments ?m @ [en]) \<inter> manifest_files ?m = {}" using apart by blast
  from all_points_touches [OF assms(2) this]
  have "all_points st' (Segments ?m @ [en]) sid = all_points st (Segments ?m) sid @ segment_points st sid (Path en)" for sid
    by (simp add: all_points_def)
  then have "mset (all_points st' (Segments ?m @ [en]) sid) = mset (writes_for sid (take j recs))" for sid
    using assms(1) assms(9) [of sid] by (simp add: seg_inv_def Let_def add.commute)
  moreover have "n' < e_flushCount e" if "Path en = filepath_Join (e_dataDir e) (flush_name n')" for n'
    using that assms(5,6) by simp
  ultimately show ?thesis
    using assms(1,4,7) old apart unfolding seg_inv_def Let_def assms(3,10-12)
    by (auto simp: names_apart_def)
qed

lemma stored_flush_done:
  assumes "stored recs k j s" and "clean rt (FlushDone now) s" and "run_flush_done now s = Some s'"
  shows "\<exists>k'. stored recs k' j s'"
proof -
  let ?e = "s_engine s" and ?st = "s_os s" and ?m = "e_manifest (s_engine s)"
  note D = storedD [OF assms(1)]
  obtain res rest where ch: "e_flushDoneCh ?e = res # rest" using assms(3) by (auto simp: run_flush_done_def split: list.splits)
  then obtain f n off where F: "e_frozen ?e = Some f" "memtable_wf f" "sint off = int (length (log_of (take j recs)))"
    "n < e_flushCount ?e" "filepath_Join (e_dataDir ?e) (flush_name n) \<notin> Path ` set (Segments ?m)"
    and job: "s_flushJobs s = []" and rest: "rest = []" and ok: "flushed ?st f (filepath_Join (e_dataDir ?e) (flush_name n)) off res"
    using D(4) by (auto simp: flush_phase_def)
  let ?path = "filepath_Join (e_dataDir ?e) (flush_name n)"
  obtain e' st' where app: "applyFlushResult res (active_at now ?e\<lparr>e_flushDoneCh := []\<rparr>) ?st = (e', st')"
    and s': "s' = s\<lparr>s_engine := e', s_os := st'\<rparr>"
    using assms(3) ch rest by (auto simp: run_flush_done_def split: prod.splits)
  note keeps = applyFlushResult_keeps [OF app]
  have mem: "k \<le> j" "j \<le> length recs" using D(2) by (simp_all add: mem_inv_def)
  have frozen: "mset (memtable_Get f sid) = mset (writes_for sid (drop k (take j recs)))" for sid
    using D(2) F(1) by (simp add: mem_inv_def FrozenPoints_def)
  show ?thesis
  proof (cases "m_series f = []")
    case True
    then have same: "e_manifest e' = ?m" "st' = ?st"
      using app ok by (auto simp: applyFlushResult_def Let_def flushed_def active_at_def)
    have "mset (memtable_Get f sid) = {#}" for sid using True by (simp add: memtable_Get_def)
    then have none: "mset (writes_for sid (drop k (take j recs))) = {#}" for sid using frozen by simp
    have "mem_inv recs k j e'"
      using D(2) none keeps by (simp add: mem_inv_def GetPoints_def FrozenPoints_def active_at_def)
    moreover have "seg_inv recs k e' ?st" using D(3) same keeps by (simp add: seg_inv_def active_at_def)
    moreover have "compact_phase e' ?st (s_compactJobs s)" using D(5) same keeps by (simp add: compact_phase_def active_at_def)
    ultimately show ?thesis
      using D(1,6) job keeps same by (intro exI [of _ k]) (simp add: stored_def Let_def s' flush_phase_def active_at_def)
  next
    case False
    let ?en = "\<lparr>Path = ?path, BlockStart = fd_BlockStart res, BlockEnd = fd_BlockEnd res, SeriesCount = fd_SeriesCount res, Size = 0\<rparr>"
    let ?m1 = "?m\<lparr>Segments := Segments ?m @ [?en]\<rparr>" and ?m2 = "?m\<lparr>Segments := Segments ?m @ [?en], WALOffset := off\<rparr>"
    have res: "fd_Err res = None" "fd_SegmentPath res = ?path" "fd_WALOffset res = off" using ok False by (simp_all add: flushed_def)
    have saved: "flush_saved res ?m ?st" using assms(2) ch res(2) by (simp add: clean_def Let_def)
    obtain err1 m1 st1 where op1: "man_Add ?en ?m ?st = (err1, m1, st1)" by (metis prod_cases3)
    obtain err2 m2 st2 where op2: "man_SetWALOffset off m1 st1 = (err2, m2, st2)" by (metis prod_cases3)
    have err: "err1 = None" "err2 = None" using saved op1 op2 by (simp_all add: flush_saved_def res)
    then have save: "man_save ?m1 ?st = (None, st1)" "man_save ?m2 st1 = (None, st2)" and ms: "m1 = ?m1" "m2 = ?m2"
      using op1 op2 by (auto simp: man_op_save)
    have e': "e_manifest e' = ?m2" and st': "st' = st2"
      using app res op1 op2 err ms by (auto simp: applyFlushResult_def Let_def active_at_def)
    have t: "touches (manifest_files ?m) ?st st'"
      using touches_trans [OF man_save_touches [OF save(1)]] man_save_touches [OF save(2)] by (simp add: st')
    have load: "man_Load (man_path ?m2) st' = Inr ?m2" using man_save_ok [OF save(2)] by (simp add: st')
    have "entry_ok ?st ?en \<and> reads_safely ?st (Path ?en)"
      using ok False memtable_Get_sorted [OF F(2)] by (simp add: entry_ok_def flushed_def Let_def)
    moreover have "mset (segment_points ?st sid (Path ?en)) + mset (writes_for sid (take k recs)) = mset (writes_for sid (take j recs))" for sid
      using ok False frozen [of sid] writes_take_split [OF mem(1), of sid recs] by (simp add: flushed_def add.commute)
    ultimately have seg: "seg_inv recs j e' st'"
      using F(4,5) keeps by (intro seg_inv_add [OF D(3) t refl load, where n = n and e' = e']) (simp_all add: e' active_at_def)
    have "compact_phase ?e st' (s_compactJobs s)"
    proof (rule compact_phase_touches [OF D(5) t])
      show "manifest_files ?m \<inter> Path ` set (Segments ?m) = {}" using D(3) by (auto simp: seg_inv_def Let_def)
      show "compaction_output cands (e_dataDir ?e) \<notin> manifest_files ?m" for cands
        using seg_inv_names(4,5) [OF D(3), of cands] by simp
    qed
    then have comp: "compact_phase e' st' (s_compactJobs s)"
      using keeps by (auto simp: compact_phase_def e' Let_def active_at_def flush_paths(2) [symmetric])
    have "mem_inv recs j j e'" using D(2) keeps by (simp add: mem_inv_def GetPoints_def FrozenPoints_def active_at_def)
    moreover have "log_inv recs j (e_wal e') (e_manifest e')" using D(1) F(3) keeps by (simp add: log_inv_def e' active_at_def)
    ultimately show ?thesis
      using D(6) job keeps seg comp by (intro exI [of _ j]) (simp add: stored_def Let_def s' flush_phase_def active_at_def)
  qed
qed

subsection \<open>Compaction\<close>

lemma mset_all_points:
  "mset (all_points st es sid) = sum_mset (image_mset (\<lambda>e. mset (segment_points st sid (Path e))) (mset es))"
  by (induction es) (simp_all add: all_points_def)

lemma all_points_partition:
  assumes "distinct (map Path es)" and "set cands \<subseteq> set es" and "distinct cands"
  shows "mset (all_points st es sid) =
    mset (all_points st (filter (\<lambda>e. Path e \<notin> Path ` set cands) es) sid) + mset (all_points st cands sid)"
proof -
  have "Path e \<in> Path ` set cands \<longleftrightarrow> e \<in> set cands" if "e \<in> set es" for e
    using assms(1,2) that by (auto simp: distinct_map dest: inj_onD)
  then have "set (filter (\<lambda>e. Path e \<in> Path ` set cands) es) = set cands" using assms(2) by auto
  moreover have "distinct (filter (\<lambda>e. Path e \<in> Path ` set cands) es)" using assms(1) by (simp add: distinct_map)
  ultimately have "mset (filter (\<lambda>e. Path e \<in> Path ` set cands) es) = mset cands"
    using assms(3) set_eq_iff_mset_eq_distinct by blast
  moreover have "mset es = mset (filter (\<lambda>e. Path e \<notin> Path ` set cands) es) + mset (filter (\<lambda>e. Path e \<in> Path ` set cands) es)"
    using multiset_partition [of "mset es" "\<lambda>e. Path e \<notin> Path ` set cands"] by simp
  ultimately show ?thesis by (simp only: mset_all_points image_mset_union sum_mset.union)
qed

lemma stored_compact_job:
  assumes "runtime_ok rt" and "stored recs k j s" and "clean rt (CompactJob i) s" and "run_compact_job rt i s = Some (Completes s')"
  shows "stored recs k j s'"
proof -
  let ?e = "s_engine s" and ?st = "s_os s" and ?es = "Segments (e_manifest (s_engine s))"
  note D = storedD [OF assms(2)]
  have i: "i < length (s_compactJobs s)" using assms(4) by (auto simp: run_compact_job_def split: if_splits)
  then obtain cands where C: "set cands \<subseteq> set ?es" "distinct cands" and job: "s_compactJobs s = [(cands, e_dataDir ?e)]"
    and ch: "e_compactionDoneCh ?e = []"
    using D(5) by (auto simp: compact_phase_def Let_def)
  let ?out = "compaction_output cands (e_dataDir ?e)"
  have i0: "i = 0" using i job by simp
  obtain res st' where r: "compaction_job rt cands (e_dataDir ?e) ?st = (Inr res, st')"
    and s': "s' = s\<lparr>s_os := st', s_compactJobs := [], s_engine := ?e\<lparr>e_compactionDoneCh := [res]\<rparr>\<rparr>"
    using assms(4) job ch i0 by (auto simp: run_compact_job_def split: if_splits prod.splits sum.splits)
  have cl: "cd_Err res = None" "sum_list (map (segment_total ?st \<circ> Path) cands) < 2 ^ 32" "?out \<notin> Path ` set ?es"
    using assms(3) job i0 r by (simp_all add: clean_def Let_def)
  have "moderate p" if "p \<in> set (all_points ?st cands sid)" for sid p
  proof -
    have "set (all_points ?st cands sid) \<subseteq> set (all_points ?st ?es sid)" using C(1) by (auto simp: all_points_def)
    moreover have "mset (all_points ?st ?es sid) = mset (writes_for sid (take k recs))"
      using D(3) by (simp add: seg_inv_def Let_def)
    then have "set (all_points ?st ?es sid) = set (writes_for sid (take k recs))" by (rule mset_eq_setD)
    moreover have "set (take k recs) \<subseteq> set recs" by (auto dest: in_set_takeD)
    ultimately show ?thesis using writes_moderate D(1) that unfolding log_inv_def by blast
  qed
  then have J: "cd_OldPaths res = map Path cands" "cd_SegmentPath res = ?out" "touches {?out} ?st st'" "reads_safely st' ?out"
    "\<And>sid. let pts = segment_points st' sid ?out in sorted (map ts pts) \<and> mset pts = mset (all_points ?st cands sid) \<and>
       (\<forall>p\<in>set pts. sint (cd_BlockStart res) \<le> ts p \<and> ts p \<le> sint (cd_BlockEnd res))"
    using compaction_job_ok [OF assms(1) _ cl(2) r cl(1)] by blast+
  have "all_points st' cands sid = all_points ?st cands sid" for sid
    by (rule all_points_touches [OF J(3)]) (use C(1) cl(3) in auto)
  then have "compacted st' cands ?out res" using J cl(1) by (simp add: compacted_def Let_def)
  then have "compact_phase (s_engine s') st' []"
    using C cl(3) unfolding compact_phase_def Let_def by (intro disjI2 exI [of _ cands]) (simp add: s')
  moreover have "seg_inv recs k ?e st'"
    by (rule seg_inv_touches [OF D(3) J(3)]) (use cl(3) seg_inv_names(4) [OF D(3), of cands] in auto)
  then have "seg_inv recs k (s_engine s') st'" by (simp add: seg_inv_def s')
  moreover have "flush_phase recs j ?e st' (s_flushJobs s)"
    by (rule flush_phase_touches [OF D(4) J(3)]) simp
  then have "flush_phase recs j (s_engine s') st' (s_flushJobs s)" by (simp add: flush_phase_def s')
  moreover have "mem_inv recs k j (s_engine s')" using D(2) by (simp add: mem_inv_def s' GetPoints_def FrozenPoints_def)
  ultimately show ?thesis using D(1,6) by (simp add: stored_def Let_def s')
qed

lemma stored_compaction_done:
  assumes "stored recs k j s" and "clean rt (CompactionDone now) s" and "run_compaction_done now s = Some s'"
  shows "stored recs k j s'"
proof -
  let ?e = "s_engine s" and ?st = "s_os s" and ?m = "e_manifest (s_engine s)"
  note D = storedD [OF assms(1)] and N = seg_inv_names [OF storedD(3) [OF assms(1)]]
  obtain res rest where ch: "e_compactionDoneCh ?e = res # rest" using assms(3) by (auto simp: run_compaction_done_def split: list.splits)
  then obtain cands where C: "set cands \<subseteq> set (Segments ?m)" "distinct cands"
    and out: "compaction_output cands (e_dataDir ?e) \<notin> Path ` set (Segments ?m)" and job: "s_compactJobs s = []" and rest: "rest = []"
    and ok: "compacted ?st cands (compaction_output cands (e_dataDir ?e)) res"
    using D(5) by (auto simp: compact_phase_def Let_def)
  let ?out = "compaction_output cands (e_dataDir ?e)" and ?old = "Path ` set cands"
  let ?en = "\<lparr>Path = ?out, BlockStart = cd_BlockStart res, BlockEnd = cd_BlockEnd res, SeriesCount = cd_SeriesCount res, Size = 0\<rparr>"
  let ?es = "filter (\<lambda>e. Path e \<notin> ?old) (Segments ?m)"
  let ?m1 = "?m\<lparr>Segments := Segments ?m @ [?en]\<rparr>" and ?m2 = "?m\<lparr>Segments := ?es @ [?en]\<rparr>"
  have res: "cd_Err res = None" "cd_OldPaths res = map Path cands" "cd_SegmentPath res = ?out" using ok by (simp_all add: compacted_def)
  obtain e' st' where app: "applyCompactionResult res (active_at now ?e\<lparr>e_compactionDoneCh := []\<rparr>) ?st = (e', st')"
    and s': "s' = s\<lparr>s_engine := e', s_os := st'\<rparr>"
    using assms(3) ch rest by (auto simp: run_compaction_done_def split: prod.splits)
  note keeps = applyCompactionResult_keeps [OF app]
  have saved: "compaction_saved res ?m ?st" using assms(2) ch by (simp add: clean_def Let_def)
  obtain err1 m1 st1 where op1: "man_Add ?en ?m ?st = (err1, m1, st1)" by (metis prod_cases3)
  obtain err2 m2 st2 where op2: "man_RemoveBatch (map Path cands) m1 st1 = (err2, m2, st2)" by (metis prod_cases3)
  have err: "err1 = None" "err2 = None" using saved op1 op2 by (simp_all add: compaction_saved_def res)
  have "?out \<notin> ?old" using C(1) out by blast
  then have save: "man_save ?m1 ?st = (None, st1)" "man_save ?m2 st1 = (None, st2)" and ms: "m1 = ?m1" "m2 = ?m2"
    using op1 op2 err by (auto simp: man_op_save)
  have e': "e_manifest e' = ?m2" and st': "st' = remove_files (map Path cands) st2"
    using app res op1 op2 err ms by (auto simp: applyCompactionResult_def Let_def active_at_def)
  have t12: "touches (manifest_files ?m) ?st st2"
    using touches_trans [OF man_save_touches [OF save(1)]] man_save_touches [OF save(2)] by simp
  have t3: "touches ?old st2 st'" using remove_files_touches [of "map Path cands" st2] by (simp add: st')
  have t: "touches (manifest_files ?m \<union> ?old) ?st st'"
    by (rule touches_trans [OF touches_mono [OF t12] touches_mono [OF t3]]) auto
  have listed: "Path x \<notin> manifest_files ?m" if "x \<in> set (Segments ?m)" for x
    using D(3) that by (auto simp: seg_inv_def Let_def)
  then have paths: "Path x \<notin> manifest_files ?m \<union> ?old" if "x \<in> set (?es @ [?en])" for x
    using that N(4,5) [of cands] out C(1) by auto
  have "entry_ok ?st ?en \<and> reads_safely ?st ?out" using ok by (simp add: entry_ok_def compacted_def Let_def)
  then have entries: "entry_ok st' x \<and> reads_safely st' (Path x)" if "x \<in> set (?es @ [?en])" for x
    using entry_ok_touches [OF t paths [OF that]] reads_safely_touches [OF t paths [OF that]] D(3) that by (auto simp: seg_inv_def Let_def)
  have "Path ` set (?es @ [?en]) \<inter> (manifest_files ?m \<union> ?old) = {}" using paths by blast
  from all_points_touches [OF t this]
  have new: "all_points st' (?es @ [?en]) sid = all_points ?st ?es sid @ segment_points ?st sid ?out" for sid by (simp add: all_points_def)
  have part: "mset (all_points ?st ?es sid) + mset (segment_points ?st sid ?out) = mset (all_points ?st (Segments ?m) sid)" for sid
    using all_points_partition [OF _ C, of ?st sid] D(3) ok by (simp add: seg_inv_def compacted_def Let_def)
  have "mset (all_points ?st (Segments ?m) sid) = mset (writes_for sid (take k recs))" for sid
    using D(3) by (simp add: seg_inv_def Let_def)
  then have points: "mset (all_points st' (?es @ [?en]) sid) = mset (writes_for sid (take k recs))" for sid
    by (simp only: new mset_append part)
  have "man_path ?m \<notin> Path ` set (Segments ?m)"
  proof
    assume "man_path ?m \<in> Path ` set (Segments ?m)"
    then obtain x where "x \<in> set (Segments ?m)" "Path x = man_path ?m" by auto
    then show False using listed [of x] by simp
  qed
  then have "man_path ?m \<notin> ?old" using C(1) by (meson image_mono subsetD)
  moreover have "man_path ?m2 = man_path ?m" by simp
  ultimately have load: "man_Load (man_path ?m) st' = Inr ?m2"
    using man_Load_touches [OF t3] man_save_ok [OF save(2)] by metis
  have dist: "distinct (map Path (?es @ [?en]))" using D(3) out by (auto simp: seg_inv_def Let_def distinct_map inj_on_def)
  have names: "n < e_flushCount ?e" if "x \<in> set (?es @ [?en])" "Path x = filepath_Join (e_dataDir ?e) (flush_name n)" for x n
  proof (cases "x = ?en")
    case True
    then show ?thesis using that(2) by (simp add: flush_paths(2) [symmetric])
  next
    case False
    then have "x \<in> set (Segments ?m)" using that(1) by simp
    then show ?thesis using seg_inv_flush_names [OF D(3)] that(2) by blast
  qed
  have "seg_inv recs k (?e\<lparr>e_manifest := ?m2\<rparr>) st'"
  proof (rule seg_invI [OF _ dist entries _ _ points])
    show "Path x \<notin> manifest_files (e_manifest (?e\<lparr>e_manifest := ?m2\<rparr>))" if "x \<in> set (?es @ [?en])" for x
      using paths [OF that] by simp
    show "n < e_flushCount (?e\<lparr>e_manifest := ?m2\<rparr>)" if "x \<in> set (?es @ [?en])"
        "Path x = filepath_Join (e_dataDir (?e\<lparr>e_manifest := ?m2\<rparr>)) (flush_name n)" for x n
      using names [OF that(1)] that(2) by simp
  qed (use load N(1) in \<open>simp_all add: names_apart_def\<close>)
  then have seg: "seg_inv recs k e' st'" using keeps by (simp add: seg_inv_def e' active_at_def)
  have "flush_phase recs j ?e st' (s_flushJobs s)"
  proof (rule flush_phase_touches [OF D(4) t])
    fix n assume "filepath_Join (e_dataDir ?e) (flush_name n) \<notin> Path ` set (Segments ?m)"
    then have "filepath_Join (e_dataDir ?e) (flush_name n) \<notin> ?old" using C(1) by (meson image_mono subsetD)
    then show "filepath_Join (e_dataDir ?e) (flush_name n) \<notin> manifest_files ?m \<union> ?old" using N(2,3) by simp
  qed
  then have fl: "flush_phase recs j e' st' (s_flushJobs s)"
    by (rule flush_phase_listed) (use keeps in \<open>auto simp: e' active_at_def\<close>)
  have "mem_inv recs k j e'" using D(2) keeps by (simp add: mem_inv_def GetPoints_def FrozenPoints_def active_at_def)
  moreover have "log_inv recs k (e_wal e') (e_manifest e')" using D(1) keeps by (simp add: log_inv_def e' active_at_def)
  ultimately show ?thesis
    using D(6) job keeps seg fl by (simp add: stored_def Let_def s' compact_phase_def active_at_def)
qed

subsection \<open>Every event of a clean run keeps it\<close>

lemma stored_take_command:
  assumes "runtime_ok rt" and "stored recs k j s" and "clean rt (TakeCommand now) s"
    and "run_command rt now s = Some (Completes s')"
  shows "stored (recs @ accepted_by (TakeCommand now) s) k j s'"
proof -
  let ?e = "s_engine s"
  obtain cmd cmds where ch: "e_cmdCh ?e = cmd # cmds" using assms(4) by (auto simp: run_command_def split: list.splits)
  let ?s = "s\<lparr>s_engine := active_at now ?e\<lparr>e_cmdCh := cmds\<rparr>\<rparr>"
  have calm: "calm_command cmd" "\<forall>cmd\<in>set cmds. calm_command cmd" using storedD(6) [OF assms(2)] ch by simp_all
  have st: "stored recs k j ?s" by (rule stored_same [OF assms(2)]) (use calm in \<open>simp_all add: active_at_def\<close>)
  have run: "dispatch rt cmd ?s = Completes s'" using assms(4) ch by (simp add: run_command_def)
  have logged: "logged_ok (e_wal ?e) cmd" and single: "Kind cmd = CompactionCmd \<Longrightarrow> s_compactJobs s = [] \<and> e_compactionDoneCh ?e = []"
    using assms(3) ch by (simp_all add: clean_def Let_def)
  have written: "stored (recs @ fst (log_writes (e_wal ?e) ps)) k j s'"
    if ans: "answer ?s (batch_loop rt 0 ps (s_engine ?s)) = Completes s'" and fine: "fst (snd (log_writes (e_wal ?e) ps)) = None"
      and okay: "\<forall>p\<in>set ps. write_ok p" for ps
  proof -
    obtain acc err w where lw0: "log_writes (e_wal ?e) ps = (acc, err, w)" by (metis prod_cases3)
    then have lw: "log_writes (e_wal (s_engine ?s)) ps = (acc, None, w)" using fine by (simp add: active_at_def)
    obtain r e' where b: "batch_loop rt 0 ps (s_engine ?s) = Inr (r, e')" and s': "s' = reply r (?s\<lparr>s_engine := e'\<rparr>)"
      using ans by (cases "batch_loop rt 0 ps (s_engine ?s)") (auto simp: answer_def)
    show ?thesis using stored_write [OF assms(1) st okay lw b] by (simp add: s' lw0)
  qed
  obtain kd pl where cmd: "cmd = \<lparr>Kind = kd, Payload = pl\<rparr>" by (cases cmd) simp
  show ?thesis
  proof (cases kd)
    case WriteCmd
    then obtain p where p: "pl = PWrite p" using run by (cases pl) (auto simp: cmd dispatch_def answer_def handleWrite_def Let_def)
    then have "answer ?s (batch_loop rt 0 [p] (s_engine ?s)) = Completes s'"
      using run WriteCmd by (simp add: cmd dispatch_def Let_def handleWrite_batch)
    from written [OF this] show ?thesis
      using logged calm(1) WriteCmd p ch by (simp add: cmd logged_ok_def calm_command_def accepted_by_def del: log_writes.simps)
  next
    case BatchWriteCmd
    then obtain ps where p: "pl = PBatch ps" using run by (cases pl) (auto simp: cmd dispatch_def answer_def handleBatchWrite_def Let_def)
    then have "answer ?s (batch_loop rt 0 ps (s_engine ?s)) = Completes s'"
      using run BatchWriteCmd by (simp add: cmd dispatch_def Let_def handleBatchWrite_def)
    from written [OF this] show ?thesis
      using logged calm(1) BatchWriteCmd p ch by (simp add: cmd logged_ok_def calm_command_def accepted_by_def)
  next
    case QueryCmd
    then obtain q where p: "pl = PQuery q" using run by (cases pl) (auto simp: cmd dispatch_def answer_def handleQuery_def Let_def)
    then obtain r e' where "handleQuery pl (s_engine ?s) (s_os ?s) = Inr (r, e')" "s' = reply r (?s\<lparr>s_engine := e'\<rparr>)"
      using run QueryCmd by (cases "handleQuery pl (s_engine ?s) (s_os ?s)") (auto simp: cmd dispatch_def answer_def Let_def)
    then have s': "s' = reply r (?s\<lparr>s_engine := query_counted (s_engine ?s)\<rparr>)" using handleQuery_keeps by blast
    have "stored recs k j (?s\<lparr>s_engine := query_counted (s_engine ?s)\<rparr>)"
      by (rule stored_same [OF st]) (use calm in \<open>simp_all add: query_counted_def active_at_def\<close>)
    then show ?thesis using QueryCmd ch p by (simp add: s' cmd accepted_by_def)
  next
    case CompactionCmd
    show ?thesis
    proof (cases "handleCompaction rt (s_engine ?s)")
      case (Pair r job)
      show ?thesis
      proof (cases job)
        case None
        then show ?thesis using run st Pair CompactionCmd ch by (simp add: cmd dispatch_def Let_def accepted_by_def) (metis append_Nil2 stored_reply)
      next
        case (Some jb)
        have "stored recs k j (?s\<lparr>s_compactJobs := s_compactJobs ?s @ [jb]\<rparr>)"
          by (rule stored_compaction [OF assms(1) st]) (use Pair Some single CompactionCmd cmd in \<open>simp_all add: active_at_def\<close>)
        then show ?thesis using run Pair Some CompactionCmd ch by (auto simp: cmd dispatch_def Let_def accepted_by_def)
      qed
    qed
  next
    case FlushDoneCmd
    then show ?thesis using calm(1) by (simp add: cmd calm_command_def)
  next
    case RetentionCmd
    then show ?thesis using calm(1) by (simp add: cmd calm_command_def)
  next
    case CompactionDoneCmd
    then have "s' = reply (RespErr ErrUnknownCommand) ?s" using run by (simp add: cmd dispatch_def Let_def)
    then show ?thesis using st CompactionDoneCmd ch by (simp add: cmd accepted_by_def)
  next
    case ShutdownCmd
    then have "s' = reply (RespErr ErrUnknownCommand) ?s" using run by (simp add: cmd dispatch_def Let_def)
    then show ?thesis using st ShutdownCmd ch by (simp add: cmd accepted_by_def)
  qed
qed

lemma stored_exec:
  assumes "runtime_ok rt" and "stored recs k j s" and "clean rt ev s" and "exec rt ev s = Some (Completes s')"
  shows "\<exists>k' j'. stored (recs @ accepted_by ev s) k' j' s'"
proof (cases ev)
  case (Client cmd)
  have "stored recs k j s'"
    using assms(3,4) storedD(6) [OF assms(2)] Client
    by (intro stored_same [OF assms(2)])
      (auto simp: exec_def from_loop_def clean_def Submit_def split: if_splits)
  then show ?thesis using Client by (auto simp: accepted_by_def)
next
  case (TakeCommand now)
  then have "run_command rt now s = Some (Completes s')" using assms(4) by (simp add: exec_def split: if_splits)
  from stored_take_command [OF assms(1,2) _ this] show ?thesis using assms(3) TakeCommand by blast
next
  case (Tick now)
  then have t: "run_tick now s = Some s'" using assms(4) by (auto simp: exec_def split: if_splits)
  show ?thesis
  proof (cases rule: maybeRotate_cases [of "active_at now (s_engine s)"])
    case 1
    have "stored recs k j s'"
      using storedD(6) [OF assms(2)] t unfolding run_tick_def 1(1)
      by (intro stored_same [OF assms(2)]) (auto simp: active_at_def split: if_splits)
    then show ?thesis using Tick by (auto simp: accepted_by_def)
  next
    case (2 f)
    have ticking: "e_ticking (s_engine s)" using t by (auto simp: run_tick_def split: if_splits)
    have full: "e_memtableSize (s_engine s) \<le> memtable_SizeBytes (e_active (s_engine s))"
      using 2(2) by (auto simp: maybeRotateMemtable_def active_at_def split: if_splits)
    then have cl: "w_offset (e_wal (s_engine s)) < 2 ^ 63" "e_frozen (s_engine s) = None"
      using assms(3) Tick by (simp_all add: clean_def Let_def)
    have f: "f = (e_active (s_engine s))\<lparr>m_frozen := True\<rparr>" using 2(1) by (simp add: active_at_def)
    have "stored recs k (length recs) s'"
      using stored_rotate [OF assms(2) cl f refl refl, of now] t ticking unfolding run_tick_def 2(2)
      by (simp add: active_at_def)
    then show ?thesis using Tick by (auto simp: accepted_by_def)
  qed
next
  case (FlushDone now)
  then have "run_flush_done now s = Some s'" using assms(4) by (auto simp: exec_def split: if_splits)
  then obtain k' where "stored recs k' j s'" using stored_flush_done [OF assms(2)] assms(3) FlushDone by blast
  then show ?thesis using FlushDone by (auto simp: accepted_by_def)
next
  case (CompactionDone now)
  then have "run_compaction_done now s = Some s'" using assms(4) by (auto simp: exec_def split: if_splits)
  from stored_compaction_done [OF assms(2) _ this] show ?thesis using assms(3) CompactionDone by (auto simp: accepted_by_def)
next
  case (FlushJob i)
  then have "run_flush_job rt i s = Some (Completes s')" using assms(4) by (simp add: exec_def from_loop_def)
  from stored_flush_job [OF assms(1,2) _ this] show ?thesis using assms(3) FlushJob by (auto simp: accepted_by_def)
next
  case (CompactJob i)
  then have "run_compact_job rt i s = Some (Completes s')" using assms(4) by (auto simp: exec_def from_loop_def)
  from stored_compact_job [OF assms(1,2) _ this] show ?thesis using assms(3) CompactJob by (auto simp: accepted_by_def)
next
  case Shutdown
  then show ?thesis using assms(3) by (simp add: clean_def Let_def)
next
  case Fsync
  then have s': "s' = run_fsync s" using assms(4) by (simp add: exec_def from_loop_def)
  note D = storedD [OF assms(2)]
  have "log_inv recs k (e_wal (s_engine s')) (e_manifest (s_engine s'))"
    using D(1) fsyncLoop_tick_log [of "e_wal (s_engine s)"] by (simp add: log_inv_def s' run_fsync_def)
  then have "stored recs k j s'"
    using D(2-6) by (simp add: stored_def Let_def s' run_fsync_def mem_inv_def seg_inv_def flush_phase_def compact_phase_def
        GetPoints_def FrozenPoints_def)
  then show ?thesis using Fsync by (auto simp: accepted_by_def)
next
  case (Device free wfree ok)
  then have s': "s' = set_device free wfree ok s" using assms(4) by (simp add: exec_def from_loop_def)
  note D = storedD [OF assms(2)]
  let ?st = "(s_os s)\<lparr>o_free := free\<rparr>"
  have t: "touches {} (s_os s) ?st" by simp
  have "log_bytes (e_wal (s_engine s')) = log_bytes (e_wal (s_engine s))"
    "wal_wf (e_wal (s_engine s')) = wal_wf (e_wal (s_engine s))"
    by (simp_all add: s' set_device_def wal_wf_def log_bytes_def)
  then have "log_inv recs k (e_wal (s_engine s')) (e_manifest (s_engine s'))"
    using D(1) by (simp add: log_inv_def) (simp add: s' set_device_def)
  moreover have "seg_inv recs k (s_engine s) ?st" using seg_inv_touches [OF D(3) t] by simp
  moreover have "flush_phase recs j (s_engine s) ?st (s_flushJobs s)" using flush_phase_touches [OF D(4) t] by simp
  moreover have "compact_phase (s_engine s) ?st (s_compactJobs s)" using compact_phase_touches [OF D(5) t] by simp
  ultimately have "stored recs k j s'"
    using D(2,6) by (simp add: stored_def Let_def s' set_device_def mem_inv_def seg_inv_def flush_phase_def compact_phase_def
        GetPoints_def FrozenPoints_def)
  then show ?thesis using Device by (auto simp: accepted_by_def)
next
  case (IndexInsert sid metric tags)
  then have s': "s' = index_series sid metric tags s" using assms(4) by (simp add: exec_def from_loop_def)
  have "stored recs k j s'"
    using storedD(6) [OF assms(2)] by (intro stored_same [OF assms(2)]) (simp_all add: s' index_series_def SetIndex_def)
  then show ?thesis using IndexInsert by (auto simp: accepted_by_def)
qed

lemma stored_run:
  assumes "clean_run rt s0 ws s" and "runtime_ok rt" and "stored recs k0 j0 s0"
  shows "\<exists>k j. stored (recs @ ws) k j s"
  using assms(1)
proof (induction rule: clean_run.induct)
  case clean_Nil
  then show ?case using assms(3) by auto
next
  case (clean_step ws s ev s')
  then show ?case using stored_exec [OF assms(2)] by fastforce
qed

text \<open>In such a state nothing panics.\<close>

lemma stored_no_panic:
  assumes "runtime_ok rt" and "stored recs k j s" and "\<forall>cmd\<in>set (e_cmdCh (s_engine s)). command_ok cmd"
  shows "exec rt ev s \<noteq> Some (Panics err)"
proof
  assume p: "exec rt ev s = Some (Panics err)"
  note D = storedD [OF assms(2)]
  have "system_wf s"
    using D(2,4) assms(3) by (auto simp: system_wf_def mem_inv_def flush_phase_def)
  moreover have listed: "\<forall>en\<in>set (Segments (e_manifest (s_engine s))). reads_safely (s_os s) (Path en)"
    using D(3) by (simp add: seg_inv_def Let_def)
  moreover have "\<forall>en\<in>set (fst (s_compactJobs s ! i)). reads_safely (s_os s) (Path en)" if "i < length (s_compactJobs s)" for i
    using D(5) that listed by (auto simp: compact_phase_def Let_def)
  ultimately show False using exec_panics [OF assms(1) _ p] by blast
qed

end
