(* ===== verification/Engine_Props.thy ===== *)
theory Engine_Props
  imports Engine_Store
begin

text \<open>
  What clients and operators rely on: a query returns exactly the accepted points of its range, and
  after a crash the engine comes back with a prefix of the accepted writes, nothing lost that
  was synced and nothing stored twice.
\<close>

subsection \<open>Start\<close>

lemma NewWriter_fresh:
  assumes "NewWriter (Inr f) [WithFsyncInterval d, WithByteThreshold n] = Inr w"
  shows "w_file w = f" and "w_buf w = []" and "w_offset w = int (length (f_data f))" and "\<not> w_bufErr w" and "w_bytesSinceFlush w = 0"
  using assms by (auto simp: NewWriter_def Let_def WithFsyncInterval_def WithByteThreshold_def split: if_splits)

lemma engine_New_dirs:
  assumes "engine_New walFile st now cfg = Inr e"
  shows "e_dataDir e = (if cfg_DataDir cfg = [] then filepath_Dir (cfg_WALPath cfg) else cfg_DataDir cfg)"
  using assms unfolding engine_New_def res_bind_eq_Inr by (auto simp: Let_def split: if_splits)

text \<open>A fresh database: an empty log, no manifest, and a manifest path apart from the segment files.\<close>

definition fresh_start :: "os_file \<Rightarrow> os_state \<Rightarrow> EngineConfig \<Rightarrow> bool" where
  "fresh_start walFile st cfg \<longleftrightarrow> f_data walFile = [] \<and> f_synced walFile = 0 \<and>
     o_files st (cfg_ManifestPath cfg) = None \<and> \<not> o_denied st (cfg_ManifestPath cfg) \<and>
     names_apart (man_New (cfg_ManifestPath cfg)) (if cfg_DataDir cfg = [] then filepath_Dir (cfg_WALPath cfg) else cfg_DataDir cfg)"

lemma fresh_stored:
  assumes "fresh_start f st cfg" and "engine_New (Inr f) st now cfg = Inr e"
  shows "stored [] 0 0 (started (SetIndex idx e) st)"
proof -
  note F = engine_New_fields [OF assms(2)] and W = NewWriter_fresh [OF engine_New_fields(8) [OF assms(2)]]
  have load: "man_Load (cfg_ManifestPath cfg) st = Inr (man_New (cfg_ManifestPath cfg))"
    using assms(1) by (simp add: fresh_start_def man_Load_def os_ReadFile_def)
  then have m: "e_manifest e = man_New (cfg_ManifestPath cfg)" using F(7) by simp
  have "log_inv [] 0 (e_wal e) (e_manifest e)"
    using assms(1) W by (simp add: log_inv_def wal_wf_def log_bytes_def fresh_start_def m man_New_def)
  moreover have "memtable_live memtable_New" by (simp add: memtable_live_def) (simp add: memtable_New_def)
  then have "mem_inv [] 0 0 (SetIndex idx e)" using F by (simp add: mem_inv_def SetIndex_def GetPoints_def FrozenPoints_def)
  moreover have "seg_inv [] 0 (SetIndex idx e) st"
    using assms(1) load engine_New_dirs [OF assms(2)]
    by (simp add: seg_inv_def SetIndex_def m Let_def fresh_start_def all_points_def) (simp add: man_New_def)
  moreover have "flush_phase [] 0 (SetIndex idx e) st []" "compact_phase (SetIndex idx e) st []"
    using F by (simp_all add: flush_phase_def compact_phase_def SetIndex_def)
  ultimately show ?thesis using F(3) by (simp add: stored_def started_def Let_def) (simp add: SetIndex_def)
qed

subsection \<open>Queries\<close>

lemma Merge_sorted: "\<forall>l\<in>set ls. sorted (map ts l) \<Longrightarrow> sorted (map ts (Merge ls))"
proof -
  assume "\<forall>l\<in>set ls. sorted (map ts l)"
  moreover from this have "length (filter (\<lambda>l. l \<noteq> []) ls) \<le> 1 \<Longrightarrow> sorted (map ts (concat ls))"
    by (induction ls) (auto simp: filter_empty_conv sorted_append split: if_splits)
  ultimately show ?thesis using query_merge [of ls] by (simp only: split: if_splits) simp
qed

lemma Merge_below_Max:
  assumes "\<forall>l\<in>set ls. sorted (map ts l)" and "\<And>p. P p \<Longrightarrow> Timestamp p \<noteq> MaxInt64"
  shows "filter_mset P (mset (Merge ls)) = filter_mset P (mset (concat ls))"
proof -
  have "filter P (filter (\<lambda>p. Timestamp p \<noteq> MaxInt64) xs) = filter P xs" for xs using assms(2) by (induction xs) auto
  then have "filter_mset P (mset (filter (\<lambda>p. Timestamp p \<noteq> MaxInt64) (concat ls))) = filter_mset P (mset (concat ls))"
    by (metis mset_filter)
  then show ?thesis using query_merge [OF assms(1)] by simp
qed

text \<open>Entries whose block range misses the query have no point in it.\<close>

lemma query_paths_points:
  assumes "\<forall>en\<in>set (Segments m). entry_ok st en"
  shows "filter_mset (\<lambda>p. sint a \<le> ts p \<and> ts p \<le> sint b) (mset (concat (map (segment_points st sid) (query_paths m a b)))) =
    filter_mset (\<lambda>p. sint a \<le> ts p \<and> ts p \<le> sint b) (mset (all_points st (Segments m) sid))"
proof -
  let ?P = "\<lambda>p. sint a \<le> ts p \<and> ts p \<le> sint b"
  have "filter ?P (concat (map (segment_points st sid) (map Path (filter (\<lambda>en. sint (BlockStart en) \<le> sint b \<and> sint (BlockEnd en) \<ge> sint a) es))))
      = filter ?P (all_points st es sid)" if "\<forall>en\<in>set es. entry_ok st en" for es
    using that
  proof (induction es)
    case (Cons en es)
    have "filter ?P (segment_points st sid (Path en)) = []"
      if "\<not> (sint (BlockStart en) \<le> sint b \<and> sint (BlockEnd en) \<ge> sint a)"
      using Cons.prems that by (fastforce simp: entry_ok_def Let_def filter_empty_conv)
    then show ?case using Cons by (auto simp: all_points_def)
  qed (simp add: all_points_def)
  from this [OF assms] show ?thesis by (simp add: query_paths_def man_List_def flip: mset_filter)
qed

lemma found_points_exact:
  assumes "memtable_live (e_active e)" and "\<forall>f. e_frozen e = Some f \<longrightarrow> memtable_wf f"
    and "\<forall>en\<in>set (Segments (e_manifest e)). entry_ok st en" and "b \<noteq> MaxInt64"
  shows "sorted (map ts (found_points e st (query_paths (e_manifest e) a b) a b sid))"
    and "mset (found_points e st (query_paths (e_manifest e) a b) a b sid) =
      filter_mset (\<lambda>p. sint a \<le> ts p \<and> ts p \<le> sint b)
        (mset (GetPoints e sid) + mset (FrozenPoints e sid) + mset (all_points st (Segments (e_manifest e)) sid))"
proof -
  let ?P = "\<lambda>p. sint a \<le> ts p \<and> ts p \<le> sint b" and ?paths = "query_paths (e_manifest e) a b"
  have sorted: "\<forall>path\<in>set ?paths. sorted (map ts (segment_points st sid path))"
    using assms(3) by (auto simp: query_paths_def man_List_def entry_ok_def Let_def)
  have segs: "\<forall>l\<in>set (map (segment_points st sid) ?paths). sorted (map ts l)" using sorted by auto
  note seg = Merge_no_empty [OF segs]
  have max: "Timestamp p \<noteq> MaxInt64" if "?P p" for p
  proof
    assume "Timestamp p = MaxInt64"
    then have "sint b = sint MaxInt64" using that ts_le_Max [of "\<lparr>Timestamp = b, Value = 0\<rparr>"] by (simp add: ts_def)
    then show False using assms(4) by (simp add: signed_word_eqI)
  qed
  let ?ls = "[GetPoints e sid, FrozenPoints e sid, Merge (map (segment_points st sid) ?paths)]"
  have ls: "\<forall>l\<in>set ?ls. sorted (map ts l)"
    using assms(1,2) memtable_Get_sorted Merge_sorted [OF segs]
    by (auto simp: GetPoints_def FrozenPoints_def memtable_live_def split: option.splits)
  have q: "found_points e st ?paths a b sid = filter ?P (Merge ?ls)"
    unfolding found_points_def seg by (rule Filter_sorted [OF Merge_sorted [OF ls]])
  show "sorted (map ts (found_points e st ?paths a b sid))"
    unfolding q using Merge_sorted [OF ls] by (rule sorted_filter_key)
  have "mset (found_points e st ?paths a b sid) = filter_mset ?P (mset (Merge ?ls))" unfolding q by simp
  also have "\<dots> = filter_mset ?P (mset (concat ?ls))" by (rule Merge_below_Max [OF ls max])
  also have "\<dots> = filter_mset ?P (mset (GetPoints e sid) + mset (FrozenPoints e sid)) + filter_mset ?P (mset (Merge (map (segment_points st sid) ?paths)))"
    by simp
  also have "filter_mset ?P (mset (Merge (map (segment_points st sid) ?paths))) = filter_mset ?P (mset (concat (map (segment_points st sid) ?paths)))"
    by (rule Merge_below_Max [OF segs max])
  also have "\<dots> = filter_mset ?P (mset (all_points st (Segments (e_manifest e)) sid))" by (rule query_paths_points [OF assms(3)])
  finally show "mset (found_points e st ?paths a b sid) = filter_mset ?P
      (mset (GetPoints e sid) + mset (FrozenPoints e sid) + mset (all_points st (Segments (e_manifest e)) sid))"
    by simp
qed

text \<open>All points are in the memtables and the segments.\<close>

lemma stored_holdings:
  assumes "stored recs k j s"
  shows "mset (GetPoints (s_engine s) sid) + mset (FrozenPoints (s_engine s) sid) +
    mset (all_points (s_os s) (Segments (e_manifest (s_engine s))) sid) = mset (writes_for sid recs)"
proof -
  note D = storedD [OF assms]
  have k: "k \<le> j" using D(2) by (simp add: mem_inv_def)
  have "writes_for sid recs = writes_for sid (take k recs) @ writes_for sid (drop k recs)"
    by (rule writes_for_append) simp
  then show ?thesis
    using D(2,3) writes_split [OF k, of sid recs] by (simp add: mem_inv_def seg_inv_def Let_def add_ac)
qed

subsection \<open>An example run\<close>

definition ex_payload :: WritePayload where
  "ex_payload = \<lparr>wp_SeriesID = 7, wp_Points = [\<lparr>Timestamp = 5, Value = 0\<rparr>]\<rparr>"

definition ex_index :: index where
  "ex_index = idx_Insert idx_New 7 ''m'' []"

definition ex_start :: system where
  "ex_start = started (SetIndex ex_index ex_engine) ex_disk"

lemma ex_write_payload: "ex_write = \<lparr>Kind = WriteCmd, Payload = PWrite ex_payload\<rparr>"
  by (simp add: ex_write_def ex_payload_def)

lemma ex_engine_wal: "e_wal ex_engine = ex_writer"
proof -
  have "NewWriter (Inr (w_file ex_writer)) [WithFsyncInterval (10 * 1000000), WithByteThreshold (2 ^ 20)] = Inr ex_writer"
    by (simp add: NewWriter_def Let_def WithFsyncInterval_def WithByteThreshold_def ex_writer_def defaultFsyncInterval_def defaultByteThreshold_def)
  then show ?thesis using engine_New_fields(8) [OF ex_engine_new] by simp
qed

lemma ex_append:
  assumes "length d < 1000"
  shows "Append ex_writer d = (None, ex_writer\<lparr>w_buf := wal_record d, w_bytesSinceFlush := int (8 + length d), w_offset := int (8 + length d)\<rparr>)"
  using assms by (simp add: Append_def Let_def bufio_Write.simps ex_writer_def bufioSize_def defaultByteThreshold_def recordHeaderSize_def)

lemma ex_logged: "log_writes ex_writer [ex_payload] = ([ex_payload], None,
    ex_writer\<lparr>w_buf := wal_record (encodeWritePayload ex_payload), w_bytesSinceFlush := 36, w_offset := 36\<rparr>)"
proof -
  have "length (encodeWritePayload ex_payload) = 28" by (simp add: length_encodeWritePayload ex_payload_def)
  then show ?thesis by (simp add: ex_append)
qed

lemma ex_fresh: "fresh_start (w_file ex_writer) ex_disk ex_cfg"
proof -
  have d: "filepath_Join ''d'' ''m'' = ''d/m''" "man_tmpPath ''d/m'' = filepath_Join ''d'' ''.manifest.tmp''" by code_simp+
  have files: "manifest_files (man_New ''d/m'') = {filepath_Join ''d'' ''m'', filepath_Join ''d'' ''.manifest.tmp''}"
    by (simp add: man_New_def d)
  have plain: "plain_name ''m''" "plain_name ''.manifest.tmp''" by (simp_all add: plain_name_def)
  have "flush_name n \<notin> {''m'', ''.manifest.tmp''}" "compacted_name n \<notin> {''m'', ''.manifest.tmp''}" for n
    by (simp_all add: flush_name_def compacted_name_def)
  then have "names_apart (man_New ''d/m'') ''d''"
    unfolding names_apart_def compaction_output_def files
    using flush_name_plain compacted_name_plain plain by (simp add: filepath_Join_inject)
  then show ?thesis by (simp add: fresh_start_def ex_writer_def ex_disk_def ex_cfg_def)
qed

lemma ex_run: "\<exists>s. clean_run ex_rt ex_start [ex_payload] s \<and> e_index (s_engine s) = ex_index \<and> s_os s = ex_disk \<and>
  man_path (e_manifest (s_engine s)) = ''d/m'' \<and> crash_image (e_wal (s_engine s)) [] \<and> e_cmdCh (s_engine s) = [] \<and> s_running s"
proof -
  let ?s1 = "ex_start\<lparr>s_engine := (s_engine ex_start)\<lparr>e_cmdCh := [ex_write]\<rparr>\<rparr>"
  note F = engine_New_fields [OF ex_engine_new]
  have ch: "e_cmdCh (s_engine ex_start) = []" using F(3) by (simp add: ex_start_def started_def SetIndex_def)
  have "exec ex_rt (Client ex_write) ex_start = Some (Completes ?s1)"
    using ch by (simp add: exec_def from_loop_def Submit_def cmdCh_cap_def)
  moreover have "clean ex_rt (Client ex_write) ex_start"
    by (simp add: clean_def Let_def calm_command_def ex_write_def write_ok_def moderate_def ts_def)
  ultimately have r1: "clean_run ex_rt ex_start [] ?s1"
    using clean_step [OF clean_Nil] by (fastforce simp: accepted_by_def)
  let ?e = "active_at 1 (s_engine ex_start)\<lparr>e_cmdCh := []\<rparr>"
  have wal: "e_wal ?e = ex_writer" "e_wal (s_engine ?s1) = ex_writer"
    using ex_engine_wal by (simp_all add: active_at_def ex_start_def started_def SetIndex_def)
  have "memtable_live (e_active ?e)"
    using F(1) by (simp add: active_at_def ex_start_def started_def SetIndex_def memtable_live_def) (simp add: memtable_New_def)
  moreover obtain w where w: "log_writes (e_wal ?e) [ex_payload] = ([ex_payload], None, w)" "f_synced (w_file w) = 0"
    unfolding wal ex_logged by (simp add: ex_writer_def)
  moreover have img: "crash_image w []"
    using w(2) by (intro crash_imageI [of _ 0]) simp_all
  ultimately obtain active ms where b: "batch_loop ex_rt 0 [ex_payload] ?e =
      Inr (RespNone, ?e\<lparr>e_wal := w, e_active := active, e_metrics := ms\<rparr>)"
    using batch_loop_spec [OF ex_rt_ok, of ?e "[ex_payload]" "[ex_payload]" None w 0] by (auto simp: write_answer_def)
  let ?s2 = "reply RespNone (ex_start\<lparr>s_engine := ?e\<lparr>e_wal := w, e_active := active, e_metrics := ms\<rparr>\<rparr>)"
  have "exec ex_rt (TakeCommand 1) ?s1 = Some (Completes ?s2)"
    using b by (simp add: exec_def from_loop_def run_command_def dispatch_def Let_def ex_write_payload handleWrite_batch answer_def
        active_at_def ex_start_def started_def)
  moreover have "clean ex_rt (TakeCommand 1) ?s1"
    using ex_logged wal(2) by (simp add: clean_def Let_def logged_ok_def ex_write_payload)
  moreover have "accepted_by (TakeCommand 1) ?s1 = [ex_payload]"
    using ex_logged wal(2) by (simp add: accepted_by_def ex_write_payload)
  ultimately have "clean_run ex_rt ex_start [ex_payload] ?s2" using clean_step [OF r1] by fastforce
  moreover have "e_manifest ex_engine = man_New ''d/m''"
    using F(7) by (simp add: ex_cfg_def man_Load_def os_ReadFile_def ex_disk_def)
  ultimately show ?thesis
    by (intro exI [of _ ?s2]) (simp add: reply_def active_at_def ex_start_def started_def SetIndex_def man_New_def img)
qed

lemma stored_query_exact:
  assumes "stored ws k j s" and "sint (Milliseconds (q_BucketWidth q)) \<le> 0" and "UnixMilli (q_EndTime q) \<noteq> MaxInt64"
  shows "\<exists>results e'. handleQuery (PQuery q) (s_engine s) (s_os s) = Inr (RespResults results, e') \<and>
    map qr_SeriesID results = idx_Resolve (e_index (s_engine s)) (q_Metric q) (q_TagFilters q) \<and>
    (\<forall>r\<in>set results. qr_Buckets r = [] \<and> sorted (map ts (qr_Points r)) \<and>
       mset (qr_Points r) = filter_mset (\<lambda>p. sint (UnixMilli (q_StartTime q)) \<le> ts p \<and> ts p \<le> sint (UnixMilli (q_EndTime q)))
         (mset (writes_for (qr_SeriesID r) ws)))"
proof -
  note D = storedD [OF assms(1)]
  have "memtable_live (e_active (s_engine s))" "\<forall>f. e_frozen (s_engine s) = Some f \<longrightarrow> memtable_wf f"
    "\<forall>en\<in>set (Segments (e_manifest (s_engine s))). entry_ok (s_os s) en"
    using D(2-4) by (auto simp: mem_inv_def seg_inv_def flush_phase_def Let_def)
  note Q = found_points_exact [OF this assms(3)]
  have "\<forall>path\<in>set (query_paths (e_manifest (s_engine s)) a b). reads_safely (s_os s) path" for a b
    using D(3) by (auto simp: seg_inv_def query_paths_def man_List_def Let_def)
  then show ?thesis
    using Q stored_holdings [OF assms(1)] by (auto simp: handleQuery_raw [OF assms(2)] comp_def)
qed

text \<open>
  C1: queries are exact.  Start with a fresh database and take any run in which no append, flush,
  compaction or save of the manifest fails, no rotation starts while a flush is pending, no compaction
  while one is pending and none over a segment that is listed, without retention and shutdown, the
  sizes within the bounds of the formats (\<open>clean\<close>).  Then a query without buckets answers for each series of
  the index that matches with all points of its range that were accepted for the series, each as often
  as it was written, and no other, in order of time; wherever they are: in the live memtable, in the
  frozen one, or in segments, compacted or not.
\<close>

theorem engine_query_exact:
  assumes "runtime_ok rt" and "fresh_start f st cfg" and "engine_New (Inr f) st now cfg = Inr e"
    and "clean_run rt (started (SetIndex idx e) st) ws s"
    and "sint (Milliseconds (q_BucketWidth q)) \<le> 0" and "UnixMilli (q_EndTime q) \<noteq> MaxInt64"
  shows "\<exists>results e'. handleQuery (PQuery q) (s_engine s) (s_os s) = Inr (RespResults results, e') \<and>
    map qr_SeriesID results = idx_Resolve (e_index (s_engine s)) (q_Metric q) (q_TagFilters q) \<and>
    (\<forall>r\<in>set results. qr_Buckets r = [] \<and> sorted (map ts (qr_Points r)) \<and>
       mset (qr_Points r) = filter_mset (\<lambda>p. sint (UnixMilli (q_StartTime q)) \<le> ts p \<and> ts p \<le> sint (UnixMilli (q_EndTime q)))
         (mset (writes_for (qr_SeriesID r) ws)))"
proof -
  obtain k j where "stored ws k j s"
    using stored_run [OF assms(4,1) fresh_stored [OF assms(2,3)]] by auto
  from stored_query_exact [OF this assms(5,6)] show ?thesis .
qed

definition ex_query :: QueryPayload where
  "ex_query = \<lparr>q_Metric = ''m'', q_TagFilters = [], q_StartTime = 0, q_EndTime = 9000000, q_Aggregation = [], q_BucketWidth = 0\<rparr>"

lemma engine_query_exact_witness:
  "\<exists>s results e'. clean_run ex_rt ex_start [ex_payload] s \<and>
    handleQuery (PQuery ex_query) (s_engine s) (s_os s) = Inr (RespResults results, e') \<and> map qr_SeriesID results = [7] \<and>
    (\<forall>r\<in>set results. mset (qr_Points r) = {#\<lparr>Timestamp = 5, Value = 0\<rparr>#})"
proof -
  obtain s where s: "clean_run ex_rt ex_start [ex_payload] s" "e_index (s_engine s) = ex_index" using ex_run by blast
  have r: "idx_Resolve ex_index ''m'' [] = [7]" by code_simp
  have t: "sint (UnixMilli 0) = 0" "sint (UnixMilli 9000000) = 9" "UnixMilli 9000000 \<noteq> MaxInt64" "sint (Milliseconds 0) \<le> 0"
    by code_simp+
  from engine_query_exact [OF ex_rt_ok ex_fresh ex_engine_new s(1) [unfolded ex_start_def], of ex_query] t
  obtain results e' where q: "handleQuery (PQuery ex_query) (s_engine s) (s_os s) = Inr (RespResults results, e')"
    "map qr_SeriesID results = [7]"
    "\<forall>r\<in>set results. mset (qr_Points r) = filter_mset (\<lambda>p. 0 \<le> ts p \<and> ts p \<le> 9) (mset (writes_for (qr_SeriesID r) [ex_payload]))"
    using s(2) r by (auto simp: ex_query_def)
  have "\<forall>r\<in>set results. qr_SeriesID r = 7" using q(2) by (auto simp: map_eq_Cons_conv)
  then have "\<forall>r\<in>set results. mset (qr_Points r) = {#\<lparr>Timestamp = 5, Value = 0\<rparr>#}"
    using q(3) by (simp add: ex_payload_def points_for_def ts_def)
  then show ?thesis using s(1) q(1,2) by (intro exI [of _ s] exI [of _ results] exI [of _ e'] conjI) simp_all
qed

subsection \<open>Panics\<close>

text \<open>
  C3: in a clean run the engine never panics.  Start with a fresh database and take any run as in C1: no
  append, flush, compaction or save of the manifest fails, flushes and compactions do not overlap, there is no retention or shutdown
  so far, every instant written is within \<open>2 ^ 54\<close> milliseconds of the epoch (\<open>write_ok\<close>), so that every segment can be read.  If the commands
  that now wait have payloads of the right types and no query among them asks for buckets (\<open>command_ok\<close>), then no
  event at all ends in a panic, not even one that is not clean: no step of the loop, of a flush or compaction goroutine or of the
  fsync goroutine, whatever the devices refuse.  Left out are bucketed queries, whose number of buckets the code
  does not bound, and the unlocked index, whose insertions are taken as atomic.
\<close>

theorem engine_never_panics:
  assumes "runtime_ok rt" and "fresh_start f st cfg" and "engine_New (Inr f) st now cfg = Inr e"
    and "clean_run rt (started (SetIndex idx e) st) ws s"
    and "\<forall>cmd\<in>set (e_cmdCh (s_engine s)). command_ok cmd"
  shows "exec rt ev s \<noteq> Some (Panics err)"
proof -
  obtain k j where "stored ws k j s"
    using stored_run [OF assms(4,1) fresh_stored [OF assms(2,3)]] by auto
  from stored_no_panic [OF assms(1) this assms(5)] show ?thesis .
qed

text \<open>With the query of the example waiting.\<close>

lemma engine_never_panics_witness:
  "\<exists>s out. clean_run ex_rt ex_start [ex_payload] s \<and> e_cmdCh (s_engine s) = [\<lparr>Kind = QueryCmd, Payload = PQuery ex_query\<rparr>] \<and>
    exec ex_rt (TakeCommand 2) s = Some out \<and> out \<noteq> Panics Panic"
proof -
  let ?cmd = "\<lparr>Kind = QueryCmd, Payload = PQuery ex_query\<rparr>"
  obtain s where s: "clean_run ex_rt ex_start [ex_payload] s" "e_cmdCh (s_engine s) = []" "s_running s" using ex_run by blast
  let ?s = "s\<lparr>s_engine := snd (Submit ?cmd (s_engine s))\<rparr>"
  have q: "e_cmdCh (s_engine ?s) = [?cmd]" "s_running ?s" using s(2,3) by (simp_all add: Submit_def cmdCh_cap_def)
  have "exec ex_rt (Client ?cmd) s = Some (Completes ?s)" by (simp add: exec_def from_loop_def)
  moreover have "clean ex_rt (Client ?cmd) s" by (simp add: clean_def Let_def calm_command_def)
  ultimately have r: "clean_run ex_rt ex_start [ex_payload] ?s"
    using clean_step [OF s(1)] by (fastforce simp: accepted_by_def)
  have "sint (Milliseconds 0) \<le> 0" by code_simp
  then have ok: "\<forall>cmd\<in>set (e_cmdCh (s_engine ?s)). command_ok cmd"
    unfolding q by (simp add: command_ok_def command_typed_def ex_query_def)
  obtain out where out: "exec ex_rt (TakeCommand 2) ?s = Some out" using q by (auto simp: exec_def run_command_def)
  have "exec ex_rt (TakeCommand 2) ?s \<noteq> Some (Panics Panic)"
    by (rule engine_never_panics [OF ex_rt_ok ex_fresh ex_engine_new r [unfolded ex_start_def] ok])
  then show ?thesis using r q(1) out by (intro exI [of _ ?s] exI [of _ out]) simp
qed

text \<open>The encoding of any series, in bytes.\<close>

lemma encodePoints_max: "length (encodePoints pts) \<le> 26 * length pts"
proof (cases pts)
  case (Cons p ps)
  then show ?thesis
    using length_put_deltas_max [of "Timestamp p" ps] length_concat_pieces [of "\<lambda>p. put_le 8 (Value p)" 8 ps] by simp
qed simp

lemma v1_file_length: "length (seg_file 1 bs be sps) \<le> 33 + 46 * sum_list (map (length \<circ> Points) sps)"
proof -
  have "length (seg_data 1 sps) \<le> 26 * sum_list (map (length \<circ> Points) sps)"
  proof (induction sps)
    case (Cons sp sps)
    have "length (encodeSeries 1 (Points sp)) \<le> 26 * length (Points sp)"
      using encodePoints_max [of "Points sp"] by (simp add: encodeSeries_def word_le_nat_alt)
    then show ?case using Cons by (simp add: seg_data_def)
  qed (simp add: seg_data_def)
  moreover have "length (filter (\<lambda>sp. Points sp \<noteq> []) sps) \<le> sum_list (map (length \<circ> Points) sps)"
    by (induction sps) (auto simp: neq_Nil_conv)
  ultimately show ?thesis by (simp add: seg_file_def length_seg_file length_seg_entries headerSize_def footerSize_def)
qed

text \<open>
  C22: instants far apart kill the engine.  The reader fetches 8 bytes and 16 for each point, while a difference of
  neighbouring instants of \<open>2 ^ 55\<close> milliseconds or more takes nine bytes or ten.  If the encoding of a series is
  thereby longer than what is fetched (\<open>too_wide\<close>, as with ten points \<open>2 ^ 55\<close> apart), and a flush of the table of fewer than
  \<open>2 ^ 32\<close> points that holds it reports success, then over the files which that flush leaves every query that resolves to the
  series and whose range meets the segment ends in a panic, on whatever engine lists the segment.
\<close>

theorem engine_wide_series_panics:
  assumes "runtime_ok rt" and "memtable_wf f" and "points_in (m_series f) < 2 ^ 32"
    and "flush_job rt f dir n off st = (Inr res, st')" and "fd_Err res = None" and "too_wide (memtable_Get f sid)"
    and "fd_SegmentPath res \<in> set (query_paths (e_manifest e) (UnixMilli (q_StartTime q)) (UnixMilli (q_EndTime q)))"
    and "sid \<in> set (idx_Resolve (e_index e) (q_Metric q) (q_TagFilters q))"
  shows "handleQuery (PQuery q) e st' = Inl Panic"
proof -
  let ?all = "rt_range rt (m_series f)" and ?path = "filepath_Join dir (flush_name n)"
  let ?sps = "merged_list (\<lambda>p. p) ?all" and ?sp = "\<lparr>SeriesID = sid, Points = memtable_Get f sid\<rparr>"
  note rng = runtime_sorters(4) [OF assms(1)]
  have mwf: "map_wf (m_series f)" using assms(2) by (simp add: memtable_wf_def series_sorted_def)
  have "memtable_Get f sid \<noteq> []" using assms(6) by (simp add: too_wide_def)
  then have "lookup (m_series f) sid = Some (memtable_Get f sid)" by (simp add: memtable_Get_def split: option.splits)
  then have "(sid, memtable_Get f sid) \<in> set (m_series f)" using lookup_Some_iff [OF mwf] by blast
  then have mem: "(sid, memtable_Get f sid) \<in> set ?all" using range_order_facts(1) [OF rng] by blast
  then have ne: "?all \<noteq> []" and sp: "?sp \<in> set ?sps" by (auto simp: merged_list_def)
  have sps: "map (\<lambda>(sid, pts). \<lparr>SeriesID = sid, Points = pts\<rparr>) ?all = ?sps" by (simp add: merged_list_def)
  note W = flush_job_written [OF assms(1,4,5) ne]
  obtain w st1 w' bs be where w: "fresh_writer ?path st w st1" "sw_version w = 1"
    and written: "seg_Write (rt_sortSeries rt) w ?sps bs be st1 = (None, w', st')" and path: "fd_SegmentPath res = ?path"
    by (rule W)
  have ids: "distinct (map SeriesID ?sps)"
    using range_order_facts(3) [OF rng, of "m_series f"] mwf by (simp add: merged_list_ids map_wf_def)
  have "sum_list (map (length \<circ> Points) ?sps) = points_in ?all"
    by (simp add: merged_list_def points_in_def comp_def split_beta)
  also have "\<dots> = points_in (m_series f)" using total_len_range_order [OF rng] by (simp add: points_in_def total_len_def)
  finally have "length (seg_file 1 0 0 ?sps) < 2 ^ 63" using v1_file_length [of 0 0 ?sps] assms(3) by simp
  from segment_wide_series [OF runtime_sorters(2) [OF assms(1)] w written ids this sp] assms(6)
  obtain r where "OpenReader ?path st' = Inr r" "ReadSeries r sid = Inl Panic" by auto
  then have "res_bind (OpenReader (fd_SegmentPath res) st') (\<lambda>r. ReadSeries r sid) = Inl Panic" by (simp add: path)
  from handleQuery_panics [OF assms(7,8) this] show ?thesis .
qed

text \<open>Ten points, each \<open>2 ^ 56\<close> milliseconds after the one before, and an engine that lists their segment.\<close>

definition ex_wide :: memtable where
  "ex_wide = \<lparr>m_series = [(7, map (\<lambda>i. \<lparr>Timestamp = of_nat i * 2 ^ 56, Value = 0\<rparr>) [0..<10])], m_sizeBytes = 160, m_frozen = True\<rparr>"

lemma ex_wide_facts: "memtable_wf ex_wide" "points_in (m_series ex_wide) < 2 ^ 32" "too_wide (memtable_Get ex_wide 7)"
proof -
  have l: "length (memtable_Get ex_wide 7) = 10" "length (encodePoints (memtable_Get ex_wide 7)) = 169"
    "sorted (map ts (memtable_Get ex_wide 7))" by code_simp+
  then show "too_wide (memtable_Get ex_wide 7)" by (auto simp: too_wide_def)
  show "points_in (m_series ex_wide) < 2 ^ 32" by (simp add: ex_wide_def points_in_def)
  show "memtable_wf ex_wide"
    using l(3) by (simp add: memtable_wf_def series_sorted_def map_wf_def points_in_def memtable_Get_def) (simp add: ex_wide_def lookup_def)
qed

lemma ex_wide_flush: "\<exists>st'. flush_job ex_rt ex_wide ''d'' 0 9 ex_disk = (Inr \<lparr>fd_SegmentPath = filepath_Join ''d'' (flush_name 0),
    fd_BlockStart = 0, fd_BlockEnd = 9 * 2 ^ 56, fd_SeriesCount = 1, fd_WALOffset = 9, fd_Err = None\<rparr>, st')"
proof -
  let ?path = "filepath_Join ''d'' (flush_name 0)" and ?sps = "[\<lparr>SeriesID = 7, Points = memtable_Get ex_wide 7\<rparr>]"
  have m: "m_series ex_wide = [(7, memtable_Get ex_wide 7)]" by code_simp
  have range: "flush_range True 0 0 (m_series ex_wide) = Inr (0, 9 * 2 ^ 56)" by code_simp
  obtain w st1 where new: "seg_NewWriter ?path ex_disk = (Inr w, st1)" and free: "o_free st1 = 1000" "sw_version w = 1"
    by (simp add: seg_NewWriter_def os_Create_def ex_disk_def)
  then have w: "fresh_writer ?path ex_disk w st1" by (simp add: fresh_writer_def)
  have "length (memtable_Get ex_wide 7) = 10" by code_simp
  moreover have "insertionSort SeriesID ?sps = ?sps" using go_insertion.mset_srt [of SeriesID ?sps] by simp
  ultimately have "length (seg_file 1 0 (9 * 2 ^ 56) (insertionSort SeriesID ?sps)) \<le> o_free st1"
    using v1_file_length [of 0 "9 * 2 ^ 56" "insertionSort SeriesID ?sps"] free(1) by simp
  then have "fst (seg_Write (insertionSort SeriesID) w ?sps 0 (9 * 2 ^ 56) st1) = None"
    using seg_Write_outcome [OF w] free(2) by simp
  then obtain w' st' where wr: "seg_Write (insertionSort SeriesID) w ?sps 0 (9 * 2 ^ 56) st1 = (None, w', st')" by (metis prod.collapse)
  show ?thesis
    using range new wr by (simp add: flush_job_def ex_rt_def memtable_GetAll_def Let_def m)
qed

lemma engine_wide_series_panics_witness:
  "\<exists>res st' e. flush_job ex_rt ex_wide ''d'' 0 9 ex_disk = (Inr res, st') \<and> fd_Err res = None \<and>
     handleQuery (PQuery ex_query) e st' = Inl Panic"
proof -
  obtain res st' where fl: "flush_job ex_rt ex_wide ''d'' 0 9 ex_disk = (Inr res, st')" "fd_Err res = None"
    and res: "fd_SegmentPath res = filepath_Join ''d'' (flush_name 0)" "fd_BlockStart res = 0" "fd_BlockEnd res = 9 * 2 ^ 56"
    using ex_wide_flush by fastforce
  let ?en = "\<lparr>Path = fd_SegmentPath res, BlockStart = fd_BlockStart res, BlockEnd = fd_BlockEnd res, SeriesCount = 1, Size = 0\<rparr>"
  let ?e = "ex_engine\<lparr>e_index := ex_index, e_manifest := \<lparr>man_path = ''d/m'', Segments = [?en], WALOffset = 9\<rparr>\<rparr>"
  have t: "UnixMilli 0 = 0" "UnixMilli 9000000 = 9" "sint (9 * 2 ^ 56 :: i64) \<ge> 0" by code_simp+
  have listed: "fd_SegmentPath res \<in> set (query_paths (e_manifest ?e) (UnixMilli (q_StartTime ex_query)) (UnixMilli (q_EndTime ex_query)))"
    using t by (simp add: query_paths_def man_List_def ex_query_def res(2,3))
  have "idx_Resolve ex_index ''m'' [] = [7]" by code_simp
  then have found: "7 \<in> set (idx_Resolve (e_index ?e) (q_Metric ex_query) (q_TagFilters ex_query))" by (simp add: ex_query_def)
  from engine_wide_series_panics [OF ex_rt_ok ex_wide_facts(1,2) fl ex_wide_facts(3) listed found] show ?thesis using fl by blast
qed

subsection \<open>Recovery\<close>

lemma encode_fits: "write_ok p \<Longrightarrow> fits_record (encodeWritePayload p)"
  by (simp add: write_ok_def fits_record_def length_encodeWritePayload)

lemma recover_loop_ok:
  assumes "runtime_ok rt" and "memtable_live m" and "\<forall>p\<in>set ps. write_ok p"
  shows "\<exists>m'. recover_loop rt m (map encodeWritePayload ps) = Inr m' \<and> memtable_live m' \<and>
    (\<forall>sid. mset (memtable_Get m' sid) = mset (memtable_Get m sid) + mset (writes_for sid ps))"
  using assms(2,3)
proof (induction ps arbitrary: m)
  case (Cons p ps)
  obtain m1 pts where m1: "memtable_Insert (rt_sortPoints rt) m (wp_SeriesID p) (wp_Points p) = Inr (m1, pts)" "memtable_live m1"
    "\<And>j. mset (memtable_Get m1 j) = mset (memtable_Get m j) + (if j = wp_SeriesID p then mset (wp_Points p) else {#})"
    using write_buffer.ins_ok [OF write_buffer_of [OF assms(1)] Cons.prems(1)] by metis
  have "decodeWritePayload (encodeWritePayload p) = Inr p"
    using decode_encodeWritePayload [of p] Cons.prems(2) by (simp add: write_ok_def)
  then show ?case using Cons.IH [OF m1(2)] Cons.prems(2) m1 by (fastforce simp: add.assoc)
qed simp

lemma whole_records_le: "whole_records c ds \<le> length ds"
  by (induction ds arbitrary: c) auto

lemma whole_records_append:
  "whole_records c (ds @ es) \<le> length ds + whole_records (c - length (wal_log ds)) es"
proof (induction ds arbitrary: c)
  case (Cons d ds)
  then show ?case using Cons.IH [of "c - length (wal_record d)"] by simp
qed simp

text \<open>What the log holds behind the manifest's offset, of an image that a crash left.\<close>

lemma stored_replay:
  assumes "stored recs k j s" and "crash_image (e_wal (s_engine s)) img"
  obtains n where "k \<le> n" and "n \<le> length recs"
    and "whole_records (f_synced (w_file (e_wal (s_engine s)))) (map encodeWritePayload recs) \<le> n"
    and "Replay (Some img) (sint (WALOffset (e_manifest (s_engine s)))) = Inr (map encodeWritePayload (drop k (take n recs)))"
proof -
  let ?w = "e_wal (s_engine s)" and ?enc = "map encodeWritePayload"
  note D = storedD [OF assms(1)]
  have k: "k \<le> length recs" using D(2) by (simp add: mem_inv_def)
  have log: "log_bytes ?w = wal_log (?enc recs)" and off: "sint (WALOffset (e_manifest (s_engine s))) = int (length (wal_log (?enc (take k recs))))"
    using D(1) by (simp_all add: log_inv_def log_of_def)
  obtain c where c: "f_synced (w_file ?w) \<le> c" "c \<le> length (f_data (w_file ?w))" "img = take c (f_data (w_file ?w))"
    using assms(2) by (auto simp: crash_image_def)
  have img: "img = take c (wal_log (?enc (take k recs) @ ?enc (drop k recs)))"
    using c log by (metis log_bytes_def take_append append_Nil2 diff_is_0_eq take0 append_take_drop_id map_append)
  let ?m = "whole_records (c - length (wal_log (?enc (take k recs)))) (?enc (drop k recs))"
  have m: "?m \<le> length recs - k" using whole_records_le [of _ "?enc (drop k recs)"] by simp
  have fits: "\<forall>d\<in>set (?enc (take k recs) @ ?enc (drop k recs)). fits_record d"
    using D(1) encode_fits by (auto simp: log_inv_def dest: in_set_takeD in_set_dropD)
  have r: "Replay (Some img) (sint (WALOffset (e_manifest (s_engine s)))) = Inr (take ?m (?enc (drop k recs)))"
    unfolding off img by (rule Replay_at [OF fits])
  have "take ?m (drop k recs) = drop k (take (k + ?m) recs)" by (simp add: take_drop add.commute)
  then have t: "take ?m (?enc (drop k recs)) = ?enc (drop k (take (k + ?m) recs))" by (metis take_map)
  have w: "whole_records (f_synced (w_file ?w)) (?enc recs) \<le> k + ?m"
  proof -
    have "whole_records (f_synced (w_file ?w)) (?enc recs) \<le> whole_records c (?enc (take k recs) @ ?enc (drop k recs))"
      using whole_records_mono [OF c(1)] by (metis append_take_drop_id map_append)
    also have "\<dots> \<le> k + ?m" using whole_records_append [of c "?enc (take k recs)" "?enc (drop k recs)"] k by simp
    finally show ?thesis .
  qed
  show thesis
    by (rule that [of "k + ?m", OF _ _ w r [unfolded t]]) (use m k in linarith)+
qed

text \<open>
  C2: a crash loses at most a suffix.  If the process dies after any such run, whatever part of the
  log that was not synced goes with it, the restarted engine recovers, and then its live memtable and
  the segments of its manifest hold exactly the first \<open>n\<close> of the accepted writes for some \<open>n\<close>: every
  write whose record was synced is among them, and no point is lost or stored twice.
\<close>

theorem engine_recovers_prefix:
  assumes "runtime_ok rt" and "fresh_start f st cfg" and "engine_New (Inr f) st now cfg = Inr e"
    and "clean_run rt (started (SetIndex idx e) st) ws s"
    and "crash_image (e_wal (s_engine s)) img"
    and "engine_New (Inr f2) (s_os s) now2 cfg2 = Inr e2"
    and "cfg_ManifestPath cfg2 = man_path (e_manifest (s_engine s))"
  shows "\<exists>e3 n. Recover rt (Some img) e2 = Inr e3 \<and> n \<le> length ws \<and>
    whole_records (f_synced (w_file (e_wal (s_engine s)))) (map encodeWritePayload ws) \<le> n \<and>
    (\<forall>sid. mset (GetPoints e3 sid) + mset (all_points (s_os s) (Segments (e_manifest e3)) sid) = mset (writes_for sid (take n ws)))"
proof -
  obtain k j where s: "stored ws k j s"
    using stored_run [OF assms(4,1) fresh_stored [OF assms(2,3)]] by auto
  note D = storedD [OF s] and F = engine_New_fields [OF assms(6)]
  have man: "e_manifest e2 = e_manifest (s_engine s)" using D(3) F(7) assms(7) by (simp add: seg_inv_def Let_def)
  obtain n where n: "k \<le> n" "n \<le> length ws"
    "whole_records (f_synced (w_file (e_wal (s_engine s)))) (map encodeWritePayload ws) \<le> n"
    and r: "Replay (Some img) (sint (WALOffset (e_manifest (s_engine s)))) = Inr (map encodeWritePayload (drop k (take n ws)))"
    by (rule stored_replay [OF s assms(5)])
  have "memtable_live (e_active e2)" using F(1) by (simp add: memtable_live_def) (simp add: memtable_New_def)
  moreover have "\<forall>p\<in>set (drop k (take n ws)). write_ok p"
    using D(1) by (auto simp: log_inv_def dest!: in_set_dropD in_set_takeD)
  ultimately obtain m where m: "recover_loop rt (e_active e2) (map encodeWritePayload (drop k (take n ws))) = Inr m"
    "\<And>sid. mset (memtable_Get m sid) = mset (memtable_Get (e_active e2) sid) + mset (writes_for sid (drop k (take n ws)))"
    using recover_loop_ok [OF assms(1)] by blast
  have "Recover rt (Some img) e2 = Inr (e2\<lparr>e_active := m\<rparr>)"
    using r m(1) by (simp add: Recover_def man man_GetWALOffset_def Let_def)
  moreover have "mset (memtable_Get m sid) + mset (all_points (s_os s) (Segments (e_manifest (s_engine s))) sid) = mset (writes_for sid (take n ws))" for sid
    using D(3) m(2) [of sid] F(1) writes_take_split [OF n(1), of sid ws] by (simp add: seg_inv_def Let_def)
  ultimately show ?thesis using n(2,3) by (auto simp: GetPoints_def man)
qed

lemma engine_recovers_prefix_witness:
  "\<exists>s e2 e3 n. clean_run ex_rt ex_start [ex_payload] s \<and> engine_New (Inr (w_file ex_writer)) (s_os s) 0 ex_cfg = Inr e2 \<and>
    Recover ex_rt (Some []) e2 = Inr e3 \<and> n \<le> 1 \<and>
    (\<forall>sid. mset (GetPoints e3 sid) + mset (all_points (s_os s) (Segments (e_manifest e3)) sid) = mset (writes_for sid (take n [ex_payload])))"
proof -
  obtain s where s: "clean_run ex_rt ex_start [ex_payload] s" "s_os s = ex_disk" "man_path (e_manifest (s_engine s)) = ''d/m''"
    "crash_image (e_wal (s_engine s)) []"
    using ex_run by auto
  have e: "engine_New (Inr (w_file ex_writer)) (s_os s) 0 ex_cfg = Inr ex_engine" using ex_engine_new s(2) by simp
  have m: "cfg_ManifestPath ex_cfg = man_path (e_manifest (s_engine s))" using s(3) by (simp add: ex_cfg_def)
  show ?thesis
    using engine_recovers_prefix [OF ex_rt_ok ex_fresh ex_engine_new s(1) [unfolded ex_start_def] s(4) e m] s(1) e by auto
qed

end
