(* ===== verification/Engine_Limits.thy ===== *)
theory Engine_Limits
  imports Engine_Props
begin

text \<open>
  What the engine promises one command at a time: that what it logs reads back, how a batch fails,
  when every queued command is answered, what a
  retention sweep leaves, and what happens when a compaction writes over one of its own inputs.
\<close>

subsection \<open>Writes\<close>

lemma slice_out: "length data < hi \<Longrightarrow> slice data lo hi = Inl Panic"
  by (simp add: slice_def)

lemma decode_payload_loop_short:
  assumes "length data < 12 + 16 * (i + k)" and "i + k < 2 ^ 28" and "0 < k"
  shows "decode_payload_loop data (of_nat i) k = Inl Panic"
  using assms
proof (induction k arbitrary: i)
  case (Suc k)
  have off: "unat (12 + of_nat i * 16 :: u32) = 12 + 16 * i" "unat (20 + of_nat i * 16 :: u32) = 20 + 16 * i"
    "unat (28 + of_nat i * 16 :: u32) = 28 + 16 * i"
    using Suc.prems(2) by (simp_all add: unat_word_ariths unat_of_nat)
  show ?case
  proof (cases "length data < 28 + 16 * i")
    case True
    then have "slice data (20 + 16 * i) (28 + 16 * i) = Inl Panic" by (rule slice_out)
    then show ?thesis by (simp add: Let_def off) (simp add: slice_def)
  next
    case False
    then have "0 < k" using Suc.prems(1) by (cases k) simp_all
    then have "decode_payload_loop data (of_nat (Suc i)) k = Inl Panic"
      using Suc.IH [of "Suc i"] Suc.prems by simp
    then show ?thesis by (simp add: Let_def off add.commute) (simp add: slice_def)
  qed
qed simp

text \<open>
  The payload of a log record reads back.  What the engine logs for a write of fewer than
  2 to the 28 points is twelve bytes and sixteen for each point, and decodes to the same write; cut
  short anywhere it makes the decoder panic instead of giving a shorter write.
\<close>

theorem engine_payload_roundtrip:
  assumes "length (wp_Points p) < 2 ^ 28"
  shows "length (encodeWritePayload p) = 12 + 16 * length (wp_Points p) \<and>
    decodeWritePayload (encodeWritePayload p) = Inr p \<and>
    (\<forall>n < length (encodeWritePayload p). decodeWritePayload (take n (encodeWritePayload p)) = Inl Panic)"
proof (intro conjI allI impI)
  fix n assume n: "n < length (encodeWritePayload p)"
  let ?d = "take n (encodeWritePayload p)" and ?n = "of_nat (length (wp_Points p)) :: u32"
  show "decodeWritePayload ?d = Inl Panic"
  proof (cases "n < 12")
    case True
    then have "slice ?d 8 12 = Inl Panic" by (intro slice_out) simp
    then show ?thesis by (simp add: decodeWritePayload_def) (simp add: slice_def)
  next
    case False
    then have "slice ?d 8 12 = Inr (put_le 4 ?n)" "\<exists>x. slice ?d 0 8 = Inr x"
      using n by (simp_all add: slice_def encodeWritePayload_def take_drop drop_take)
    moreover have "decode_payload_loop ?d 0 (length (wp_Points p)) = Inl Panic"
      using decode_payload_loop_short [of ?d 0 "length (wp_Points p)"] assms n False
      by (cases "wp_Points p = []") (simp_all add: length_encodeWritePayload)
    moreover have "unat ?n = length (wp_Points p)" using assms by (simp add: unat_of_nat)
    ultimately show ?thesis by (auto simp: decodeWritePayload_def)
  qed
qed (use assms length_encodeWritePayload decode_encodeWritePayload in auto)

lemma engine_payload_roundtrip_witness:
  "decodeWritePayload (take 20 (encodeWritePayload \<lparr>wp_SeriesID = 7, wp_Points = [\<lparr>Timestamp = 5, Value = 0\<rparr>]\<rparr>)) = Inl Panic"
  using engine_payload_roundtrip [of "\<lparr>wp_SeriesID = 7, wp_Points = [\<lparr>Timestamp = 5, Value = 0\<rparr>]\<rparr>"] by simp

lemma log_writes_failed:
  assumes "log_writes w ps = (acc, Some err, w')" and "wal_wf w"
  shows "\<exists>p rest k w1. ps = acc @ p # rest \<and> log_writes w acc = (acc, None, w1) \<and> Append w1 (encodeWritePayload p) = (Some err, w') \<and>
    log_bytes w' = log_bytes w @ log_of acc @ take k (wal_record (encodeWritePayload p))"
  using assms
proof (induction ps arbitrary: w acc)
  case (Cons p ps)
  obtain e w1 where app: "Append w (encodeWritePayload p) = (e, w1)" by (metis prod.collapse)
  show ?case
  proof (cases e)
    case None
    then obtain acc1 where rest: "log_writes w1 ps = (acc1, Some err, w')" "acc = p # acc1"
      using Cons.prems(1) app by (auto split: prod.splits)
    note ok = Append_ok(1,2) [OF Cons.prems(2) app [unfolded None]]
    obtain q rest' k w2 where q: "ps = acc1 @ q # rest'" "log_writes w1 acc1 = (acc1, None, w2)"
      "Append w2 (encodeWritePayload q) = (Some err, w')"
      "log_bytes w' = log_bytes w1 @ log_of acc1 @ take k (wal_record (encodeWritePayload q))"
      using Cons.IH [OF rest(1) ok(1)] by blast
    have "log_writes w acc = (acc, None, w2)" using app None q(2) by (simp add: rest(2))
    then show ?thesis
      using q ok(2) by (intro exI [of _ q] exI [of _ rest'] exI [of _ k] exI [of _ w2]) (simp add: rest(2))
  next
    case (Some x)
    then have "acc = []" "w' = w1" "x = err" using Cons.prems(1) app by simp_all
    moreover obtain k where "log_bytes w1 = log_bytes w @ take k (wal_record (encodeWritePayload p))"
      using Append_log_prefix [OF app] by blast
    ultimately show ?thesis
      using app Some by (intro exI [of _ p] exI [of _ ps] exI [of _ k] exI [of _ w]) simp
  qed
qed simp

text \<open>
  C21: a batch is applied write by write.  The writes \<open>acc\<close> are logged one after the other from the front of the batch, and their points, and no
  others, are added to the live memtable.  The answer is without an error exactly if these are all
  writes of the batch.  Otherwise it is the error that \<^verbatim>\<open>Append\<close> returned for the write after \<open>acc\<close>, behind whose records
  the log ends in at most a piece of the failed one; nothing after it is applied, and what was applied stays.
\<close>

theorem engine_batch_prefix:
  assumes "runtime_ok rt" and "memtable_live (e_active e)" and "wal_wf (e_wal e)" and "wal_Offset (e_wal e) = int (length (log_bytes (e_wal e)))"
  shows "\<exists>acc w r e'. handleBatchWrite rt (PBatch ps) e = Inr (r, e') \<and> log_writes (e_wal e) acc = (acc, None, w) \<and>
    (\<forall>sid. mset (GetPoints e' sid) = mset (GetPoints e sid) + mset (writes_for sid acc)) \<and>
    (r = RespNone \<and> acc = ps \<and> e_wal e' = w \<and> log_bytes w = log_bytes (e_wal e) @ wal_log (map encodeWritePayload ps) \<or>
     (\<exists>err p rest k. r = RespErr err \<and> ps = acc @ p # rest \<and> Append w (encodeWritePayload p) = (Some err, e_wal e') \<and>
        log_bytes (e_wal e') = log_bytes (e_wal e) @ wal_log (map encodeWritePayload acc) @ take k (wal_record (encodeWritePayload p))))"
proof -
  obtain acc err w where logged: "log_writes (e_wal e) ps = (acc, err, w)" by (metis prod_cases3)
  have off: "w_offset (e_wal e) = int (length (log_bytes (e_wal e)))" using assms(4) by (simp add: wal_Offset_def)
  obtain active where b: "batch_loop rt 0 ps e = Inr (write_answer err,
      e\<lparr>e_wal := w, e_active := active, e_metrics := count_write err (0 + points_total acc) (e_metrics e)\<rparr>)"
    "\<And>sid. mset (memtable_Get active sid) = mset (memtable_Get (e_active e) sid) + mset (writes_for sid acc)"
    using batch_loop_spec [OF assms(1,2) logged, of 0] by blast
  let ?e = "e\<lparr>e_wal := w, e_active := active, e_metrics := count_write err (0 + points_total acc) (e_metrics e)\<rparr>"
  show ?thesis
  proof (cases err)
    case None
    note L = log_writes_ok [OF logged [unfolded None] assms(3) off]
    show ?thesis
      by (rule exI [of _ acc], rule exI [of _ w], rule exI [of _ RespNone], rule exI [of _ ?e])
        (use b L logged in \<open>simp add: None handleBatchWrite_def write_answer_def GetPoints_def log_of_def\<close>)
  next
    case (Some x)
    obtain p rest k w1 where L: "ps = acc @ p # rest" "log_writes (e_wal e) acc = (acc, None, w1)"
      "Append w1 (encodeWritePayload p) = (Some x, w)"
      "log_bytes w = log_bytes (e_wal e) @ log_of acc @ take k (wal_record (encodeWritePayload p))"
      using log_writes_failed [OF logged [unfolded Some] assms(3)] by blast
    show ?thesis
      by (rule exI [of _ acc], rule exI [of _ w1], rule exI [of _ "RespErr x"], rule exI [of _ ?e])
        (use b L in \<open>auto simp: Some handleBatchWrite_def write_answer_def GetPoints_def log_of_def\<close>)
  qed
qed

text \<open>An engine whose log is closed, beside one whose log is open.\<close>

definition ex_small :: engine where
  "ex_small = ex_engine\<lparr>e_wal := ex_writer\<lparr>w_closed := True\<rparr>\<rparr>"

lemma engine_batch_prefix_witness:
  "(\<exists>e'. handleBatchWrite ex_rt (PBatch [ex_payload]) ex_engine = Inr (RespNone, e') \<and> GetPoints e' 7 = [\<lparr>Timestamp = 5, Value = 0\<rparr>]) \<and>
   (\<exists>err e'. handleBatchWrite ex_rt (PBatch [ex_payload]) ex_small = Inr (RespErr err, e') \<and> GetPoints e' 7 = [])"
proof -
  note new = engine_New_fields(1) [OF ex_engine_new]
  have live: "memtable_live (e_active ex_engine)" "memtable_live (e_active ex_small)"
    using new by (simp_all add: ex_small_def memtable_live_def) (simp_all add: memtable_New_def)
  have w: "wal_wf (e_wal ex_engine)" "wal_Offset (e_wal ex_engine) = int (length (log_bytes (e_wal ex_engine)))"
    "wal_wf (e_wal ex_small)" "wal_Offset (e_wal ex_small) = int (length (log_bytes (e_wal ex_small)))"
    by (simp_all add: ex_engine_wal ex_small_def ex_writer_def wal_wf_def log_bytes_def wal_Offset_def)
  have empty: "GetPoints ex_engine 7 = []" "GetPoints ex_small 7 = []" using new by (simp_all add: ex_small_def GetPoints_def)
  have pts: "wp_SeriesID ex_payload = 7" "wp_Points ex_payload = [\<lparr>Timestamp = 5, Value = 0\<rparr>]" by (simp_all add: ex_payload_def)
  have "length (encodeWritePayload ex_payload) < 1000" by (simp add: length_encodeWritePayload ex_payload_def)
  note opened = ex_append [OF this]
  have closed: "log_writes (e_wal ex_small) [ex_payload] \<noteq> ([ex_payload], None, w)" for w
    by (simp add: ex_small_def Append_def)
  obtain e1 where a: "handleBatchWrite ex_rt (PBatch [ex_payload]) ex_engine = Inr (RespNone, e1)"
    "\<forall>sid. mset (GetPoints e1 sid) = mset (GetPoints ex_engine sid) + mset (writes_for sid [ex_payload])"
    using engine_batch_prefix [OF ex_rt_ok live(1) w(1,2), of "[ex_payload]"] opened
    by (elim exE conjE disjE) (auto simp: Cons_eq_append_conv ex_engine_wal simp del: points_for_simps)
  obtain err e2 where b: "handleBatchWrite ex_rt (PBatch [ex_payload]) ex_small = Inr (RespErr err, e2)"
    "\<forall>sid. mset (GetPoints e2 sid) = mset (GetPoints ex_small sid)"
    using engine_batch_prefix [OF ex_rt_ok live(2) w(3,4), of "[ex_payload]"] closed
    by (elim exE conjE disjE) (auto simp: Cons_eq_append_conv)
  have none: "mset (GetPoints ex_engine 7) = {#}" "mset (GetPoints ex_small 7) = {#}"
    by (simp_all add: empty)
  have "mset (GetPoints e1 7) = mset (GetPoints ex_engine 7) + mset (writes_for 7 [ex_payload])" using a(2) by blast
  also have "\<dots> = mset [\<lparr>Timestamp = 5, Value = 0\<rparr>]" unfolding none(1) by (simp add: pts)
  finally have one: "GetPoints e1 7 = [\<lparr>Timestamp = 5, Value = 0\<rparr>]" by simp
  have "mset (GetPoints e2 7) = mset (GetPoints ex_small 7)" using b(2) by blast
  then have "GetPoints e2 7 = []" unfolding none(2) by simp
  with a(1) b(1) one show ?thesis by blast
qed

subsection \<open>Channels\<close>

text \<open>The engine's channels, which the handlers of commands leave alone.\<close>

definition channels :: "engine \<Rightarrow> Command list \<times> FlushDonePayload list \<times> CompactionDonePayload list" where
  "channels e = (e_cmdCh e, e_flushDoneCh e, e_compactionDoneCh e)"

lemma channels_updates [simp]:
  "channels (e\<lparr>e_wal := w\<rparr>) = channels e" "channels (e\<lparr>e_active := m\<rparr>) = channels e"
  "channels (e\<lparr>e_manifest := man\<rparr>) = channels e" "channels (write_failed e) = channels e" "channels (write_done n e) = channels e"
  "channels (query_counted e) = channels e" "channels (active_at now e) = channels e"
  by (simp_all add: channels_def write_failed_def write_done_def query_counted_def active_at_def)

lemma batch_loop_channels: "batch_loop rt n ps e = Inr (r, e') \<Longrightarrow> channels e' = channels e"
  by (induction rt n ps e rule: batch_loop.induct) (auto simp: res_bind_eq_Inr split: prod.splits option.splits)

lemma handler_channels:
  "handleWrite rt pl e = Inr (r, e') \<Longrightarrow> channels e' = channels e"
  "handleBatchWrite rt pl e = Inr (r, e') \<Longrightarrow> channels e' = channels e"
  "handleQuery pl e st = Inr (r, e') \<Longrightarrow> channels e' = channels e"
  "handleRetention pl e st = Inr (r, e', st') \<Longrightarrow> channels e' = channels e"
proof -
  show "channels e' = channels e" if h: "handleWrite rt pl e = Inr (r, e')"
  proof -
    obtain p where "pl = PWrite p" using h by (auto simp: handleWrite_def split: payload.splits)
    then show ?thesis using h batch_loop_channels by (metis handleWrite_batch)
  qed
  show "handleBatchWrite rt pl e = Inr (r, e') \<Longrightarrow> channels e' = channels e"
    using batch_loop_channels by (cases pl) (auto simp: handleBatchWrite_def)
  show "handleQuery pl e st = Inr (r, e') \<Longrightarrow> channels e' = channels e"
    by (cases pl) (auto simp: handleQuery_def Let_def res_bind_eq_Inr split: if_splits)
  show "handleRetention pl e st = Inr (r, e', st') \<Longrightarrow> channels e' = channels e"
    by (cases pl) (auto simp: handleRetention_def Let_def split: if_splits prod.splits option.splits)
qed

lemma dispatch_channels:
  assumes "dispatch rt cmd s = Completes s'"
  shows "channels (s_engine s') = channels (s_engine s) \<or>
    (\<exists>p. length (e_flushDoneCh (s_engine s)) < doneCh_cap \<and>
       s_engine s' = (s_engine s)\<lparr>e_flushDoneCh := e_flushDoneCh (s_engine s) @ [p]\<rparr>)"
  using assms handler_channels
  by (cases "Kind cmd")
    (auto simp: dispatch_def Let_def answer_def reply_def split: sum.splits prod.splits option.splits payload.splits if_splits)

subsection \<open>Removing segments\<close>

lemma DeleteFiles_touches: "touches (Path ` set es) st (snd (DeleteFiles es st))"
  by (simp add: touches_def DeleteFiles_effect)

lemma filter_not_path:
  assumes "distinct (map f xs)"
  shows "filter (\<lambda>x. f x \<notin> f ` set (filter P xs)) xs = filter (\<lambda>x. \<not> P x) xs"
  using assms by (intro filter_cong refl) (auto simp: distinct_map dest: inj_onD)

lemma RemoveBatch_effect:
  assumes "man_RemoveBatch ps m st = (err, m', st')"
  shows "touches (manifest_files m) st st'" and "Segments m' = filter (\<lambda>e. Path e \<notin> set ps) (Segments m)"
proof -
  have m: "m' = m\<lparr>Segments := filter (\<lambda>e. Path e \<notin> set ps) (Segments m)\<rparr>" and s: "man_save m' st = (err, st')"
    using assms unfolding man_RemoveBatch_save by blast+
  show "Segments m' = filter (\<lambda>e. Path e \<notin> set ps) (Segments m)" by (simp add: m)
  have "man_path m' = man_path m" by (simp add: m)
  then show "touches (manifest_files m) st st'" using man_save_touches [OF s] by simp
qed

subsection \<open>Every command is answered\<close>

text \<open>The listed segments can be read without a panic, and none has the name of a file of the manifest.\<close>

definition listed_safe :: "system \<Rightarrow> bool" where
  "listed_safe s \<longleftrightarrow> (let m = e_manifest (s_engine s) in
     \<forall>en\<in>set (Segments m). reads_safely (s_os s) (Path en) \<and> Path en \<notin> {man_path m, man_tmpPath (man_path m)})"

lemma reads_safely_removed:
  assumes "o_denied st' = o_denied st" and "o_files st' p = o_files st p \<or> o_files st' p = None" and "reads_safely st p"
  shows "reads_safely st' p"
  using assms(2)
proof
  assume "o_files st' p = o_files st p"
  then have "touches (- {p}) st st'" using assms(1) by (auto simp: touches_def)
  then show ?thesis using reads_safely_touches [of "- {p}" st st' p] assms(3) by simp
qed (rule reads_safely_absent)

lemma batch_loop_manifest: "batch_loop rt n ps e = Inr (r, e') \<Longrightarrow> e_manifest e' = e_manifest e"
  by (induction rt n ps e rule: batch_loop.induct)
    (auto simp: res_bind_eq_Inr write_failed_def write_done_def split: prod.splits option.splits)

lemma handleRetention_safe:
  assumes "handleRetention (PRetention p) e st = Inr (r, e', st')" and "listed_safe (s\<lparr>s_engine := e, s_os := st\<rparr>)"
  shows "listed_safe (s\<lparr>s_engine := e', s_os := st'\<rparr>)"
proof -
  let ?m = "e_manifest e" and ?gone = "filter (expired (UnixMilli (rp_Cutoff p))) (Segments (e_manifest e))"
  obtain err m st1 where rem: "man_RemoveBatch (map Path ?gone) ?m st = (err, m, st1)" by (metis prod_cases3)
  have m: "man_path m = man_path ?m" "Segments m = filter (\<lambda>en. Path en \<notin> set (map Path ?gone)) (Segments ?m)"
    and t: "touches (manifest_files ?m) st st1"
    using RemoveBatch_effect [OF rem] rem by (auto simp: man_RemoveBatch_save)
  have res: "e' = e \<and> st' = st \<or> e_manifest e' = m \<and> (st' = snd (DeleteFiles ?gone st1) \<or> st' = st1)"
    using assms(1) rem by (auto simp: handleRetention_def Let_def Sweep_eq man_List_def split: if_splits option.splits)
  have "reads_safely st1 (Path en)" "reads_safely (snd (DeleteFiles ?gone st1)) (Path en)" if "en \<in> set (Segments m)" for en
  proof -
    have "reads_safely st (Path en)" "Path en \<notin> manifest_files ?m"
      using assms(2) that by (auto simp: listed_safe_def Let_def m)
    then show s: "reads_safely st1 (Path en)" using reads_safely_touches [OF t] by blast
    show "reads_safely (snd (DeleteFiles ?gone st1)) (Path en)"
      by (rule reads_safely_removed [OF _ _ s]) (simp_all add: DeleteFiles_effect)
  qed
  then have kept: "listed_safe (s\<lparr>s_engine := e', s_os := st'\<rparr>)"
    if "e_manifest e' = m" "st' = snd (DeleteFiles ?gone st1) \<or> st' = st1"
    using that assms(2) m by (auto simp: listed_safe_def Let_def)
  show ?thesis using res kept assms(2) by blast
qed

lemma dispatch_safe:
  assumes "dispatch rt cmd s = Completes s'" and "command_ok cmd" and "listed_safe s"
  shows "listed_safe s'"
proof -
  have same: "listed_safe s'" if "e_manifest (s_engine s') = e_manifest (s_engine s)" "s_os s' = s_os s"
    using that assms(3) by (simp add: listed_safe_def)
  obtain k pl where cmd: "cmd = \<lparr>Kind = k, Payload = pl\<rparr>" by (cases cmd) simp
  note typed = assms(2) [unfolded command_ok_def command_typed_def cmd]
  show ?thesis
  proof (cases k)
    case WriteCmd
    then obtain p where "pl = PWrite p" using typed by (auto split: payload.splits)
    then have "e_manifest e' = e_manifest (s_engine s)" if "handleWrite rt pl (s_engine s) = Inr (r, e')" for r e'
      using that batch_loop_manifest by (metis handleWrite_batch)
    then show ?thesis
      using assms(1) WriteCmd
      by (intro same) (auto simp: cmd dispatch_def Let_def answer_def reply_def split: sum.splits prod.splits)
  next
    case BatchWriteCmd
    then obtain ps where "pl = PBatch ps" using typed by (auto split: payload.splits)
    then show ?thesis
      using assms(1) BatchWriteCmd batch_loop_manifest
      by (intro same) (auto simp: cmd dispatch_def Let_def handleBatchWrite_def answer_def reply_def split: sum.splits prod.splits)
  next
    case QueryCmd
    then show ?thesis
      using assms(1)
      by (intro same) (auto simp: cmd dispatch_def Let_def answer_def reply_def query_counted_def split: sum.splits prod.splits dest!: handleQuery_keeps)
  next
    case FlushDoneCmd
    then show ?thesis
      using assms(1) by (intro same) (auto simp: cmd dispatch_def Let_def reply_def split: payload.splits if_splits)
  next
    case CompactionCmd
    then show ?thesis
      using assms(1) by (intro same) (auto simp: cmd dispatch_def Let_def reply_def split: prod.splits option.splits)
  next
    case RetentionCmd
    then obtain p where "pl = PRetention p" using typed by (auto split: payload.splits)
    then obtain r e' st' where h: "handleRetention (PRetention p) (s_engine s) (s_os s) = Inr (r, e', st')"
      and s': "s' = reply r (s\<lparr>s_engine := e', s_os := st'\<rparr>)"
      using assms(1) RetentionCmd by (auto simp: cmd dispatch_def Let_def split: sum.splits prod.splits)
    have "listed_safe (s\<lparr>s_engine := s_engine s, s_os := s_os s\<rparr>)" using assms(3) by simp
    from handleRetention_safe [OF h this] show ?thesis by (simp add: s' reply_def listed_safe_def)
  next
    case CompactionDoneCmd
    then show ?thesis using assms(1) by (intro same) (auto simp: cmd dispatch_def reply_def)
  next
    case ShutdownCmd
    then show ?thesis using assms(1) by (intro same) (auto simp: cmd dispatch_def reply_def)
  qed
qed

lemma dispatch_answers:
  assumes "runtime_ok rt" and "system_wf s" and "command_ok cmd" and "listed_safe s"
    and "Kind cmd = FlushDoneCmd \<Longrightarrow> length (e_flushDoneCh (s_engine s)) < doneCh_cap"
  shows "\<exists>s' r. dispatch rt cmd s = Completes s' \<and> s_answers s' = s_answers s @ [r] \<and> s_running s' = s_running s \<and>
    e_cmdCh (s_engine s') = e_cmdCh (s_engine s) \<and> system_wf s' \<and> listed_safe s'"
proof -
  have "dispatch rt cmd s \<noteq> Blocks"
    using assms(5) by (cases "Kind cmd") (auto simp: dispatch_def Let_def answer_def split: sum.splits prod.splits option.splits payload.splits)
  moreover have "dispatch rt cmd s \<noteq> Panics err" for err
    using dispatch_panics [OF assms(1-3)] assms(4) by (auto simp: listed_safe_def Let_def)
  ultimately obtain s' where s': "dispatch rt cmd s = Completes s'" by (cases "dispatch rt cmd s") auto
  then have "system_wf s'" "listed_safe s'" using dispatch_wf [OF assms(1-3)] dispatch_safe [OF _ assms(3,4)] by blast+
  moreover have "e_cmdCh (s_engine s') = e_cmdCh (s_engine s)"
    using dispatch_channels [OF s'] by (auto simp: channels_def)
  moreover have "\<exists>r. s_answers s' = s_answers s @ [r]" "s_running s' = s_running s"
    using s' by (cases "Kind cmd"; auto simp: dispatch_def Let_def answer_def reply_def
        split: sum.splits prod.splits option.splits payload.splits if_splits)+
  ultimately show ?thesis using s' by blast
qed

lemma take_commands:
  assumes "runtime_ok rt" and "system_wf s" and "listed_safe s" and "s_running s"
    and "\<forall>cmd\<in>set (e_cmdCh (s_engine s)). Kind cmd \<noteq> FlushDoneCmd" and "n \<le> length (e_cmdCh (s_engine s))"
  shows "\<exists>s' rs. run rt s (replicate n (TakeCommand now)) s' \<and> system_wf s' \<and> listed_safe s' \<and> s_running s' \<and>
    e_cmdCh (s_engine s') = drop n (e_cmdCh (s_engine s)) \<and> s_answers s' = s_answers s @ rs \<and> length rs = n"
  using assms(6)
proof (induction n)
  case 0
  then show ?case using assms(2-4) run_Nil by (intro exI [of _ s]) simp
next
  case (Suc n)
  then obtain s1 rs where IH: "run rt s (replicate n (TakeCommand now)) s1" "system_wf s1" "listed_safe s1" "s_running s1"
    "e_cmdCh (s_engine s1) = drop n (e_cmdCh (s_engine s))" "s_answers s1 = s_answers s @ rs" "length rs = n" by auto
  let ?cmd = "e_cmdCh (s_engine s) ! n" and ?cmds = "drop (Suc n) (e_cmdCh (s_engine s))"
  let ?s1 = "s1\<lparr>s_engine := active_at now (s_engine s1)\<lparr>e_cmdCh := ?cmds\<rparr>\<rparr>"
  have q: "e_cmdCh (s_engine s1) = ?cmd # ?cmds" using IH(5) Suc.prems by (simp add: Cons_nth_drop_Suc)
  have "system_wf ?s1" "command_ok ?cmd" "listed_safe ?s1"
    using IH(2,3) q by (simp_all add: system_wf_def active_at_def listed_safe_def)
  moreover have "Kind ?cmd \<noteq> FlushDoneCmd" using assms(5) Suc.prems by simp
  ultimately obtain s2 r where s2: "dispatch rt ?cmd ?s1 = Completes s2" "s_answers s2 = s_answers s1 @ [r]" "s_running s2"
    "e_cmdCh (s_engine s2) = ?cmds" "system_wf s2" "listed_safe s2"
    using dispatch_answers [OF assms(1), of ?s1 ?cmd] IH(4) by auto
  have "exec rt (TakeCommand now) s1 = Some (Completes s2)" using IH(4) q s2(1) by (simp add: exec_def run_command_def)
  from run_snoc [OF IH(1) this] have "run rt s (replicate (Suc n) (TakeCommand now)) s2" by (simp add: replicate_append_same)
  then show ?case using s2 IH(6,7) by (intro exI [of _ s2] exI [of _ "rs @ [r]"]) simp
qed

text \<open>
  C23: queued commands are answered.  Take any run from a new engine, clean or not, in which the clients submitted commands whose
  payloads have the right types, no query among them with buckets (\<open>event_ok\<close>).  While the engine runs, the
  loop that takes one command after another empties the queue and answers every command exactly once,
  provided that none waiting is the internal flush notification, which waits on a channel of the loop itself, and that
  the listed segments can be read without a panic (\<open>reads_safely\<close>; C3 shows it for clean runs, C22 what goes wrong without it) and are apart from the files of the
  manifest.  Whether an answer is an error is left open.
\<close>

theorem engine_answers_all:
  assumes "runtime_ok rt" and "engine_New walFile st now cfg = Inr e" and "run rt (started (SetIndex idx e) st) evs s"
    and "\<forall>ev\<in>set evs. event_ok ev" and "s_running s" and "\<forall>cmd\<in>set (e_cmdCh (s_engine s)). Kind cmd \<noteq> FlushDoneCmd"
    and "\<forall>en\<in>set (Segments (e_manifest (s_engine s))). reads_safely (s_os s) (Path en) \<and>
      Path en \<notin> {man_path (e_manifest (s_engine s)), man_tmpPath (man_path (e_manifest (s_engine s)))}"
  shows "\<exists>s' rs. run rt s (replicate (length (e_cmdCh (s_engine s))) (TakeCommand now')) s' \<and>
    e_cmdCh (s_engine s') = [] \<and> s_answers s' = s_answers s @ rs \<and> length rs = length (e_cmdCh (s_engine s))"
proof -
  have "system_wf (started (SetIndex idx e) st)"
    using started_wf [OF assms(2)] by (simp add: system_wf_def started_def SetIndex_def)
  note wf = run_wf [OF assms(3,1) this assms(4)]
  have "listed_safe s" using assms(7) by (simp only: listed_safe_def Let_def)
  from take_commands [OF assms(1) wf this assms(5,6) order_refl] show ?thesis by fastforce
qed

lemma engine_answers_all_witness:
  "\<exists>s s' rs. run ex_rt (started (SetIndex idx_New ex_engine) ex_disk) [Client ex_write] s \<and>
     run ex_rt s [TakeCommand 9] s' \<and> s_answers s' = s_answers s @ rs \<and> length rs = 1"
proof -
  let ?s = "started (SetIndex idx_New ex_engine) ex_disk"
  let ?s' = "?s\<lparr>s_engine := snd (Submit ex_write (s_engine ?s))\<rparr>"
  have ok: "\<forall>ev\<in>set [Client ex_write]. event_ok ev"
    by (simp add: event_ok_def command_ok_def command_typed_def ex_write_def)
  have "exec ex_rt (Client ex_write) ?s = Some (Completes ?s')" by (simp add: exec_def from_loop_def)
  from run_snoc [OF run_Nil this] have r: "run ex_rt ?s [Client ex_write] ?s'" by simp
  have q: "e_cmdCh (s_engine ?s') = [ex_write]" using engine_New_fields(3) [OF ex_engine_new] by (simp add: started_def SetIndex_def Submit_def cmdCh_cap_def)
  have "s_running ?s'" "\<forall>cmd\<in>set (e_cmdCh (s_engine ?s')). Kind cmd \<noteq> FlushDoneCmd"
    unfolding q by (simp_all add: started_def ex_write_def)
  moreover have "e_manifest ex_engine = man_New ''d/m''"
    using engine_New_fields(7) [OF ex_engine_new] by (simp add: ex_cfg_def man_Load_def os_ReadFile_def ex_disk_def)
  then have "Segments (e_manifest (s_engine ?s')) = []" by (simp add: started_def SetIndex_def Submit_def man_New_def)
  then have "\<forall>en\<in>set (Segments (e_manifest (s_engine ?s'))). reads_safely (s_os ?s') (Path en) \<and>
      Path en \<notin> {man_path (e_manifest (s_engine ?s')), man_tmpPath (man_path (e_manifest (s_engine ?s')))}" by simp
  ultimately obtain s' rs
    where "run ex_rt ?s' [TakeCommand 9] s'" "s_answers s' = s_answers ?s' @ rs" "length rs = 1"
    using engine_answers_all [OF ex_rt_ok ex_engine_new r ok, of 9] unfolding q by auto
  then show ?thesis using r by (intro exI [of _ ?s'] exI [of _ s'] exI [of _ rs] conjI)
qed

text \<open>Sent into a full channel, the flush notification blocks the loop, which alone could empty it.\<close>

lemma flush_notification_blocks:
  assumes "s_running s" and "e_cmdCh (s_engine s) = \<lparr>Kind = FlushDoneCmd, Payload = PFlushDone p\<rparr> # cmds"
    and "length (e_flushDoneCh (s_engine s)) = doneCh_cap"
  shows "exec rt (TakeCommand now) s = Some Blocks"
  using assms by (simp add: exec_def run_command_def dispatch_def Let_def active_at_def)

subsection \<open>Retention\<close>

lemma handleRetention_effect:
  assumes "handleRetention (PRetention p) e st = Inr (r, e', st')" and "distinct (map Path (Segments (e_manifest e)))"
  defines "gone \<equiv> filter (expired (UnixMilli (rp_Cutoff p))) (Segments (e_manifest e))"
  shows "Segments (e_manifest e') = filter (\<lambda>en. \<not> expired (UnixMilli (rp_Cutoff p)) en) (Segments (e_manifest e))"
    and "touches (manifest_files (e_manifest e) \<union> Path ` set gone) st st'"
    and "r = RespInt (length gone) \<and> (\<forall>path. path \<notin> manifest_files (e_manifest e) \<longrightarrow>
        o_files st' path = (if path \<in> Path ` set gone \<and> \<not> o_denied st path then None else o_files st path)) \<or>
      (\<exists>err. r = RespErr err \<and> touches (manifest_files (e_manifest e)) st st')"
    and "GetPoints e' = GetPoints e" and "FrozenPoints e' = FrozenPoints e"
proof -
  let ?m = "e_manifest e"
  have "e_active e' = e_active e" "e_frozen e' = e_frozen e"
    using assms(1) by (auto simp: handleRetention_def Let_def split: if_splits prod.splits option.splits)
  then show "GetPoints e' = GetPoints e" "FrozenPoints e' = FrozenPoints e" by (simp_all add: GetPoints_def FrozenPoints_def fun_eq_iff)
  obtain err m st1 where rem: "man_RemoveBatch (map Path gone) ?m st = (err, m, st1)" by (metis prod_cases3)
  have res: "gone = [] \<and> e' = e \<and> st' = st \<and> r = RespInt 0 \<or> gone \<noteq> [] \<and> e_manifest e' = m \<and>
      (err = None \<and> st' = snd (DeleteFiles gone st1) \<and> r = RespInt (length gone) \<or> st' = st1 \<and> (\<exists>x. r = RespErr x))"
    using assms(1) rem by (auto simp: handleRetention_def Let_def Sweep_eq man_List_def gone_def split: if_splits option.splits)
  have m: "Segments m = filter (\<lambda>en. \<not> expired (UnixMilli (rp_Cutoff p)) en) (Segments ?m)"
    using RemoveBatch_effect(2) [OF rem] filter_not_path [OF assms(2), of "expired (UnixMilli (rp_Cutoff p))"]
    unfolding gone_def by (simp only: set_map)
  have t: "touches (manifest_files ?m \<union> Path ` set gone) st st1"
    by (rule touches_mono [OF RemoveBatch_effect(1) [OF rem]]) simp
  show "Segments (e_manifest e') = filter (\<lambda>en. \<not> expired (UnixMilli (rp_Cutoff p)) en) (Segments ?m)"
    using res m by (auto simp: gone_def filter_empty_conv)
  show "touches (manifest_files ?m \<union> Path ` set gone) st st'"
    using res t touches_trans [OF t touches_mono [OF DeleteFiles_touches [of gone st1]]] by auto
  have t1: "touches (manifest_files ?m) st st1" by (rule RemoveBatch_effect(1) [OF rem])
  then have "o_files (snd (DeleteFiles gone st1)) path =
      (if path \<in> Path ` set gone \<and> \<not> o_denied st path then None else o_files st path)" if "path \<notin> manifest_files ?m" for path
    using that by (simp add: DeleteFiles_effect touches_def)
  then show "r = RespInt (length gone) \<and> (\<forall>path. path \<notin> manifest_files ?m \<longrightarrow>
        o_files st' path = (if path \<in> Path ` set gone \<and> \<not> o_denied st path then None else o_files st path)) \<or>
      (\<exists>err. r = RespErr err \<and> touches (manifest_files ?m) st st')"
    using res t1 by auto
qed

text \<open>What a list of segments loses at most when the ones that end before the cutoff go.\<close>

lemma recent_points_kept:
  assumes "\<forall>en\<in>set es. entry_ok st en"
  shows "filter (\<lambda>pt. sint c \<le> ts pt) (all_points st (filter (\<lambda>en. \<not> expired c en) es) sid) =
    filter (\<lambda>pt. sint c \<le> ts pt) (all_points st es sid)"
  using assms
proof (induction es)
  case (Cons en es)
  have "filter (\<lambda>pt. sint c \<le> ts pt) (segment_points st sid (Path en)) = []" if "expired c en"
    using Cons.prems that by (fastforce simp: entry_ok_def Let_def expired_def filter_empty_conv)
  then show ?case using Cons by (simp add: all_points_def)
qed (simp add: all_points_def)

text \<open>
  C24: retention keeps what is recent.  When the listed segments have distinct files, whose points lie
  in their block ranges, a retention command leaves exactly the segments that end at or after the
  cutoff, and every point of every series at or after the cutoff is read as before, in memory and
  from the segments.  If it reports a count, that is the number of segments dropped, and apart from the two files
  of the manifest exactly the files of the dropped segments are removed, of these the ones that the system lets the process remove:
  the count includes a segment whose file it refuses to remove (\<open>o_denied\<close>), and that file stays, listed
  nowhere.  If it reports an error, no file but the manifest's is touched.
\<close>

theorem engine_retention_keeps_recent:
  assumes "handleRetention (PRetention p) e st = Inr (r, e', st')" and "distinct (map Path (Segments (e_manifest e)))"
    and "\<forall>en\<in>set (Segments (e_manifest e)). entry_ok st en \<and> Path en \<notin> {man_path (e_manifest e), man_tmpPath (man_path (e_manifest e))}"
  shows "Segments (e_manifest e') = filter (\<lambda>en. sint (UnixMilli (rp_Cutoff p)) \<le> sint (BlockEnd en)) (Segments (e_manifest e)) \<and>
    (\<forall>sid. filter (\<lambda>pt. sint (UnixMilli (rp_Cutoff p)) \<le> ts pt) (all_points st' (Segments (e_manifest e')) sid) =
       filter (\<lambda>pt. sint (UnixMilli (rp_Cutoff p)) \<le> ts pt) (all_points st (Segments (e_manifest e)) sid)) \<and>
    GetPoints e' = GetPoints e \<and> FrozenPoints e' = FrozenPoints e \<and>
    (\<forall>n. r = RespInt n \<longrightarrow> n + length (Segments (e_manifest e')) = length (Segments (e_manifest e)) \<and>
       (\<forall>path. path \<notin> {man_path (e_manifest e), man_tmpPath (man_path (e_manifest e))} \<longrightarrow>
          o_files st' path = (if (\<exists>en\<in>set (Segments (e_manifest e)). Path en = path \<and> sint (BlockEnd en) < sint (UnixMilli (rp_Cutoff p))) \<and>
            \<not> o_denied st path then None else o_files st path))) \<and>
    (\<forall>path. (\<forall>n. r \<noteq> RespInt n) \<and> path \<notin> {man_path (e_manifest e), man_tmpPath (man_path (e_manifest e))} \<longrightarrow>
       o_files st' path = o_files st path)"
proof -
  let ?cut = "UnixMilli (rp_Cutoff p)" and ?es = "Segments (e_manifest e)"
  let ?kept = "filter (\<lambda>en. \<not> expired ?cut en) ?es"
  note E = handleRetention_effect [OF assms(1,2)]
  have "inj_on Path (set ?es)" using assms(2) by (simp add: distinct_map)
  then have "Path ` set ?kept \<inter> (manifest_files (e_manifest e) \<union> Path ` set (filter (expired ?cut) ?es)) = {}"
    using assms(3) by (auto dest: inj_onD)
  then have read: "all_points st' ?kept sid = all_points st ?kept sid" for sid by (rule all_points_touches [OF E(2)])
  have kept: "filter (\<lambda>pt. sint ?cut \<le> ts pt) (all_points st' ?kept sid) = filter (\<lambda>pt. sint ?cut \<le> ts pt) (all_points st ?es sid)" for sid
    unfolding read by (rule recent_points_kept) (use assms(3) in blast)
  have "length (filter (expired ?cut) ?es) + length ?kept = length ?es" by (rule sum_length_filter_compl)
  then have count: "r = RespInt n \<Longrightarrow> n + length ?kept = length ?es" for n using E(3) by auto
  have gone: "(\<exists>en\<in>set ?es. Path en = path \<and> sint (BlockEnd en) < sint ?cut) = (path \<in> Path ` set (filter (expired ?cut) ?es))" for path
    by (auto simp: expired_def)
  have files: "r = RespInt n \<Longrightarrow> path \<notin> manifest_files (e_manifest e) \<Longrightarrow>
      o_files st' path = (if path \<in> Path ` set (filter (expired ?cut) ?es) \<and> \<not> o_denied st path then None else o_files st path)" for n path
    using E(3) by auto
  have same: "(\<forall>n. r \<noteq> RespInt n) \<Longrightarrow> path \<notin> manifest_files (e_manifest e) \<Longrightarrow> o_files st' path = o_files st path" for path
    using E(3) by (auto simp: touches_def)
  have left: "?kept = filter (\<lambda>en. sint ?cut \<le> sint (BlockEnd en)) ?es" by (simp add: expired_def not_less)
  show ?thesis unfolding gone E(1) using E(4,5) kept count files same left by simp
qed

lemma man_save_succeeds:
  assumes "\<not> o_denied st (man_tmpPath (man_path m))" and "\<not> o_denied st (man_path m)" and "length (man_Marshal m) \<le> o_free st"
  shows "\<exists>st'. man_save m st = (None, st') \<and> o_free st' = o_free st - length (man_Marshal m) \<and> o_denied st' = o_denied st"
  using assms by (simp add: man_save_def os_WriteFile_def os_Create_def os_Write_def os_Rename_def Let_def)

text \<open>Two segments, of which the first, with a file on the disk, ends before the cutoff.\<close>

definition ex_two_segments :: engine where
  "ex_two_segments = ex_engine\<lparr>e_manifest := \<lparr>man_path = ''d/m'',
     Segments = [ex_entry\<lparr>Path := ex_path, BlockEnd := 121\<rparr>, ex_entry\<lparr>Path := ''d/b'', BlockEnd := 140\<rparr>], WALOffset = 0\<rparr>\<rparr>"

lemma ex_two_segments_ok:
  "distinct (map Path (Segments (e_manifest ex_two_segments)))"
  "\<forall>en\<in>set (Segments (e_manifest ex_two_segments)). entry_ok ex_compact en \<and>
    Path en \<notin> {man_path (e_manifest ex_two_segments), man_tmpPath (man_path (e_manifest ex_two_segments))}"
proof -
  have tmp: "man_tmpPath ''d/m'' = ''d/.manifest.tmp''" by code_simp
  show "distinct (map Path (Segments (e_manifest ex_two_segments)))"
    by (simp add: ex_two_segments_def ex_entry_def ex_path_def)
  have "entry_ok ex_compact (ex_entry\<lparr>Path := ex_path, BlockEnd := 121\<rparr>)"
    by (auto simp: entry_ok_def Let_def ex_compact_read(1) ex_entry_def ex_series_def ts_def)
  moreover have "segment_points ex_compact sid ''d/b'' = []" for sid
    by (simp add: segment_points_def OpenReader_def os_ReadFile_def ex_compact_def ex_disk_def ex_path_def)
  then have "entry_ok ex_compact (ex_entry\<lparr>Path := ''d/b'', BlockEnd := 140\<rparr>)" by (simp add: entry_ok_def Let_def)
  ultimately show "\<forall>en\<in>set (Segments (e_manifest ex_two_segments)). entry_ok ex_compact en \<and>
      Path en \<notin> {man_path (e_manifest ex_two_segments), man_tmpPath (man_path (e_manifest ex_two_segments))}"
    by (simp add: ex_two_segments_def tmp) (simp add: ex_path_def)
qed

lemma engine_retention_keeps_recent_witness:
  "\<exists>st e' st'. o_files st ex_path \<noteq> None \<and>
     handleRetention (PRetention \<lparr>rp_Cutoff = 130 * 1000000\<rparr>) ex_two_segments st = Inr (RespInt 1, e', st') \<and>
     Segments (e_manifest e') = [ex_entry\<lparr>Path := ''d/b'', BlockEnd := 140\<rparr>] \<and> o_files st' ex_path = None"
proof -
  let ?p = "\<lparr>rp_Cutoff = 130 * 1000000\<rparr>" and ?e = ex_two_segments
  let ?kept = "[ex_entry\<lparr>Path := ''d/b'', BlockEnd := 140\<rparr>]"
  let ?m = "(e_manifest ?e)\<lparr>Segments := ?kept\<rparr>"
  let ?st = "ex_compact\<lparr>o_free := length (man_Marshal ?m)\<rparr>"
  have c: "sint (UnixMilli 130000000) = 130" by code_simp
  have m: "man_path (e_manifest ?e) = ''d/m''" "man_tmpPath ''d/m'' = ''d/.manifest.tmp''"
    by (simp add: ex_two_segments_def, code_simp)
  have gone: "Removed (Sweep (Segments (e_manifest ?e)) (UnixMilli 130000000)) = [ex_entry\<lparr>Path := ex_path, BlockEnd := 121\<rparr>]"
    by (simp add: Sweep_eq expired_def c ex_two_segments_def)
  have "filter (\<lambda>en. Path en \<notin> {ex_path}) (Segments (e_manifest ?e)) = ?kept"
    by (simp add: ex_two_segments_def) (simp add: ex_path_def)
  moreover obtain st1 where "man_save ?m ?st = (None, st1)"
    using man_save_succeeds [of ?st ?m] by (auto simp: ex_compact_def ex_disk_def)
  ultimately have "man_RemoveBatch [ex_path] (e_manifest ?e) ?st = (None, ?m, st1)" by (simp add: man_RemoveBatch_save)
  then obtain e' st' where h: "handleRetention (PRetention ?p) ?e ?st = Inr (RespInt 1, e', st')"
    by (simp add: handleRetention_def Let_def man_List_def gone)
  have ok: "\<forall>en\<in>set (Segments (e_manifest ?e)). entry_ok ?st en \<and>
      Path en \<notin> {man_path (e_manifest ?e), man_tmpPath (man_path (e_manifest ?e))}"
    using ex_two_segments_ok(2) entry_ok_touches [OF touches_free, of _ "{}"] by blast
  note R = engine_retention_keeps_recent [OF h ex_two_segments_ok(1) ok]
  have "Segments (e_manifest e') = ?kept"
    using R [THEN conjunct1] by (simp add: c ex_two_segments_def)
  moreover have "ex_path \<notin> {''d/m'', ''d/.manifest.tmp''}" "\<not> o_denied ex_compact ex_path"
    by (simp_all add: ex_path_def ex_compact_def ex_disk_def)
  then have "o_files st' ex_path = None"
    using R by (simp add: m) (simp add: c ex_two_segments_def)
  moreover have "o_files ?st ex_path \<noteq> None" by (simp add: ex_compact_def)
  ultimately show ?thesis using h by blast
qed

subsection \<open>A compaction over its own input\<close>

lemma remove_files_gone:
  "p \<in> set ps \<Longrightarrow> \<not> o_denied st p \<Longrightarrow> o_files (remove_files ps st) p = None"
proof (induction ps arbitrary: st)
  case (Cons q ps)
  have keep: "o_files (remove_files ps st1) p = None" if "o_files st1 p = None" for st1
    using that by (induction ps arbitrary: st1) (simp_all add: os_Remove_file)
  show ?case using Cons keep by (cases "p \<in> set ps") (auto simp: os_Remove_file)
qed simp

lemma compaction_saved_applies:
  assumes "cd_Err res = None" and "compaction_saved res (e_manifest e) st" and "applyCompactionResult res e st = (e', st')"
  obtains st1 where "Segments (e_manifest e') = filter (\<lambda>en. Path en \<notin> set (cd_OldPaths res))
      (Segments (e_manifest e) @ [\<lparr>Path = cd_SegmentPath res, BlockStart = cd_BlockStart res, BlockEnd = cd_BlockEnd res,
        SeriesCount = cd_SeriesCount res, Size = 0\<rparr>])"
    and "st' = remove_files (cd_OldPaths res) st1" and "o_denied st1 = o_denied st"
proof -
  let ?en = "\<lparr>Path = cd_SegmentPath res, BlockStart = cd_BlockStart res, BlockEnd = cd_BlockEnd res, SeriesCount = cd_SeriesCount res, Size = 0\<rparr>"
  obtain m1 st1 m2 st2 where add: "man_Add ?en (e_manifest e) st = (None, m1, st1)"
    and rem: "man_RemoveBatch (cd_OldPaths res) m1 st1 = (None, m2, st2)"
    using assms(2) by (auto simp: compaction_saved_def split: prod.splits) (metis fst_conv prod.collapse)
  have "st' = remove_files (cd_OldPaths res) st2" "e_manifest e' = m2"
    using assms(1,3) add rem by (auto simp: applyCompactionResult_def Let_def)
  moreover have "Segments m1 = Segments (e_manifest e) @ [?en]" "o_denied st1 = o_denied st"
    using add man_save_touches [of m1 st None st1] by (auto simp: man_Add_save touches_def)
  moreover have "o_denied st2 = o_denied st1" using RemoveBatch_effect(1) [OF rem] by (simp add: touches_def)
  ultimately show thesis using that [of st2] RemoveBatch_effect(2) [OF rem] by simp
qed

text \<open>
  C25: a compaction can delete its own output.  The new segment is named after the number of
  segments merged only; when a segment merged has that name already (a compaction of as many
  segments before it), the result is written over it, and applying it removes both the entry and the
  file: neither the merged segments nor the new one are listed any more, and all their files go.
\<close>

theorem engine_compaction_loses_output:
  assumes "compaction_job rt cands dir st0 = (Inr res, st1)" and "cd_Err res = None"
    and "compaction_output cands dir \<in> Path ` set cands"
    and "compaction_saved res (e_manifest e) st" and "applyCompactionResult res e st = (e', st')"
  shows "cd_SegmentPath res = compaction_output cands dir \<and>
    (\<forall>en\<in>set (Segments (e_manifest e')). Path en \<noteq> cd_SegmentPath res \<and> Path en \<notin> Path ` set cands) \<and>
    (\<forall>c\<in>set cands. \<not> o_denied st (Path c) \<longrightarrow> o_files st' (Path c) = None)"
proof -
  obtain entry where c: "Compact (rt_sortPoints rt) (rt_sortSeries rt) (rt_range rt) cands (compaction_output cands dir) st0 = (Inr entry, st1)"
    and res: "cd_OldPaths res = map Path cands" "cd_SegmentPath res = Path entry"
    using assms(1,2) by (auto simp: compaction_job_def compaction_failed_def split: prod.splits sum.splits if_splits)
  have out: "Path entry = compaction_output cands dir" by (rule Compact_ok [OF c]) simp
  obtain st2 where A: "Segments (e_manifest e') = filter (\<lambda>en. Path en \<notin> set (cd_OldPaths res))
      (Segments (e_manifest e) @ [\<lparr>Path = cd_SegmentPath res, BlockStart = cd_BlockStart res, BlockEnd = cd_BlockEnd res,
        SeriesCount = cd_SeriesCount res, Size = 0\<rparr>])"
    "st' = remove_files (cd_OldPaths res) st2" "o_denied st2 = o_denied st"
    by (rule compaction_saved_applies [OF assms(2,4,5)])
  show ?thesis
    using A remove_files_gone [of _ "map Path cands" st2] assms(3) by (auto simp: res out)
qed

lemma engine_compaction_loses_output_witness:
  "\<exists>res st1 st e' st'. compaction_job ex_rt ex_twice ''d'' ex_compact = (Inr res, st1) \<and> cd_Err res = None \<and>
     applyCompactionResult res ex_engine st = (e', st') \<and> (\<forall>en\<in>set (Segments (e_manifest e')). Path en \<noteq> ex_path)"
proof -
  have out: "compaction_output ex_twice ''d'' = ex_path"
  proof -
    have "filepath_Join ''d'' (compacted_name 2) = ex_path" unfolding ex_path_def by code_simp
    moreover have "length ex_twice = 2" by (simp add: ex_twice_def)
    ultimately show ?thesis unfolding compaction_output_def by simp
  qed
  obtain entry st1 where c: "Compact (insertionSort ts) (insertionSort SeriesID) (\<lambda>m. m) ex_twice ex_path ex_compact = (Inr entry, st1)"
    using ex_twice_compacts by blast
  obtain res where job: "compaction_job ex_rt ex_twice ''d'' ex_compact = (Inr res, st1)" "cd_Err res = None"
    using c by (simp add: compaction_job_def out ex_rt_def)
  let ?m1 = "(e_manifest ex_engine)\<lparr>Segments := Segments (e_manifest ex_engine) @ [\<lparr>Path = cd_SegmentPath res, BlockStart = cd_BlockStart res,
      BlockEnd = cd_BlockEnd res, SeriesCount = cd_SeriesCount res, Size = 0\<rparr>]\<rparr>"
  let ?m2 = "?m1\<lparr>Segments := filter (\<lambda>e. Path e \<notin> set (cd_OldPaths res)) (Segments ?m1)\<rparr>"
  let ?st = "ex_disk\<lparr>o_free := length (man_Marshal ?m1) + length (man_Marshal ?m2)\<rparr>"
  obtain st2 where s2: "man_save ?m1 ?st = (None, st2)" "o_free st2 = length (man_Marshal ?m2)" "o_denied st2 = o_denied ex_disk"
    using man_save_succeeds [of ?st ?m1] by (auto simp: ex_disk_def)
  obtain st3 where s3: "man_save ?m2 st2 = (None, st3)"
    using man_save_succeeds [of st2 ?m2] s2 by (auto simp: ex_disk_def)
  have saved: "compaction_saved res (e_manifest ex_engine) ?st"
    unfolding compaction_saved_def man_Add_def man_RemoveBatch_def Let_def using s2(1) s3 by simp
  obtain e' st' where a: "applyCompactionResult res ex_engine ?st = (e', st')" by (metis prod.collapse)
  have "compaction_output ex_twice ''d'' \<in> Path ` set ex_twice" unfolding out by (simp add: ex_twice_def)
  from engine_compaction_loses_output [OF job this saved a] have "\<forall>en\<in>set (Segments (e_manifest e')). Path en \<noteq> ex_path"
    unfolding out by auto
  then show ?thesis using job a by blast
qed

end
