(* ===== verification/Series.thy ===== *)
theory Series
  imports Go_Binary Go_Strings
begin

text \<open>
  Package \<^verbatim>\<open>internal/series\<close>: the identifier of a series, a hash of its metric and tags, and the
  registry of the series seen.  The lemmas show that the identifier does not depend on the order in
  which a Go map is visited, what the registry keeps, and which series share an identifier.
\<close>

type_synonym tags = "(string, string) gomap"

text \<open>Go times are instants in nanoseconds; \<^verbatim>\<open>time.Now()\<close> is an argument.\<close>

record SeriesMeta =
  sm_SeriesID :: u64
  sm_Metric :: string
  sm_Tags :: tags
  sm_FirstSeen :: int
  sm_LastSeen :: int

text \<open>The loop of \<^verbatim>\<open>SeriesKey\<close> over the sorted keys.\<close>

fun hash_tags :: "tags \<Rightarrow> u64 \<Rightarrow> string list \<Rightarrow> u64" where
  "hash_tags tags h [] = h"
| "hash_tags tags h (k # ks) =
     (let h = fnv64a_Write h (str_bytes k);
          h = fnv64a_Write h (str_bytes ''='');
          h = fnv64a_Write h (str_bytes (case lookup tags k of Some v \<Rightarrow> v | None \<Rightarrow> []));
          h = fnv64a_Write h (str_bytes '','')
      in hash_tags tags h ks)"

definition SeriesKey :: "string \<Rightarrow> tags \<Rightarrow> u64" where
  "SeriesKey metric tags =
     (let keys = sort (map fst tags); h = fnv64a_Write fnv64a_offset (str_bytes metric)
      in hash_tags tags h keys)"

record registry =
  rg_byID :: "(u64, SeriesMeta) gomap"
  rg_byKey :: "(string, u64) gomap"

definition NewRegistry :: registry where
  "NewRegistry = \<lparr>rg_byID = [], rg_byKey = []\<rparr>"

text \<open>
  \<^verbatim>\<open>GetOrCreate\<close> looks twice, under the read lock and again under the write lock, between which
  another goroutine may have created the series: \<open>between\<close> is what the others do there.
\<close>

definition GetOrCreate :: "(registry \<Rightarrow> registry) \<Rightarrow> int \<Rightarrow> registry \<Rightarrow> string \<Rightarrow> tags \<Rightarrow> (u64 \<times> bool) \<times> registry" where
  "GetOrCreate between now r metric tags =
     (let sid = SeriesKey metric tags in
      if lookup (rg_byID r) sid \<noteq> None then ((sid, True), r)
      else
        let r = between r in
        if lookup (rg_byID r) sid \<noteq> None then ((sid, True), r)
        else
          let meta = \<lparr>sm_SeriesID = sid, sm_Metric = metric, sm_Tags = tags, sm_FirstSeen = now, sm_LastSeen = now\<rparr>
          in ((sid, False), r\<lparr>rg_byID := store (rg_byID r) sid meta\<rparr>))"

definition reg_Get :: "registry \<Rightarrow> u64 \<Rightarrow> SeriesMeta option" where
  "reg_Get r sid = lookup (rg_byID r) sid"

definition reg_ListMetrics :: "registry \<Rightarrow> string list" where
  "reg_ListMetrics r = map fst (foldl (\<lambda>seen (sid, meta). store seen (sm_Metric meta) ()) [] (rg_byID r))"

definition reg_ListSeries :: "registry \<Rightarrow> string \<Rightarrow> SeriesMeta list" where
  "reg_ListSeries r metric = filter (\<lambda>meta. sm_Metric meta = metric) (map snd (rg_byID r))"

definition reg_Len :: "registry \<Rightarrow> nat" where
  "reg_Len r = length (rg_byID r)"

subsection \<open>The identifier\<close>

lemma hash_tags_cong: "lookup t' = lookup t \<Longrightarrow> hash_tags t' h ks = hash_tags t h ks"
  by (induction ks arbitrary: h) simp_all

text \<open>
  The identifier of a series depends on its metric and tags only, not on the order in which
  the tag map happens to be visited.
\<close>

theorem series_key_order_free:
  assumes "map_wf tags" and "mset tags' = mset tags"
  shows "SeriesKey metric tags' = SeriesKey metric tags"
proof -
  have "mset (map fst tags') = mset (map fst tags)" using assms(2) by simp
  then have "sort (map fst tags') = sort (map fst tags)" by (metis sorted_list_of_multiset_mset)
  then show ?thesis
    using hash_tags_cong [OF lookup_perm [OF assms]] by (simp add: SeriesKey_def Let_def)
qed

lemma series_key_order_free_witness:
  "SeriesKey ''m'' [(''a'', ''1''), (''b'', ''2'')] = SeriesKey ''m'' [(''b'', ''2''), (''a'', ''1'')]"
  by (rule series_key_order_free) (simp_all add: map_wf_def)

text \<open>The bytes that are hashed.\<close>

definition key_bytes :: "string \<Rightarrow> tags \<Rightarrow> string" where
  "key_bytes metric tags =
     metric @ concat (map (\<lambda>k. k @ ''='' @ (case lookup tags k of Some v \<Rightarrow> v | None \<Rightarrow> []) @ '','') (sort (map fst tags)))"

lemma SeriesKey_bytes: "SeriesKey metric tags = fnv64a_Write fnv64a_offset (str_bytes (key_bytes metric tags))"
proof -
  have "hash_tags tags (fnv64a_Write h (str_bytes s)) ks =
      fnv64a_Write h (str_bytes (s @ concat (map (\<lambda>k. k @ ''='' @ (case lookup tags k of Some v \<Rightarrow> v | None \<Rightarrow> []) @ '','') ks)))" for h s ks
  proof (induction ks arbitrary: s)
    case (Cons k ks)
    show ?case
      using Cons.IH [of "s @ k @ ''='' @ (case lookup tags k of Some v \<Rightarrow> v | None \<Rightarrow> []) @ '',''"]
      by (simp add: str_bytes_def fnv64a_Write_def Let_def)
  qed simp
  then show ?thesis by (simp add: SeriesKey_def Let_def key_bytes_def)
qed

text \<open>
  Distinct series can share an identifier: one tag of a series can as well be written into the
  metric of a series without tags.  Whichever comes first takes the registry's entry, and the other
  one is reported as existing under its metadata.
\<close>

theorem series_key_collision:
  "SeriesKey metric [(k, v)] = SeriesKey (metric @ k @ ''='' @ v @ '','') [] \<and>
    (case GetOrCreate (\<lambda>r. r) now NewRegistry metric [(k, v)] of ((sid, existed), r) \<Rightarrow>
      case GetOrCreate (\<lambda>r. r) now' r (metric @ k @ ''='' @ v @ '','') [] of ((sid', existed'), r') \<Rightarrow>
        existed' \<and> sid' = sid \<and> r' = r \<and> map_option sm_Metric (reg_Get r' sid') = Some metric)"
proof -
  have "key_bytes metric [(k, v)] = key_bytes (metric @ k @ ''='' @ v @ '','') []"
    by (simp add: key_bytes_def)
  then have "SeriesKey metric [(k, v)] = SeriesKey (metric @ k @ ''='' @ v @ '','') []"
    by (simp add: SeriesKey_bytes)
  then show ?thesis
    by (simp add: GetOrCreate_def Let_def NewRegistry_def reg_Get_def)
qed

subsection \<open>The registry\<close>

text \<open>Every entry is filed under its own identifier, which is the hash of its metric and tags.\<close>

definition registry_wf :: "registry \<Rightarrow> bool" where
  "registry_wf r \<longleftrightarrow> map_wf (rg_byID r) \<and>
     (\<forall>(sid, meta)\<in>set (rg_byID r). sm_SeriesID meta = sid \<and> SeriesKey (sm_Metric meta) (sm_Tags meta) = sid)"

definition reg_extends :: "registry \<Rightarrow> registry \<Rightarrow> bool" where
  "reg_extends r r' \<longleftrightarrow> (\<forall>sid meta. reg_Get r sid = Some meta \<longrightarrow> reg_Get r' sid = Some meta)"

lemma set_store_new: "map_wf m \<Longrightarrow> lookup m k = None \<Longrightarrow> set (store m k v) = insert (k, v) (set m)"
proof -
  assume wf: "map_wf m" "lookup m k = None"
  have "(a, b) \<in> set (store m k v) \<longleftrightarrow> (a, b) = (k, v) \<or> (a, b) \<in> set m" for a b
    using lookup_Some_iff [OF map_wf_store [OF wf(1)], of k v a b] lookup_Some_iff [OF wf(1), of a b] wf(2)
    by (auto split: if_splits)
  then show ?thesis by auto
qed

lemma registry_wf_New [simp]: "registry_wf NewRegistry"
  by (simp add: registry_wf_def NewRegistry_def)

text \<open>
  C20: \<^verbatim>\<open>GetOrCreate\<close> returns the identifier of the series and files an entry under it, says truly
  whether one was there, and never changes an entry that exists, also when another goroutine creates
  series between its two looks.
\<close>

theorem registry_get_or_create:
  assumes "registry_wf r" and "registry_wf (between r)" and "reg_extends r (between r)"
  shows "case GetOrCreate between now r metric tags of ((sid, existed), r') \<Rightarrow>
    registry_wf r' \<and> reg_extends r r' \<and> sid = SeriesKey metric tags \<and> reg_Get r' sid \<noteq> None \<and>
    (existed \<longleftrightarrow> reg_Get r sid \<noteq> None \<or> reg_Get (between r) sid \<noteq> None) \<and>
    (\<not> existed \<longrightarrow> reg_Get r' sid =
       Some \<lparr>sm_SeriesID = sid, sm_Metric = metric, sm_Tags = tags, sm_FirstSeen = now, sm_LastSeen = now\<rparr>)"
proof (cases "lookup (rg_byID r) (SeriesKey metric tags)")
  case (Some meta)
  then show ?thesis using assms(1) by (simp add: GetOrCreate_def Let_def reg_extends_def reg_Get_def)
next
  case None
  show ?thesis
  proof (cases "lookup (rg_byID (between r)) (SeriesKey metric tags)")
    case (Some meta)
    then show ?thesis using None assms by (simp add: GetOrCreate_def Let_def reg_Get_def)
  next
    case new: None
    then show ?thesis
      using None assms
      by (auto simp: GetOrCreate_def Let_def reg_Get_def registry_wf_def set_store_new reg_extends_def)
  qed
qed

lemma registry_get_or_create_witness:
  "fst (fst (GetOrCreate (\<lambda>r. r) 5 NewRegistry ''cpu'' [])) = SeriesKey ''cpu'' []"
proof -
  have "reg_extends NewRegistry NewRegistry" by (simp add: reg_extends_def)
  from registry_get_or_create [of NewRegistry "\<lambda>r. r", OF registry_wf_New registry_wf_New this, where now = 5 and metric = "''cpu''" and tags = "[]"]
  show ?thesis by (simp split: prod.splits)
qed

text \<open>The two listings: every metric once, and the entries of a metric.\<close>

lemma reg_ListMetrics_set:
  "set (reg_ListMetrics r) = sm_Metric ` snd ` set (rg_byID r)" "distinct (reg_ListMetrics r)"
proof -
  let ?f = "\<lambda>seen (sid :: u64, meta :: SeriesMeta). store seen (sm_Metric meta) ()"
  have "fst ` set (foldl ?f acc xs) = fst ` set acc \<union> sm_Metric ` snd ` set xs" for acc xs
    by (induction xs arbitrary: acc) (simp_all add: set_store_fst split_beta)
  then show "set (reg_ListMetrics r) = sm_Metric ` snd ` set (rg_byID r)" by (simp add: reg_ListMetrics_def)
  have "map_wf acc \<Longrightarrow> map_wf (foldl ?f acc xs)" for acc xs
    by (induction xs arbitrary: acc) (simp_all add: split_beta)
  then show "distinct (reg_ListMetrics r)" using map_wf_Nil by (simp only: reg_ListMetrics_def map_wf_def)
qed

end
