(* ===== verification/Go_Text.thy ===== *)
theory Go_Text
  imports Go_Strings
begin

text \<open>
  What the repository uses of package \<^verbatim>\<open>strings\<close> to take text apart: splitting at a character, trimming
  and fields.  White space is the white space of ASCII; bytes from 128 on are none.
\<close>

subsection \<open>Splitting\<close>

text \<open>\<^verbatim>\<open>strings.Split\<close> at a separator of one character.\<close>

fun split_at :: "char \<Rightarrow> string \<Rightarrow> string list" where
  "split_at c [] = [[]]"
| "split_at c (x # xs) =
     (if x = c then [] # split_at c xs
      else (case split_at c xs of [] \<Rightarrow> [[x]] | p # ps \<Rightarrow> (x # p) # ps))"

text \<open>\<^verbatim>\<open>strings.SplitN\<close> at a separator of one character, for a positive count.\<close>

fun split_n :: "char \<Rightarrow> nat \<Rightarrow> string \<Rightarrow> string list" where
  "split_n c 0 s = []"
| "split_n c (Suc 0) s = [s]"
| "split_n c (Suc (Suc n)) s =
     (if c \<in> set s then takeWhile (\<lambda>x. x \<noteq> c) s # split_n c (Suc n) (tl (dropWhile (\<lambda>x. x \<noteq> c) s)) else [s])"

lemma split_at_neq_Nil [simp]: "split_at c s \<noteq> []"
  by (cases s) (auto split: list.splits)

lemma split_at_plain: "c \<notin> set s \<Longrightarrow> split_at c s = [s]"
  by (induction s) auto

lemma split_at_append [go_simps]: "c \<notin> set s \<Longrightarrow> split_at c (s @ c # rest) = s # split_at c rest"
  by (induction s) auto

text \<open>Pieces that do not contain the separator are found again.\<close>

lemma split_at_pieces:
  "\<forall>p\<in>set (p # ps). c \<notin> set p \<Longrightarrow> split_at c (p @ concat (map (\<lambda>q. c # q) ps)) = p # ps"
proof (induction ps arbitrary: p)
  case Nil
  then show ?case by (simp add: split_at_plain)
next
  case (Cons q ps)
  then show ?case using split_at_append [of c p "q @ concat (map (\<lambda>q. c # q) ps)"] by simp
qed

lemma split_n_here [go_simps]: "c \<notin> set s \<Longrightarrow> split_n c (Suc (Suc n)) (s @ c # rest) = s # split_n c (Suc n) rest"
proof -
  assume "c \<notin> set s"
  then have "takeWhile (\<lambda>x. x \<noteq> c) (s @ c # rest) = s" "dropWhile (\<lambda>x. x \<noteq> c) (s @ c # rest) = c # rest"
    by (induction s) auto
  then show ?thesis by simp
qed

lemma split_n_none [go_simps]: "c \<notin> set s \<Longrightarrow> split_n c (Suc n) s = [s]"
  by (cases n) simp_all

lemma split_n_length: "length (split_n c n s) \<le> n"
  by (induction c n s rule: split_n.induct) auto

subsection \<open>Prefixes and white space\<close>

definition has_prefix :: "string \<Rightarrow> string \<Rightarrow> bool" where
  "has_prefix s p \<longleftrightarrow> take (length p) s = p"

definition trim_prefix :: "string \<Rightarrow> string \<Rightarrow> string" where
  "trim_prefix s p = (if has_prefix s p then drop (length p) s else s)"

definition is_space :: "char \<Rightarrow> bool" where
  "is_space c \<longleftrightarrow> of_char c \<in> {9, 10, 11, 12, 13, 32 :: nat}"

definition trim_space :: "string \<Rightarrow> string" where
  "trim_space s = rev (dropWhile is_space (rev (dropWhile is_space s)))"

text \<open>\<^verbatim>\<open>strings.Fields\<close>: the maximal pieces without white space.\<close>

fun fields :: "string \<Rightarrow> string list" where
  "fields [] = []"
| "fields (c # cs) =
     (if is_space c then fields cs
      else if cs = [] \<or> is_space (hd cs) then [c] # fields cs
      else (case fields cs of [] \<Rightarrow> [[c]] | f # fs \<Rightarrow> (c # f) # fs))"

lemma fields_no_space: "\<forall>f\<in>set (fields s). f \<noteq> [] \<and> (\<forall>c\<in>set f. \<not> is_space c)"
proof (induction s)
  case (Cons c cs)
  show ?case
  proof (cases "is_space c")
    case False
    then show ?thesis using Cons by (cases "fields cs") auto
  qed (use Cons in simp)
qed simp

lemma fields_word:
  assumes "w \<noteq> []" and "\<forall>c\<in>set w. \<not> is_space c" and "rest = [] \<or> is_space (hd rest)"
  shows "fields (w @ rest) = w # fields rest"
  using assms(1,2)
proof (induction w)
  case (Cons c w)
  show ?case
  proof (cases w)
    case Nil
    then show ?thesis using Cons.prems assms(3) by simp
  next
    case (Cons d w')
    then show ?thesis using Cons.IH Cons.prems by simp
  qed
qed simp

lemma fields_skip: "\<forall>c\<in>set sp. is_space c \<Longrightarrow> fields (sp @ rest) = fields rest"
  by (induction sp) simp_all

lemma dropWhile_stop: "s = [] \<or> \<not> P (hd s) \<Longrightarrow> dropWhile P s = s"
  by (cases s) auto

lemma trim_space_plain:
  assumes "s = [] \<or> (\<not> is_space (hd s) \<and> \<not> is_space (last s))"
  shows "trim_space s = s"
  using assms dropWhile_stop [of s is_space] dropWhile_stop [of "rev s" is_space] by (auto simp: trim_space_def hd_rev)

end
