(* ===== verification/Go_Strconv.thy ===== *)
theory Go_Strconv
  imports Go_Float Go_Text
begin

text \<open>
  What the repository uses of \<^verbatim>\<open>strconv\<close> and \<^verbatim>\<open>time.ParseDuration\<close>, and of the arithmetic of \<^verbatim>\<open>float64\<close>
  besides addition: multiplication, division and conversions, computed exactly and rounded once.
\<close>

subsection \<open>Rounding a quotient\<close>

text \<open>The bits of the magnitude \<open>n / d\<close> in units of \<open>2 ^ -1074\<close>, to the nearest, ties to even.\<close>

definition round_ratio :: "int \<Rightarrow> int \<Rightarrow> int" where
  "round_ratio n d =
     (let k = bit_length (n div d) - 53; p = d * 2 ^ k; q = n div p; r = 2 * (n mod p);
          q = (if r > p \<or> (r = p \<and> odd q) then q + 1 else q)
      in min (int k * 2 ^ 52 + q) (2047 * 2 ^ 52))"

abbreviation one_units :: int where "one_units \<equiv> 2 ^ 1074"

definition f64_ratio :: "bool \<Rightarrow> int \<Rightarrow> int \<Rightarrow> f64" where
  "f64_ratio neg n d = f64_make neg (round_ratio (n * one_units) d)"

definition f64_Inf :: "bool \<Rightarrow> f64" where
  "f64_Inf neg = f64_make neg (2047 * 2 ^ 52)"

definition f64_mul :: "f64 \<Rightarrow> f64 \<Rightarrow> f64" where
  "f64_mul x y =
     (let neg = (f64_neg x \<noteq> f64_neg y) in
      if f64_isNaN x \<or> f64_isNaN y then f64_NaN
      else if f64_isInf x then (if f64_units y = 0 \<and> \<not> f64_isInf y then f64_NaN else f64_Inf neg)
      else if f64_isInf y then (if f64_units x = 0 then f64_NaN else f64_Inf neg)
      else f64_make neg (round_ratio (\<bar>f64_units x\<bar> * \<bar>f64_units y\<bar>) one_units))"

definition f64_div :: "f64 \<Rightarrow> f64 \<Rightarrow> f64" where
  "f64_div x y =
     (let neg = (f64_neg x \<noteq> f64_neg y) in
      if f64_isNaN x \<or> f64_isNaN y then f64_NaN
      else if f64_isInf x then (if f64_isInf y then f64_NaN else f64_Inf neg)
      else if f64_isInf y then f64_make neg 0
      else if f64_units y = 0 then (if f64_units x = 0 then f64_NaN else f64_Inf neg)
      else f64_make neg (round_ratio (\<bar>f64_units x\<bar> * one_units) \<bar>f64_units y\<bar>))"

definition f64_of_int :: "int \<Rightarrow> f64" where
  "f64_of_int i = f64_ratio (i < 0) \<bar>i\<bar> 1"

definition f64_trunc :: "f64 \<Rightarrow> int" where
  "f64_trunc x = sgn (f64_units x) * (\<bar>f64_units x\<bar> div one_units)"

text \<open>\<^verbatim>\<open>int64(x)\<close>, on amd64 the least integer when the value is out of range.\<close>

definition f64_to_i64 :: "f64 \<Rightarrow> i64" where
  "f64_to_i64 x =
     (if f64_exp x = 2047 \<or> f64_trunc x < - (2 ^ 63) \<or> 2 ^ 63 \<le> f64_trunc x then MinInt64 else word_of_int (f64_trunc x))"

text \<open>Rounding a quotient moves it by at most half a unit in the last place.\<close>

lemma round_ratio_nearest:
  assumes "0 \<le> n" and "0 < d"
  shows "\<exists>k q. round_ratio n d = min (int k * 2 ^ 52 + q) (2047 * 2 ^ 52) \<and> 2 * \<bar>q * (d * 2 ^ k) - n\<bar> \<le> d * 2 ^ k"
proof -
  let ?k = "bit_length (n div d) - 53"
  let ?p = "d * 2 ^ ?k"
  let ?q = "n div ?p" and ?r = "n mod ?p"
  let ?q' = "if 2 * ?r > ?p \<or> (2 * ?r = ?p \<and> odd ?q) then ?q + 1 else ?q"
  have p: "0 < ?p" using assms(2) by simp
  have e: "n = ?q * ?p + ?r" by (simp only: div_mult_mod_eq)
  have r: "0 \<le> ?r" "?r < ?p" using p by simp_all
  have "2 * \<bar>?q' * ?p - n\<bar> \<le> ?p"
  proof (cases "2 * ?r > ?p \<or> (2 * ?r = ?p \<and> odd ?q)")
    case True
    have "(?q + 1) * ?p - n = ?p - ?r" using e by (simp only: distrib_right mult_1)
    moreover have "2 * ?r \<ge> ?p" using True by auto
    ultimately show ?thesis using half_up [OF r] True by (simp only: if_True)
  next
    case False
    have "?q * ?p - n = - ?r" using e by linarith
    then show ?thesis using False r by auto
  qed
  moreover have "round_ratio n d = min (int ?k * 2 ^ 52 + ?q') (2047 * 2 ^ 52)"
    by (simp only: round_ratio_def Let_def)
  ultimately show ?thesis by (intro exI [of _ ?k] exI [of _ ?q'] conjI)
qed

lemma round_ratio_units: "round_ratio m 1 = round_units m"
  by (simp only: round_ratio_def round_units_def Let_def div_by_1 mult_1)

subsection \<open>Integers\<close>

text \<open>\<^verbatim>\<open>ParseUint(s, 10, 64)\<close>: the value that is returned, with the error.\<close>

fun parse_uint_loop :: "int \<Rightarrow> string \<Rightarrow> u64 \<times> go_error option" where
  "parse_uint_loop n [] = (word_of_int n, None)"
| "parse_uint_loop n (c # cs) =
     (if \<not> is_digit c then (0, Some ErrSyntax)
      else let n = 10 * n + int (digit_val c) in
        if n \<ge> 2 ^ 64 then (- 1, Some ErrRange) else parse_uint_loop n cs)"

definition ParseUint :: "string \<Rightarrow> u64 \<times> go_error option" where
  "ParseUint s = (if s = [] then (0, Some ErrSyntax) else parse_uint_loop 0 s)"

text \<open>\<^verbatim>\<open>ParseInt(s, 10, 64)\<close>.\<close>

definition ParseInt :: "string \<Rightarrow> i64 res" where
  "ParseInt s =
     (if s = [] then Inl ErrSyntax
      else
        let neg = (hd s = CHR ''-'');
            (un, err) = ParseUint (if neg \<or> hd s = CHR ''+'' then tl s else s) in
        if err = Some ErrSyntax then Inl ErrSyntax
        else if \<not> neg \<and> uint un \<ge> 2 ^ 63 then Inl ErrRange
        else if neg \<and> uint un > 2 ^ 63 then Inl ErrRange
        else Inr (if neg then - un else un))"

lemma str_nat_step: "foldl (\<lambda>a c. 10 * a + digit_val c) n (c # cs) = foldl (\<lambda>a c. 10 * a + digit_val c) (10 * n + digit_val c) cs"
  by simp

lemma foldl_digits_le: "n \<le> foldl (\<lambda>a c. 10 * a + digit_val c) n s"
proof (induction s arbitrary: n)
  case (Cons c s)
  have "n \<le> 10 * n + digit_val c" by simp
  then show ?case using Cons.IH [of "10 * n + digit_val c"] by simp
qed simp

lemma parse_uint_loop_digits:
  assumes "list_all is_digit s" and "foldl (\<lambda>a c. 10 * a + digit_val c) n s < 2 ^ 64"
  shows "parse_uint_loop (int n) s = (of_nat (foldl (\<lambda>a c. 10 * a + digit_val c) n s), None)"
  using assms
proof (induction s arbitrary: n)
  case (Cons c s)
  have "10 * n + digit_val c < 2 ^ 64"
    using Cons.prems(2) foldl_digits_le [of "10 * n + digit_val c" s] by (simp only: foldl_Cons)
  then have "\<not> 10 * int n + int (digit_val c) \<ge> 2 ^ 64" by (simp flip: of_nat_mult of_nat_add)
  moreover have "parse_uint_loop (int (10 * n + digit_val c)) s = (of_nat (foldl (\<lambda>a c. 10 * a + digit_val c) (10 * n + digit_val c) s), None)"
    using Cons by (simp del: of_nat_add of_nat_mult)
  ultimately show ?case using Cons.prems(1) by (simp add: Let_def)
qed simp

lemma ParseUint_str [go_simps]: "n < 2 ^ 64 \<Longrightarrow> ParseUint (nat_str n) = (of_nat n, None)"
  using parse_uint_loop_digits [of "nat_str n" 0] nat_str_digits [of n] str_nat_str [of n]
  by (simp add: ParseUint_def str_nat_def)

lemma ParseInt_nat_str:
  assumes "n < 2 ^ 63"
  shows "ParseInt (nat_str n) = Inr (of_nat n)"
proof -
  obtain c cs where s: "nat_str n = c # cs" using nat_str_neq_Nil [of n] by (cases "nat_str n") auto
  have "is_digit c" using nat_str_digits [of n] by (simp add: s)
  then have "c \<noteq> CHR ''-''" "c \<noteq> CHR ''+''" by (auto simp: is_digit_def)
  moreover have "ParseUint (c # cs) = (of_nat n, None)" using ParseUint_str [of n] assms by (simp add: s)
  moreover have "uint (of_nat n :: u64) = int n" using assms by (simp add: uint_nat unat_of_nat)
  ultimately show ?thesis using assms by (simp add: ParseInt_def s)
qed

subsection \<open>Floats\<close>

definition lower_char :: "char \<Rightarrow> char" where
  "lower_char c = (if 65 \<le> (of_char c :: nat) \<and> (of_char c :: nat) \<le> 90 then char_of ((of_char c :: nat) + 32) else c)"

definition digit_in :: "bool \<Rightarrow> char \<Rightarrow> int option" where
  "digit_in hex c =
     (if is_digit c then Some (int (digit_val c))
      else let n = of_char (lower_char c) :: nat in
        if hex \<and> 97 \<le> n \<and> n \<le> 102 then Some (int n - 87) else None)"

text \<open>The digits of a number: whether there are any, their value, how many follow the point, the rest.\<close>

fun scan_digits :: "bool \<Rightarrow> bool \<Rightarrow> bool \<Rightarrow> int \<Rightarrow> nat \<Rightarrow> string \<Rightarrow> bool \<times> int \<times> nat \<times> string" where
  "scan_digits hex dot saw m fr [] = (saw, m, fr, [])"
| "scan_digits hex dot saw m fr (c # cs) =
     (if c = CHR ''_'' then scan_digits hex dot saw m fr cs
      else if c = CHR ''.'' then (if dot then (saw, m, fr, c # cs) else scan_digits hex True saw m fr cs)
      else case digit_in hex c of
        None \<Rightarrow> (saw, m, fr, c # cs)
      | Some d \<Rightarrow> scan_digits hex dot True (m * (if hex then 16 else 10) + d) (if dot then fr + 1 else fr) cs)"

fun scan_exponent :: "int \<Rightarrow> string \<Rightarrow> int \<times> string" where
  "scan_exponent e [] = (e, [])"
| "scan_exponent e (c # cs) =
     (if c = CHR ''_'' then scan_exponent e cs
      else if is_digit c then scan_exponent (if e < 10000 then e * 10 + int (digit_val c) else e) cs
      else (e, c # cs))"

text \<open>\<^verbatim>\<open>underscoreOK\<close>: \<open>seen\<close> is the class of the last character.\<close>

datatype seen = SeenStart | SeenDigit | SeenUnderscore | SeenOther

fun underscore_loop :: "bool \<Rightarrow> seen \<Rightarrow> string \<Rightarrow> bool" where
  "underscore_loop hex seen [] \<longleftrightarrow> seen \<noteq> SeenUnderscore"
| "underscore_loop hex seen (c # cs) \<longleftrightarrow>
     (if digit_in hex c \<noteq> None then underscore_loop hex SeenDigit cs
      else if c = CHR ''_'' then seen = SeenDigit \<and> underscore_loop hex SeenUnderscore cs
      else seen \<noteq> SeenUnderscore \<and> underscore_loop hex SeenOther cs)"

definition strip_sign :: "string \<Rightarrow> string" where
  "strip_sign s = (if s \<noteq> [] \<and> (hd s = CHR ''+'' \<or> hd s = CHR ''-'') then tl s else s)"

definition underscore_ok :: "string \<Rightarrow> bool" where
  "underscore_ok s =
     (let s = strip_sign s;
          prefixed = (length s \<ge> 2 \<and> hd s = CHR ''0'' \<and> lower_char (s ! 1) \<in> {CHR ''b'', CHR ''o'', CHR ''x''})
      in underscore_loop (prefixed \<and> lower_char (s ! 1) = CHR ''x'') (if prefixed then SeenDigit else SeenStart)
           (if prefixed then drop 2 s else s))"

text \<open>The exponent part: its value, or \<open>None\<close> if it is malformed or something follows.\<close>

definition read_exponent :: "bool \<Rightarrow> string \<Rightarrow> int option" where
  "read_exponent hex rest =
     (if rest = [] then (if hex then None else Some 0)
      else if lower_char (hd rest) \<noteq> (if hex then CHR ''p'' else CHR ''e'') then None
      else
        let t = tl rest; u = strip_sign t in
        if u = [] \<or> \<not> is_digit (hd u) then None
        else case scan_exponent 0 u of (e, []) \<Rightarrow> Some (if hd t = CHR ''-'' then - e else e) | _ \<Rightarrow> None)"

text \<open>\<^verbatim>\<open>ParseFloat(s, 64)\<close>.\<close>

definition ParseFloat :: "string \<Rightarrow> f64 res" where
  "ParseFloat s =
     (let neg = (s \<noteq> [] \<and> hd s = CHR ''-''); body = strip_sign s; low = map lower_char body in
      if low = ''inf'' \<or> low = ''infinity'' then Inr (f64_Inf neg)
      else if map lower_char s = ''nan'' then Inr f64_NaN
      else
        let hex = (length body > 2 \<and> hd body = CHR ''0'' \<and> lower_char (body ! 1) = CHR ''x'') in
        (case scan_digits hex False False 0 0 (if hex then drop 2 body else body) of (saw, m, fr, rest) \<Rightarrow>
           if \<not> saw then Inl ErrSyntax
           else case read_exponent hex rest of
             None \<Rightarrow> Inl ErrSyntax
           | Some e \<Rightarrow>
               if CHR ''_'' \<in> set s \<and> \<not> underscore_ok s then Inl ErrSyntax
               else
                 let base = (if hex then 2 else 10 :: int); e = e - int (if hex then 4 * fr else fr);
                     x = (if m = 0 then f64_make neg 0
                          else if e \<ge> 0 then f64_ratio neg (m * base ^ nat e) 1
                          else f64_ratio neg m (base ^ nat (- e))) in
                 if f64_isInf x then Inl ErrRange else Inr x))"

lemma bit_length_shift: "0 < m \<Longrightarrow> bit_length (m * 2 ^ k) = bit_length m + k"
proof (induction k)
  case (Suc k)
  have half: "(m * 2 ^ Suc k) div 2 = m * 2 ^ k" by simp
  have "\<not> m * 2 ^ Suc k \<le> 0" using Suc.prems by (simp only: not_le zero_less_mult_iff) simp
  then have "bit_length (m * 2 ^ Suc k) = Suc (bit_length (m * 2 ^ k))"
    by (simp only: bit_length.simps [of "m * 2 ^ Suc k"] if_False half)
  then show ?case using Suc by simp
qed simp

text \<open>Integers of at most 53 bits are represented exactly.\<close>

lemma bit_length_le: "0 < m \<Longrightarrow> m < 2 ^ n \<Longrightarrow> bit_length m \<le> n"
proof -
  assume m: "0 < m" "m < 2 ^ n"
  from bit_length_bounds [OF m(1)] have "(2 :: int) ^ (bit_length m - 1) < 2 ^ n" using m(2) by linarith
  then have "bit_length m - 1 < n" by (simp add: power_strict_increasing_iff)
  then show ?thesis by simp
qed

lemma f64_ratio_int:
  assumes "0 < m" and "m < 2 ^ 53"
  shows "f64_ratio neg m 1 = f64_make neg (int (bit_length m + 1021) * 2 ^ 52 + m * 2 ^ (53 - bit_length m))"
proof -
  let ?b = "bit_length m"
  have b: "0 < ?b" "?b \<le> 53" using bit_length_bounds [OF assms(1)] bit_length_le [OF assms] by simp_all
  have "1074 = 53 - ?b + (?b + 1021)" using b(2) by simp
  then have "m * one_units = m * 2 ^ (53 - ?b) * 2 ^ (?b + 1021)" by (metis power_add mult.assoc)
  moreover have "bit_length (m * one_units) - 53 = ?b + 1021" using bit_length_shift [OF assms(1), of 1074] by (simp del: power_numeral)
  ultimately have r: "round_ratio (m * one_units) 1 = min (int (?b + 1021) * 2 ^ 52 + m * 2 ^ (53 - ?b)) (2047 * 2 ^ 52)"
    by (simp only: round_ratio_def Let_def div_by_1 mult_1) simp
  have "m * 2 ^ (53 - ?b) < 2 ^ 53"
  proof -
    have "m * 2 ^ (53 - ?b) < 2 ^ ?b * 2 ^ (53 - ?b)" using bit_length_bounds [OF assms(1)] by simp
    also have "\<dots> = 2 ^ 53" using b(2) by (simp flip: power_add)
    finally show ?thesis .
  qed
  then have "int (?b + 1021) * 2 ^ 52 + m * 2 ^ (53 - ?b) \<le> 2047 * 2 ^ 52" using b(2) by simp
  then show ?thesis by (simp only: f64_ratio_def r min_absorb1)
qed

text \<open>The decimal numeral of such an integer is read as that integer.\<close>

lemma scan_digits_all:
  "list_all is_digit s \<Longrightarrow> scan_digits False False saw (int m) 0 s = (saw \<or> s \<noteq> [], int (foldl (\<lambda>a c. 10 * a + digit_val c) m s), 0, [])"
proof (induction s arbitrary: saw m)
  case (Cons c s)
  have "c \<noteq> CHR ''_''" "c \<noteq> CHR ''.''" using Cons.prems by (auto simp: is_digit_def)
  moreover have e: "int m * 10 + int (digit_val c) = int (10 * m + digit_val c)" by simp
  moreover have "list_all is_digit s" "is_digit c" using Cons.prems by simp_all
  ultimately show ?case
    using Cons.IH [of True "10 * m + digit_val c"] by (simp only: scan_digits.simps digit_in_def) (simp add: e del: of_nat_add of_nat_mult)
qed simp

lemma lower_digit: "is_digit c \<Longrightarrow> lower_char c = c"
  by (auto simp: lower_char_def is_digit_def)

lemma f64_of_int_bits:
  assumes "0 < m" and "m < 2 ^ 53"
  shows "uint (f64_of_int m) = int (bit_length m + 1021) * 2 ^ 52 + m * 2 ^ (53 - bit_length m)"
    and "2 ^ 52 \<le> m * 2 ^ (53 - bit_length m)" and "m * 2 ^ (53 - bit_length m) < 2 ^ 53" and "bit_length m \<le> 53" and "0 < bit_length m"
proof -
  let ?b = "bit_length m"
  note bounds = bit_length_bounds [OF assms(1)]
  show b: "?b \<le> 53" "0 < ?b" using bounds bit_length_le [OF assms] by simp_all
  let ?x = "int (?b + 1021) * 2 ^ 52 + m * 2 ^ (53 - ?b)"
  have "m * 2 ^ (53 - ?b) < 2 ^ ?b * 2 ^ (53 - ?b)" using bounds by simp
  also have "\<dots> = 2 ^ 53" using b(1) by (simp flip: power_add)
  finally show hi: "m * 2 ^ (53 - ?b) < 2 ^ 53" .
  have "(2 :: int) ^ 52 = 2 ^ (?b - 1) * 2 ^ (53 - ?b)" using b by (simp flip: power_add)
  also have "\<dots> \<le> m * 2 ^ (53 - ?b)" using bounds by (intro mult_right_mono) simp_all
  finally show "2 ^ 52 \<le> m * 2 ^ (53 - ?b)" .
  have x: "0 \<le> ?x" "?x < 2047 * 2 ^ 52" using b hi assms(1) by simp_all
  have "f64_of_int m = word_of_int ?x" using assms(1) by (simp only: f64_of_int_def abs_of_pos not_less_iff_gr_or_eq f64_ratio_int [OF assms] f64_make_def) simp
  then have "uint (f64_of_int m) = take_bit 64 ?x" by (simp only: uint_word_of_int_eq) simp
  also have "\<dots> = ?x" using x by (intro take_bit_int_eq_self) simp_all
  finally show "uint (f64_of_int m) = ?x" .
qed

text \<open>Its fields, and the value they stand for.\<close>

lemma f64_of_int_fields:
  assumes "0 < m" and "m < 2 ^ 53"
  shows "f64_exp (f64_of_int m) = int (bit_length m + 1022)" and "f64_frac (f64_of_int m) = m * 2 ^ (53 - bit_length m) - 2 ^ 52"
    and "\<not> f64_neg (f64_of_int m)"
proof -
  note B = f64_of_int_bits [OF assms]
  define y where "y = m * 2 ^ (53 - bit_length m)"
  have u: "uint (f64_of_int m) = int (bit_length m + 1022) * 2 ^ 52 + (y - 2 ^ 52)"
    unfolding B(1) y_def by (simp add: algebra_simps)
  have r: "0 \<le> y - 2 ^ 52" "y - 2 ^ 52 < 2 ^ 52" using B(2,3) unfolding y_def [symmetric] by simp_all
  have q: "(k * 2 ^ 52 + z) div 2 ^ 52 = k" "(k * 2 ^ 52 + z) mod 2 ^ 52 = z" if "0 \<le> z" "z < 2 ^ 52" for k z :: int
    using that by (simp_all add: div_pos_pos_trivial mod_pos_pos_trivial)
  show "f64_frac (f64_of_int m) = m * 2 ^ (53 - bit_length m) - 2 ^ 52"
    unfolding f64_frac_def u q(2) [OF r] by (simp only: y_def)
  show "f64_exp (f64_of_int m) = int (bit_length m + 1022)"
    unfolding f64_exp_def u q(1) [OF r] using B(4) by simp
  have "int (bit_length m + 1022) * 2 ^ 52 \<le> 1075 * 2 ^ 52" using B(4) by simp
  then have "uint (f64_of_int m) < 2 ^ 63" using r unfolding u by simp
  then show "\<not> f64_neg (f64_of_int m)" by (simp add: f64_neg_def)
qed

lemma f64_of_int_finite:
  assumes "0 \<le> m" and "m < 2 ^ 53"
  shows "\<not> f64_isInf (f64_of_int m)"
proof (cases "m = 0")
  case True
  then show ?thesis by (simp only:) code_simp
next
  case False
  then show ?thesis using f64_of_int_fields(1) [of m] f64_of_int_bits(4) [of m] assms by (simp add: f64_isInf_def)
qed

lemma f64_trunc_of_int:
  assumes "0 \<le> m" and "m < 2 ^ 53"
  shows "f64_trunc (f64_of_int m) = m"
proof (cases "m = 0")
  case True
  then show ?thesis by (simp only:) code_simp
next
  case False
  then have m: "0 < m" using assms(1) by simp
  note F = f64_of_int_fields [OF m assms(2)] and B = f64_of_int_bits(4,5) [OF m assms(2)]
  have e: "nat (int (bit_length m + 1022) - 1) = bit_length m + 1021" by simp
  have "m * 2 ^ (53 - bit_length m) * 2 ^ (bit_length m + 1021) = m * one_units"
  proof -
    have "53 - bit_length m + (bit_length m + 1021) = 1074" using B(1) by simp
    then show ?thesis by (simp only: mult.assoc power_add [symmetric])
  qed
  then have "f64_units (f64_of_int m) = m * one_units"
    unfolding f64_units_def Let_def F(1,2) e using F(3) by (simp del: power_numeral)
  moreover have "\<bar>m * one_units\<bar> div one_units = m"
    using m by (simp only: abs_mult abs_of_pos zero_less_power zero_less_numeral) simp
  moreover have "sgn (m * one_units) = 1" using m by (simp only: sgn_mult sgn_pos zero_less_power zero_less_numeral mult_1)
  ultimately show ?thesis by (simp only: f64_trunc_def mult_1)
qed

text \<open>Integers of at most 53 bits survive the way through \<^verbatim>\<open>float64\<close>.\<close>

lemma f64_to_i64_of_int:
  assumes "0 \<le> m" and "m < 2 ^ 53"
  shows "f64_to_i64 (f64_of_int m) = word_of_int m"
proof -
  have "f64_exp (f64_of_int m) \<noteq> 2047"
  proof (cases "m = 0")
    case True
    then show ?thesis by (simp only:) code_simp
  qed (use f64_of_int_fields(1) [of m] f64_of_int_bits(4) [of m] assms in simp)
  then show ?thesis using assms unfolding f64_to_i64_def f64_trunc_of_int [OF assms] by simp
qed

lemma ParseFloat_nat_str [go_simps]:
  assumes "n < 2 ^ 53"
  shows "ParseFloat (nat_str n) = Inr (f64_of_int (int n))"
proof -
  let ?s = "nat_str n"
  have dig: "list_all is_digit ?s" by (rule nat_str_digits)
  obtain c cs where s: "?s = c # cs" using nat_str_neq_Nil [of n] by (cases ?s) auto
  have c: "is_digit c" "list_all is_digit cs" using dig s by simp_all
  then have "c \<noteq> CHR ''+''" "c \<noteq> CHR ''-''" by (auto simp: is_digit_def)
  then have strip: "strip_sign ?s = ?s" "(hd ?s = CHR ''-'') = False" by (simp_all add: strip_sign_def s)
  have "lower_char c \<notin> {CHR ''i'', CHR ''n''}" using c(1) by (simp add: lower_digit) (auto simp: is_digit_def)
  then have words: "(map lower_char ?s = ''inf'') = False" "(map lower_char ?s = ''infinity'') = False" "(map lower_char ?s = ''nan'') = False"
    by (auto simp: s)
  have hex: "(2 < length ?s \<and> hd ?s = CHR ''0'' \<and> lower_char (?s ! Suc 0) = CHR ''x'') = False"
  proof -
    have "lower_char (?s ! Suc 0) \<noteq> CHR ''x''" if "length ?s > 2"
    proof -
      have "is_digit (?s ! Suc 0)" using dig that by (simp add: list_all_length)
      then show ?thesis by (simp add: lower_digit) (auto simp: is_digit_def)
    qed
    then show ?thesis by blast
  qed
  have under: "(CHR ''_'' \<in> set ?s) = False" using dig by (auto simp: list_all_iff is_digit_def)
  have scan: "scan_digits False False False 0 0 ?s = (True, int n, 0, [])"
    using scan_digits_all [OF dig, of False 0] str_nat_str [of n] by (simp add: str_nat_def s)
  have fin: "\<not> f64_isInf (f64_of_int (int n))" using assms by (intro f64_of_int_finite) simp_all
  have zero: "f64_make False 0 = f64_of_int 0" by code_simp
  have pos: "f64_ratio False (int n) 1 = f64_of_int (int n)" by (simp add: f64_of_int_def)
  show ?thesis
    by (simp add: ParseFloat_def Let_def strip words hex under scan read_exponent_def)
      (use fin zero in \<open>cases "n = 0"; simp add: pos\<close>)
qed

subsection \<open>The verb v\<close>

text \<open>
  The shortest digits that read back as the same number, by the number of digits: among the decimal
  numbers of \<open>n\<close> digits next to the value, the nearer one that rounds to it.  The value is \<open>v / 2 ^ 1075\<close>,
  and the numbers that round to it lie between \<open>lo\<close> and \<open>hi\<close>.
\<close>

definition scaled :: "int \<Rightarrow> int \<Rightarrow> int \<times> int" where
  "scaled v e = (if e \<ge> 0 then (v, 10 ^ nat e * 2 ^ 1075) else (v * 10 ^ nat (- e), 2 ^ 1075))"

function decimal_exponent :: "nat \<Rightarrow> int \<Rightarrow> int \<Rightarrow> int" where
  "decimal_exponent 0 v e = e"
| "decimal_exponent (Suc fuel) v e =
     (case scaled v e of (n, d) \<Rightarrow> if n < d then decimal_exponent fuel v (e - 1) else e)"
  by pat_completeness auto
termination by (relation "measure fst") auto

definition reads_back :: "int \<Rightarrow> int \<Rightarrow> bool \<Rightarrow> int \<Rightarrow> int \<Rightarrow> bool" where
  "reads_back lo hi closed c e =
     (case (scaled lo e, scaled hi e) of ((ln, ld), (un, ud)) \<Rightarrow>
        if closed then ln \<le> c * ld \<and> c * ud \<le> un else ln < c * ld \<and> c * ud < un)"

fun shortest_digits :: "nat \<Rightarrow> nat \<Rightarrow> int \<Rightarrow> int \<Rightarrow> int \<Rightarrow> bool \<Rightarrow> int \<Rightarrow> int \<times> int" where
  "shortest_digits 0 n v lo hi closed upper = (0, 0)"
| "shortest_digits (Suc fuel) n v lo hi closed upper =
     (let e = upper - int n; (num, den) = scaled v e; c = num div den;
          low = reads_back lo hi closed c e; high = reads_back lo hi closed (c + 1) e;
          nearer = (2 * (num mod den) < den \<or> (2 * (num mod den) = den \<and> even c)) in
      if low \<and> (nearer \<or> \<not> high) then (c, e)
      else if high then (c + 1, e)
      else shortest_digits fuel (n + 1) v lo hi closed upper)"

function strip_zeros :: "int \<Rightarrow> int \<Rightarrow> int \<times> int" where
  "strip_zeros c e = (if c > 0 \<and> c mod 10 = 0 then strip_zeros (c div 10) (e + 1) else (c, e))"
  by pat_completeness auto
termination by (relation "measure (\<lambda>(c, e). nat c)") auto

declare strip_zeros.simps [simp del]

text \<open>The layout of \<^verbatim>\<open>%g\<close> with the shortest precision.\<close>

definition format_digits :: "string \<Rightarrow> int \<Rightarrow> string" where
  "format_digits ds dp =
     (let x = dp - 1; nd = length ds in
      if x < -4 \<or> x \<ge> 6 then
        take 1 ds @ (if nd > 1 then ''.'' @ drop 1 ds else []) @ ''e'' @ (if x < 0 then ''-'' else ''+'') @
        (if \<bar>x\<bar> < 10 then ''0'' else []) @ nat_str (nat \<bar>x\<bar>)
      else if dp \<le> 0 then ''0.'' @ replicate (nat (- dp)) (CHR ''0'') @ ds
      else if nd \<le> nat dp then ds @ replicate (nat dp - nd) (CHR ''0'')
      else take (nat dp) ds @ ''.'' @ drop (nat dp) ds)"

definition format_float :: "f64 \<Rightarrow> string" where
  "format_float x =
     (let sign = (if f64_neg x then ''-'' else []); m = \<bar>f64_units x\<bar> in
      if f64_isNaN x then ''NaN''
      else if f64_isInf x then (if f64_neg x then ''-Inf'' else ''+Inf'')
      else if m = 0 then sign @ ''0''
      else
        let b = uint x mod 2 ^ 63; prev = \<bar>f64_units (word_of_int (b - 1))\<bar>; nxt = 2 * m - prev;
            nxt = (if f64_frac x = 0 \<and> f64_exp x > 1 then m + 2 * (m - prev) else nxt);
            upper = decimal_exponent 700 (2 * m) 310 + 1;
            (c, e) = shortest_digits 18 1 (2 * m) (m + prev) (m + nxt) (even (f64_frac x)) upper;
            (c, e) = strip_zeros c e; ds = nat_str (nat c)
        in sign @ format_digits ds (int (length ds) + e))"

subsection \<open>Durations\<close>

text \<open>\<^verbatim>\<open>leadingInt\<close> and \<^verbatim>\<open>leadingFraction\<close>: the value of the leading digits, the power of ten of a fraction, the rest.\<close>

fun leading_int :: "int \<Rightarrow> string \<Rightarrow> (int \<times> string) option" where
  "leading_int x [] = Some (x, [])"
| "leading_int x (c # cs) =
     (if \<not> is_digit c then Some (x, c # cs)
      else if x > 2 ^ 63 div 10 \<or> x * 10 + int (digit_val c) > 2 ^ 63 then None
      else leading_int (x * 10 + int (digit_val c)) cs)"

fun leading_fraction :: "bool \<Rightarrow> int \<Rightarrow> int \<Rightarrow> string \<Rightarrow> int \<times> int \<times> string" where
  "leading_fraction over x scale [] = (x, scale, [])"
| "leading_fraction over x scale (c # cs) =
     (if \<not> is_digit c then (x, scale, c # cs)
      else if over \<or> x > (2 ^ 63 - 1) div 10 \<or> x * 10 + int (digit_val c) > 2 ^ 63 then leading_fraction True x scale cs
      else leading_fraction False (x * 10 + int (digit_val c)) (scale * 10) cs)"

definition duration_unit :: "string \<Rightarrow> int option" where
  "duration_unit u =
     (if u = ''ns'' then Some 1
      else if u = ''us'' \<or> u = [CHR 0xC2, CHR 0xB5, CHR ''s''] \<or> u = [CHR 0xCE, CHR 0xBC, CHR ''s''] then Some 1000
      else if u = ''ms'' then Some 1000000
      else if u = ''s'' then Some 1000000000
      else if u = ''m'' then Some 60000000000
      else if u = ''h'' then Some 3600000000000
      else None)"

text \<open>One number with its unit: its value in nanoseconds, and what follows.\<close>

definition duration_part :: "string \<Rightarrow> (int \<times> string) option" where
  "duration_part s =
     (if s = [] \<or> (hd s \<noteq> CHR ''.'' \<and> \<not> is_digit (hd s)) then None
      else case leading_int 0 s of
        None \<Rightarrow> None
      | Some (v, s1) \<Rightarrow>
          let pre = (length s1 \<noteq> length s); dot = (s1 \<noteq> [] \<and> hd s1 = CHR ''.'');
              (f, scale, s2) = (if dot then leading_fraction False 0 1 (tl s1) else (0, 1, s1));
              post = (dot \<and> length s2 \<noteq> length (tl s1)) in
          if \<not> pre \<and> \<not> post then None
          else
            let u = takeWhile (\<lambda>c. c \<noteq> CHR ''.'' \<and> \<not> is_digit c) s2; rest = drop (length u) s2 in
            (case duration_unit u of
               None \<Rightarrow> None
             | Some unt \<Rightarrow>
                 if v > 2 ^ 63 div unt then None
                 else
                   let w = v * unt + (if f > 0
                         then f64_trunc (f64_mul (f64_of_int f) (f64_div (f64_of_int unt) (f64_of_int scale))) else 0) in
                   if w > 2 ^ 63 then None else Some (w, rest)))"

lemma leading_int_length: "leading_int x s = Some (v, r) \<Longrightarrow> length r \<le> length s"
  by (induction x s rule: leading_int.induct) (fastforce split: if_splits)+

lemma leading_fraction_length: "leading_fraction ov x sc s = (v, sc', r) \<Longrightarrow> length r \<le> length s"
  by (induction ov x sc s rule: leading_fraction.induct) (fastforce split: if_splits)+

lemma duration_part_length:
  assumes "duration_part s = Some (w, rest)"
  shows "length rest < length s"
proof -
  obtain v s1 where s1: "leading_int 0 s = Some (v, s1)" using assms by (auto simp: duration_part_def split: if_splits option.splits)
  let ?dot = "s1 \<noteq> [] \<and> hd s1 = CHR ''.''"
  obtain f scale s2 where s2: "(if ?dot then leading_fraction False 0 1 (tl s1) else (0, 1, s1)) = (f, scale, s2)" by (metis prod_cases3)
  let ?u = "takeWhile (\<lambda>c. c \<noteq> CHR ''.'' \<and> \<not> is_digit c) s2"
  have u: "rest = drop (length ?u) s2" "duration_unit ?u \<noteq> None"
    using assms s1 s2 unfolding duration_part_def by (auto simp: Let_def split: if_splits option.splits)
  have "?u \<noteq> []" using u(2) by (auto simp: duration_unit_def)
  then have "length rest < length s2 \<or> s2 = []" using u(1) by (cases s2) auto
  moreover have "s2 \<noteq> []" using \<open>?u \<noteq> []\<close> by auto
  moreover have "length s2 \<le> length s1" using s2 leading_fraction_length [of False 0 1 "tl s1" f scale s2] by (auto split: if_splits)
  ultimately show ?thesis using leading_int_length [OF s1] by auto
qed

function duration_loop :: "int \<Rightarrow> string \<Rightarrow> int option" where
  "duration_loop d s =
     (if s = [] then Some d
      else case duration_part s of
        None \<Rightarrow> None
      | Some (v, rest) \<Rightarrow> if d + v > 2 ^ 63 then None else duration_loop (d + v) rest)"
  by pat_completeness auto
termination by (relation "measure (\<lambda>(d, s). length s)") (auto dest: duration_part_length)

declare duration_loop.simps [simp del]

definition ParseDuration :: "string \<Rightarrow> i64 res" where
  "ParseDuration s =
     (let body = strip_sign s in
      if body = ''0'' then Inr 0
      else if body = [] then Inl ErrFormat
      else case duration_loop 0 body of
        None \<Rightarrow> Inl ErrFormat
      | Some d \<Rightarrow> if hd s = CHR ''-'' then Inr (- word_of_int d)
          else if d > 2 ^ 63 - 1 then Inl ErrFormat else Inr (word_of_int d))"

end
