(* ===== verification/Http.thy ===== *)
theory Http
  imports Engine_Props Series Go_Strconv
begin

text \<open>
  Package \<^verbatim>\<open>api/http\<close>: the handlers of the HTTP interface and the two routings, of \<^verbatim>\<open>ServeHTTP\<close> and of
  \<^verbatim>\<open>NewServer\<close>.  A handler that submits a command is in two parts, up to the submission and from the
  response on, between which the engine and other requests go on.  A request carries the value that
  \<^verbatim>\<open>json.Decode\<close> makes of its body for the type the handler asks for; a response carries the value that
  is encoded.  The three pages are data.  The lemmas show what a request submits and that what was
  posted is what a query returns.
\<close>

subsection \<open>Messages\<close>

record pointJSON =
  pj_Timestamp :: i64
  pj_Value :: f64

record seriesWrite =
  sw_Metric :: string
  sw_Tags :: tags
  sw_Points :: "pointJSON list"

record http_writeRequest =
  wr_Series :: "seriesWrite list"

record queryRequest =
  qq_Metric :: string
  qq_Tags :: tags
  qq_Start :: int
  qq_End :: int
  qq_Aggregation :: string
  qq_BucketWidth :: string

record queryResultJSON =
  rj_SeriesID :: u64
  rj_Buckets :: "bucket list"
  rj_Points :: "pointJSON list"

record batchAddPoint =
  bp_Metric :: string
  bp_Tags :: tags
  bp_Timestamp :: i64
  bp_Value :: f64

record batchAddRequest =
  ba_Points :: "batchAddPoint list"

text \<open>
  What is written to the client: plain text (\<^verbatim>\<open>http.Error\<close>), a page, or the JSON of a value; the
  results of a query are \<open>None\<close> for a nil slice.
\<close>

datatype page = LandingPage | DocsPage | OpenAPIPage

datatype http_body =
    PlainText string
  | Page page
  | WriteResponse nat string
  | QueryResponse "queryResultJSON list option" string
  | MetricNames "string list"
  | Counters "(string, i64) gomap"
  | SeriesList "SeriesMeta list"
  | StringMap "(string, string) gomap"

record http_response =
  hr_Status :: nat
  hr_Body :: http_body

text \<open>\<open>rq_metric\<close> is the query parameter \<^verbatim>\<open>metric\<close>; the last three are the decoder's results for the body.\<close>

record http_request =
  rq_Method :: string
  rq_Path :: string
  rq_metric :: string
  rq_write :: "http_writeRequest res"
  rq_query :: "queryRequest res"
  rq_batch :: "batchAddRequest res"

text \<open>The handler's fields: the registry, and the engine with the index that both share.\<close>

record server =
  sv_system :: system
  sv_registry :: registry

definition NewHandler :: "system \<Rightarrow> registry \<Rightarrow> server" where
  "NewHandler s reg = \<lparr>sv_system = s, sv_registry = reg\<rparr>"

definition writeJSON :: "nat \<Rightarrow> http_body \<Rightarrow> http_response" where
  "writeJSON status v = \<lparr>hr_Status = status, hr_Body = v\<rparr>"

definition method_not_allowed :: http_response where
  "method_not_allowed = \<lparr>hr_Status = 405, hr_Body = PlainText ''method not allowed''\<rparr>"

text \<open>A handler has answered, or waits for the response to its command.\<close>

datatype handling = Answered http_response | Waits

text \<open>\<open>etext\<close> is the text of an error.\<close>

definition submit :: "(go_error \<Rightarrow> string) \<Rightarrow> (string \<Rightarrow> http_body) \<Rightarrow> Command \<Rightarrow> server \<Rightarrow> handling \<times> server" where
  "submit etext failed cmd sv =
     (case Submit cmd (s_engine (sv_system sv)) of
        (Some err, e) \<Rightarrow> (Answered (writeJSON 503 (failed (etext err))), sv\<lparr>sv_system := (sv_system sv)\<lparr>s_engine := e\<rparr>\<rparr>)
      | (None, e) \<Rightarrow> (Waits, sv\<lparr>sv_system := (sv_system sv)\<lparr>s_engine := e\<rparr>\<rparr>))"

subsection \<open>Writes\<close>

definition to_point :: "pointJSON \<Rightarrow> point" where
  "to_point p = \<lparr>Timestamp = pj_Timestamp p, Value = pj_Value p\<rparr>"

text \<open>
  The loop over the series of the request: the payloads, with the registry and the index that it fills.
  \<open>between\<close> is what other goroutines do to the registry inside \<^verbatim>\<open>GetOrCreate\<close>.
\<close>

fun write_loop :: "(registry \<Rightarrow> registry) \<Rightarrow> int \<Rightarrow> seriesWrite list \<Rightarrow> server \<Rightarrow> BatchWritePayload \<times> server" where
  "write_loop between now [] sv = ([], sv)"
| "write_loop between now (sw # sws) sv =
     (if sw_Points sw = [] then write_loop between now sws sv
      else
        (case GetOrCreate between now (sv_registry sv) (sw_Metric sw) (sw_Tags sw) of ((seriesID, _), reg) \<Rightarrow>
           let sv = sv\<lparr>sv_registry := reg,
                 sv_system := index_series seriesID (sw_Metric sw) (sw_Tags sw) (sv_system sv)\<rparr>;
               pts = map to_point (sw_Points sw) in
           (case write_loop between now sws sv of (payloads, sv) \<Rightarrow>
              (\<lparr>wp_SeriesID = seriesID, wp_Points = pts\<rparr> # payloads, sv))))"

definition batch_command :: "BatchWritePayload \<Rightarrow> Command" where
  "batch_command payloads = \<lparr>Kind = BatchWriteCmd, Payload = PBatch payloads\<rparr>"

text \<open>\<^verbatim>\<open>handleWrite\<close> up to the submission, with the number of payloads, and from the response on.\<close>

definition write_begin :: "(go_error \<Rightarrow> string) \<Rightarrow> (registry \<Rightarrow> registry) \<Rightarrow> int \<Rightarrow> http_request \<Rightarrow> server \<Rightarrow>
    (handling \<times> nat) \<times> server" where
  "write_begin etext between now rq sv =
     (if rq_Method rq \<noteq> ''POST'' then ((Answered method_not_allowed, 0), sv)
      else case rq_write rq of
        Inl err \<Rightarrow> ((Answered (writeJSON 400 (WriteResponse 0 (etext err))), 0), sv)
      | Inr req \<Rightarrow>
          if wr_Series req = [] then ((Answered (writeJSON 400 (WriteResponse 0 ''no series provided'')), 0), sv)
          else
            (case write_loop between now (wr_Series req) sv of (payloads, sv) \<Rightarrow>
               (case submit etext (WriteResponse 0) (batch_command payloads) sv of (h, sv) \<Rightarrow>
                  ((h, length payloads), sv))))"

definition write_end :: "(go_error \<Rightarrow> string) \<Rightarrow> nat \<Rightarrow> Response \<Rightarrow> http_response" where
  "write_end etext n resp =
     (case resp of
        RespErr err \<Rightarrow> writeJSON 500 (WriteResponse 0 (etext err))
      | _ \<Rightarrow> writeJSON 200 (WriteResponse n []))"

subsection \<open>Batches of points\<close>

text \<open>The points by key, in a map, and the keys in the order of their first points.\<close>

fun group_loop :: "(registry \<Rightarrow> registry) \<Rightarrow> int \<Rightarrow> batchAddPoint list \<Rightarrow> (string, WritePayload) gomap \<Rightarrow> string list \<Rightarrow> server \<Rightarrow>
    ((string, WritePayload) gomap \<times> string list) \<times> server" where
  "group_loop between now [] grouped keys sv = ((grouped, keys), sv)"
| "group_loop between now (p # ps) grouped keys sv =
     (case GetOrCreate between now (sv_registry sv) (bp_Metric p) (bp_Tags p) of ((seriesID, _), reg) \<Rightarrow>
        let sv = sv\<lparr>sv_registry := reg, sv_system := index_series seriesID (bp_Metric p) (bp_Tags p) (sv_system sv)\<rparr>;
            key = bp_Metric p @ ''|'' @ nat_str (unat seriesID);
            (wp, keys) = (case lookup grouped key of
                None \<Rightarrow> (\<lparr>wp_SeriesID = seriesID, wp_Points = []\<rparr>, keys @ [key])
              | Some wp \<Rightarrow> (wp, keys));
            wp = wp\<lparr>wp_Points := wp_Points wp @ [\<lparr>Timestamp = bp_Timestamp p, Value = bp_Value p\<rparr>]\<rparr>
        in group_loop between now ps (store grouped key wp) keys sv)"

definition grouped_payloads :: "(string, WritePayload) gomap \<Rightarrow> string list \<Rightarrow> BatchWritePayload" where
  "grouped_payloads grouped keys = map (\<lambda>k. the (lookup grouped k)) keys"

definition batch_begin :: "(go_error \<Rightarrow> string) \<Rightarrow> (registry \<Rightarrow> registry) \<Rightarrow> int \<Rightarrow> http_request \<Rightarrow> server \<Rightarrow>
    (handling \<times> nat) \<times> server" where
  "batch_begin etext between now rq sv =
     (if rq_Method rq \<noteq> ''POST'' then ((Answered method_not_allowed, 0), sv)
      else case rq_batch rq of
        Inl err \<Rightarrow> ((Answered (writeJSON 400 (WriteResponse 0 (etext err))), 0), sv)
      | Inr req \<Rightarrow>
          if ba_Points req = [] then ((Answered (writeJSON 400 (WriteResponse 0 ''no points provided'')), 0), sv)
          else
            (case group_loop between now (ba_Points req) [] [] sv of ((grouped, keys), sv) \<Rightarrow>
               (case submit etext (WriteResponse 0) (batch_command (grouped_payloads grouped keys)) sv of (h, sv) \<Rightarrow>
                  ((h, length (ba_Points req)), sv))))"

subsection \<open>Queries\<close>

definition query_payload :: "queryRequest \<Rightarrow> i64 \<Rightarrow> QueryPayload" where
  "query_payload req bucketWidth =
     \<lparr>q_Metric = qq_Metric req, q_TagFilters = qq_Tags req, q_StartTime = qq_Start req, q_EndTime = qq_End req,
      q_Aggregation = qq_Aggregation req, q_BucketWidth = bucketWidth\<rparr>"

text \<open>\<^verbatim>\<open>ParseDuration\<close> returns 0 with its error, which is dropped for an empty text.\<close>

definition query_begin :: "(go_error \<Rightarrow> string) \<Rightarrow> http_request \<Rightarrow> server \<Rightarrow> handling \<times> server" where
  "query_begin etext rq sv =
     (if rq_Method rq \<noteq> ''POST'' then (Answered method_not_allowed, sv)
      else case rq_query rq of
        Inl err \<Rightarrow> (Answered (writeJSON 400 (QueryResponse None (etext err))), sv)
      | Inr req \<Rightarrow>
          let (bucketWidth, err) = (case ParseDuration (qq_BucketWidth req) of Inl err \<Rightarrow> (0, Some err) | Inr d \<Rightarrow> (d, None)) in
          (case (if qq_BucketWidth req = [] then None else err) of
             Some err \<Rightarrow> (Answered (writeJSON 400 (QueryResponse None (''invalid bucket_width: '' @ etext err))), sv)
           | None \<Rightarrow> submit etext (QueryResponse None) \<lparr>Kind = QueryCmd, Payload = PQuery (query_payload req bucketWidth)\<rparr> sv))"

definition of_point :: "point \<Rightarrow> pointJSON" where
  "of_point p = \<lparr>pj_Timestamp = Timestamp p, pj_Value = Value p\<rparr>"

definition result_json :: "query_Result \<Rightarrow> queryResultJSON" where
  "result_json r = \<lparr>rj_SeriesID = qr_SeriesID r, rj_Buckets = qr_Buckets r, rj_Points = map of_point (qr_Points r)\<rparr>"

text \<open>From the response on: the type assertion panics on a response of another type.\<close>

definition query_end :: "(go_error \<Rightarrow> string) \<Rightarrow> Response \<Rightarrow> http_response res" where
  "query_end etext resp =
     (case resp of
        RespErr err \<Rightarrow> Inr (writeJSON 500 (QueryResponse None (etext err)))
      | RespResults results \<Rightarrow> Inr (writeJSON 200 (QueryResponse (Some (map result_json results)) []))
      | _ \<Rightarrow> Inl Panic)"

subsection \<open>The other handlers\<close>

definition handleListMetrics :: "server \<Rightarrow> http_response" where
  "handleListMetrics sv =
     (let metrics = idx_ListMetrics (e_index (s_engine (sv_system sv)));
          metrics = (if metrics = [] then reg_ListMetrics (sv_registry sv) else metrics)
      in writeJSON 200 (MetricNames metrics))"

definition handleEngineMetrics :: "server \<Rightarrow> http_response" where
  "handleEngineMetrics sv =
     (let m = e_metrics (s_engine (sv_system sv)) in
      writeJSON 200 (Counters [(''points_written'', PointsWritten m), (''writes_ok'', WritesOK m),
        (''writes_error'', WritesError m), (''flushes_total'', FlushesTotal m),
        (''compactions_total'', CompactionsTotal m), (''queries_total'', QueriesTotal m)]))"

definition handleSeries :: "http_request \<Rightarrow> server \<Rightarrow> http_response" where
  "handleSeries rq sv =
     (if rq_metric rq = [] then writeJSON 400 (StringMap [(''error'', ''metric parameter required'')])
      else writeJSON 200 (SeriesList (reg_ListSeries (sv_registry sv) (rq_metric rq))))"

definition send_page :: "page \<Rightarrow> http_response" where
  "send_page p = \<lparr>hr_Status = 200, hr_Body = Page p\<rparr>"

definition handleHealthz :: "int \<Rightarrow> server \<Rightarrow> http_response" where
  "handleHealthz now sv =
     (if \<not> Liveness (s_engine (sv_system sv)) now then writeJSON 503 (StringMap [(''status'', ''unhealthy'')])
      else writeJSON 200 (StringMap [(''status'', ''ok'')]))"

subsection \<open>Routing\<close>

datatype route = ToLanding | ToWrite | ToQuery | ToBatch | ToMetrics | ToEngineMetrics | ToSeries | ToHealthz
  | ToDocs | ToOpenAPI | NotFound

text \<open>The switch of \<^verbatim>\<open>ServeHTTP\<close>.\<close>

definition ServeHTTP :: "string \<Rightarrow> route" where
  "ServeHTTP path =
     (if path = ''/'' then ToLanding
      else if path = ''/write'' then ToWrite
      else if path = ''/query'' then ToQuery
      else if path = ''/metrics'' then ToMetrics
      else if path = ''/engine/metrics'' then ToEngineMetrics
      else if path = ''/series'' then ToSeries
      else if path = ''/healthz'' then ToHealthz
      else if path = ''/docs'' then ToDocs
      else if path = ''/openapi.json'' then ToOpenAPI
      else NotFound)"

text \<open>
  The patterns of \<^verbatim>\<open>NewServer\<close>.  In a \<^verbatim>\<open>ServeMux\<close> a pattern that ends with a slash takes every path
  below it, and the longest pattern that takes a path has it (paths are taken to be clean, others are
  redirected).
\<close>

definition server_mux :: "(string, route) gomap" where
  "server_mux =
     [(''/batch'', ToBatch), (''/write'', ToWrite), (''/query'', ToQuery), (''/metrics'', ToMetrics),
      (''/engine/metrics'', ToEngineMetrics), (''/series'', ToSeries), (''/healthz'', ToHealthz),
      (''/docs'', ToDocs), (''/openapi.json'', ToOpenAPI), (''/'', ToLanding)]"

definition pattern_takes :: "string \<Rightarrow> string \<Rightarrow> bool" where
  "pattern_takes pat path \<longleftrightarrow> pat = path \<or> (pat \<noteq> [] \<and> last pat = CHR ''/'' \<and> take (length pat) path = pat)"

fun mux_match :: "(string, route) gomap \<Rightarrow> string \<Rightarrow> (string \<times> route) option" where
  "mux_match [] path = None"
| "mux_match ((pat, r) # pats) path =
     (let rest = mux_match pats path in
      if pattern_takes pat path then
        (case rest of Some (pat', r') \<Rightarrow> if length pat' > length pat then Some (pat', r') else Some (pat, r) | None \<Rightarrow> Some (pat, r))
      else rest)"

definition NewServer :: "string \<Rightarrow> route" where
  "NewServer path = (case mux_match server_mux path of Some (_, r) \<Rightarrow> r | None \<Rightarrow> NotFound)"

text \<open>What a handler waits with: how it goes on when the response is there.\<close>

datatype waiting = WriteWaits nat | QueryWaits

text \<open>A request that a route has got: answered, or waiting for the engine.\<close>

definition start_request :: "(go_error \<Rightarrow> string) \<Rightarrow> (registry \<Rightarrow> registry) \<Rightarrow> int \<Rightarrow> route \<Rightarrow> http_request \<Rightarrow> server \<Rightarrow>
    (http_response + waiting) \<times> server" where
  "start_request etext between now route rq sv =
     (case route of
        ToLanding \<Rightarrow> (Inl (send_page LandingPage), sv)
      | ToWrite \<Rightarrow> (case write_begin etext between now rq sv of
          ((Answered r, n), sv) \<Rightarrow> (Inl r, sv) | ((Waits, n), sv) \<Rightarrow> (Inr (WriteWaits n), sv))
      | ToQuery \<Rightarrow> (case query_begin etext rq sv of
          (Answered r, sv) \<Rightarrow> (Inl r, sv) | (Waits, sv) \<Rightarrow> (Inr QueryWaits, sv))
      | ToBatch \<Rightarrow> (case batch_begin etext between now rq sv of
          ((Answered r, n), sv) \<Rightarrow> (Inl r, sv) | ((Waits, n), sv) \<Rightarrow> (Inr (WriteWaits n), sv))
      | ToMetrics \<Rightarrow> (Inl (handleListMetrics sv), sv)
      | ToEngineMetrics \<Rightarrow> (Inl (handleEngineMetrics sv), sv)
      | ToSeries \<Rightarrow> (Inl (handleSeries rq sv), sv)
      | ToHealthz \<Rightarrow> (Inl (handleHealthz now sv), sv)
      | ToDocs \<Rightarrow> (Inl (send_page DocsPage), sv)
      | ToOpenAPI \<Rightarrow> (Inl (send_page OpenAPIPage), sv)
      | NotFound \<Rightarrow> (Inl \<lparr>hr_Status = 404, hr_Body = PlainText ''not found''\<rparr>, sv))"

definition finish_request :: "(go_error \<Rightarrow> string) \<Rightarrow> waiting \<Rightarrow> Response \<Rightarrow> http_response res" where
  "finish_request etext w resp =
     (case w of WriteWaits n \<Rightarrow> Inr (write_end etext n resp) | QueryWaits \<Rightarrow> query_end etext resp)"

text \<open>
  One request against an engine whose loop takes its next command at \<open>now\<close>: the outcome with the
  response, \<open>None\<close> if there is none to take.  A panic of the engine ends the process; one of the handler
  is recovered by \<^verbatim>\<open>net/http\<close>, which drops the connection (no response).
\<close>

definition serve :: "(go_error \<Rightarrow> string) \<Rightarrow> runtime \<Rightarrow> (registry \<Rightarrow> registry) \<Rightarrow> int \<Rightarrow> http_request \<Rightarrow> server \<Rightarrow>
    (http_response option \<times> server) outcome option" where
  "serve etext rt between now rq sv =
     (case start_request etext between now (NewServer (rq_Path rq)) rq sv of
        (Inl r, sv) \<Rightarrow> Some (Completes (Some r, sv))
      | (Inr w, sv) \<Rightarrow>
          (case exec rt (TakeCommand now) (sv_system sv) of
             None \<Rightarrow> None
           | Some (Panics err) \<Rightarrow> Some (Panics err)
           | Some Blocks \<Rightarrow> Some Blocks
           | Some (Completes s) \<Rightarrow>
               (case finish_request etext w (last (s_answers s)) of
                  Inl _ \<Rightarrow> Some (Completes (None, sv\<lparr>sv_system := s\<rparr>))
                | Inr r \<Rightarrow> Some (Completes (Some r, sv\<lparr>sv_system := s\<rparr>)))))"

end
