(* ===== verification/Http_Props.thy ===== *)
theory Http_Props
  imports Http
begin

text \<open>
  What the HTTP handlers do to the engine: the commands they submit have the types that the engine
  asserts, a batch is grouped without losing a point, and what a request has posted is what the next
  query returns.
\<close>

subsection \<open>Registry and index\<close>

text \<open>Other goroutines only add to the registry.\<close>

definition registry_env :: "(registry \<Rightarrow> registry) \<Rightarrow> bool" where
  "registry_env between \<longleftrightarrow> (\<forall>r. registry_wf r \<longrightarrow> registry_wf (between r) \<and> reg_extends r (between r))"

lemma GetOrCreate_key: "GetOrCreate between now r metric tags = ((sid, ex), r') \<Longrightarrow> sid = SeriesKey metric tags"
  by (auto simp: GetOrCreate_def Let_def split: if_splits)

text \<open>The inserts of a request, one after the other.\<close>

abbreviation index_all :: "(u64 \<times> string \<times> tags) list \<Rightarrow> system \<Rightarrow> system" where
  "index_all ins s \<equiv> foldl (\<lambda>s (sid, metric, tags). index_series sid metric tags s) s ins"

lemma index_all_only: "\<exists>idx. index_all ins s = s\<lparr>s_engine := (s_engine s)\<lparr>e_index := idx\<rparr>\<rparr>"
proof (induction ins arbitrary: s)
  case Nil
  show ?case by (rule exI [of _ "e_index (s_engine s)"]) simp
next
  case (Cons x ins)
  obtain sid m tags where x: "x = (sid, m, tags)" by (metis prod.collapse)
  from Cons.IH [of "index_series sid m tags s"] show ?case by (auto simp: x index_series_def SetIndex_def)
qed

lemma index_all_queue: "e_cmdCh (s_engine (index_all ins s)) = e_cmdCh (s_engine s)"
proof -
  obtain idx where "index_all ins s = s\<lparr>s_engine := (s_engine s)\<lparr>e_index := idx\<rparr>\<rparr>" using index_all_only by blast
  then show ?thesis by simp
qed

lemma index_all_index:
  "e_index (s_engine s) = index_of old \<Longrightarrow> e_index (s_engine (index_all ins s)) = index_of (old @ ins)"
proof (induction ins arbitrary: s old)
  case (Cons x ins)
  obtain sid m tags where x: "x = (sid, m, tags)" by (metis prod.collapse)
  have "e_index (s_engine (index_series sid m tags s)) = index_of (old @ [x])"
    by (simp add: x Cons.prems index_of_snoc index_series_def SetIndex_def)
  from Cons.IH [OF this] show ?case by (simp add: x)
qed simp

lemma index_all_clean: "clean_run rt s0 ws s \<Longrightarrow> clean_run rt s0 ws (index_all ins s)"
proof (induction ins arbitrary: s)
  case (Cons x ins)
  obtain sid m tags where x: "x = (sid, m, tags)" by (metis prod.collapse)
  have "exec rt (IndexInsert sid m tags) s = Some (Completes (index_series sid m tags s))" by (simp add: exec_def from_loop_def)
  from clean_step [OF Cons.prems this] have "clean_run rt s0 ws (index_series sid m tags s)"
    by (simp add: clean_def accepted_by_def Let_def)
  from Cons.IH [OF this] show ?case by (simp add: x)
qed simp

text \<open>The entries of the index and the payloads that a write request asks for.\<close>

definition series_entry :: "seriesWrite \<Rightarrow> u64 \<times> string \<times> tags" where
  "series_entry sw = (SeriesKey (sw_Metric sw) (sw_Tags sw), sw_Metric sw, sw_Tags sw)"

definition series_payload :: "seriesWrite \<Rightarrow> WritePayload" where
  "series_payload sw = \<lparr>wp_SeriesID = SeriesKey (sw_Metric sw) (sw_Tags sw), wp_Points = map to_point (sw_Points sw)\<rparr>"

abbreviation with_points :: "seriesWrite list \<Rightarrow> seriesWrite list" where
  "with_points \<equiv> filter (\<lambda>sw. sw_Points sw \<noteq> [])"

lemma write_loop_spec:
  "write_loop between now sws sv = (payloads, sv') \<Longrightarrow>
    payloads = map series_payload (with_points sws) \<and>
    sv_system sv' = index_all (map series_entry (with_points sws)) (sv_system sv)"
proof (induction between now sws sv arbitrary: payloads sv' rule: write_loop.induct)
  case (2 between now sw sws sv)
  show ?case
  proof (cases "sw_Points sw = []")
    case True
    then show ?thesis using 2 by simp
  next
    case False
    obtain sid ex reg where g: "GetOrCreate between now (sv_registry sv) (sw_Metric sw) (sw_Tags sw) = ((sid, ex), reg)" by (metis prod.collapse)
    let ?sv = "sv\<lparr>sv_registry := reg, sv_system := index_series sid (sw_Metric sw) (sw_Tags sw) (sv_system sv)\<rparr>"
    obtain ps sv1 where l: "write_loop between now sws ?sv = (ps, sv1)" by (metis prod.collapse)
    then have "payloads = \<lparr>wp_SeriesID = sid, wp_Points = map to_point (sw_Points sw)\<rparr> # ps" "sv' = sv1"
      using 2(3) False g by (simp_all add: Let_def)
    then show ?thesis
      using 2(2) [OF False g [symmetric] refl refl refl l] GetOrCreate_key [OF g] False by (simp add: series_payload_def series_entry_def)
  qed
qed simp

subsection \<open>The index along a run\<close>

lemma batch_loop_index: "batch_loop rt n ps e = Inr (r, e') \<Longrightarrow> e_index e' = e_index e"
proof (induction rt n ps e rule: batch_loop.induct)
  case (2 rt n p ps e)
  then show ?case
    by (auto simp: res_bind_eq_Inr write_failed_def split: prod.splits option.splits)
qed (auto simp add: write_done_def)

lemma handleWrite_index: "handleWrite rt pl e = Inr (r, e') \<Longrightarrow> e_index e' = e_index e"
  by (cases pl) (auto simp: handleWrite_batch simp del: batch_loop.simps dest: batch_loop_index, simp_all add: handleWrite_def)

lemma handleRetention_index: "handleRetention pl e st = Inr (r, e', st') \<Longrightarrow> e_index e' = e_index e"
  by (auto simp: handleRetention_def Let_def split: payload.splits if_splits prod.splits option.splits)

lemma answer_eq: "answer s res = Completes s' \<longleftrightarrow> (\<exists>r e. res = Inr (r, e) \<and> s' = reply r (s\<lparr>s_engine := e\<rparr>))"
  by (auto simp: answer_def split: sum.splits)

lemma dispatch_index: "dispatch rt cmd s = Completes s' \<Longrightarrow> e_index (s_engine s') = e_index (s_engine s)"
  unfolding dispatch_def Let_def
  by (auto simp: answer_eq reply_def handleBatchWrite_def query_counted_def
      dest!: batch_loop_index handleWrite_index handleQuery_keeps handleRetention_index
      split: CmdKind.splits payload.splits prod.splits option.splits sum.splits if_splits)

lemma exec_index:
  assumes "exec rt ev s = Some (Completes s')"
  shows "e_index (s_engine s') = (case ev of IndexInsert sid m tags \<Rightarrow> idx_Insert (e_index (s_engine s)) sid m tags
    | _ \<Rightarrow> e_index (s_engine s))"
proof (cases ev)
  case (TakeCommand now)
  then show ?thesis using assms by (auto simp: exec_def run_command_def active_at_def dest!: dispatch_index split: if_splits list.splits)
next
  case (Tick now)
  then show ?thesis
    using assms by (auto simp: exec_def run_tick_def maybeRotateMemtable_def active_at_def Let_def split: if_splits)
next
  case (FlushDone now)
  then show ?thesis
    using assms applyFlushResult_keeps(9)
    by (auto simp: exec_def run_flush_done_def active_at_def split: if_splits list.splits prod.splits)
next
  case (CompactionDone now)
  then show ?thesis
    using assms applyCompactionResult_keeps(9)
    by (auto simp: exec_def run_compaction_done_def active_at_def split: if_splits list.splits prod.splits)
next
  case (FlushJob i)
  then show ?thesis
    using assms by (auto simp: exec_def run_flush_job_def Let_def split: if_splits prod.splits sum.splits)
next
  case (CompactJob i)
  then show ?thesis using assms by (auto simp: exec_def run_compact_job_def split: if_splits prod.splits sum.splits)
qed (use assms in \<open>auto simp: exec_def from_loop_def Submit_def run_shutdown_def engine_shutdown_def run_fsync_def
      set_device_def index_series_def SetIndex_def split: if_splits\<close>)

lemma clean_run_index:
  assumes "clean_run rt s0 ws s" and "e_index (s_engine s0) = index_of old"
  shows "\<exists>ins. e_index (s_engine s) = index_of ins"
  using assms(1)
proof (induction rule: clean_run.induct)
  case clean_Nil
  then show ?case using assms(2) by blast
next
  case (clean_step ws s ev s')
  then obtain ins where "e_index (s_engine s) = index_of ins" by blast
  then show ?case
    using exec_index [OF clean_step.hyps(2)] index_of_snoc [of ins, symmetric]
    by (cases ev) auto
qed

text \<open>A metric under which a series was inserted is listed.\<close>

lemma index_of_lists:
  assumes "(sid, m, tags) \<in> set ins"
  shows "m \<in> set (idx_ListMetrics (index_of ins))"
proof -
  have "sid \<in> metric_ids (index_of ins) m" using index_of_view [of ins m] assms by auto
  then have "lookup (MetricSeries (index_of ins)) m \<noteq> None"
    by (cases "lookup (MetricSeries (index_of ins)) m") (auto simp: metric_ids_def)
  then show ?thesis by (simp add: idx_ListMetrics_def lookup_None_iff)
qed

text \<open>A series that was inserted with every tag asked for is found.\<close>

lemma index_of_finds:
  assumes "(sid, m, tags) \<in> set ins" and "set filters \<subseteq> set tags"
  shows "sid \<in> set (idx_Resolve (index_of ins) m filters)"
proof -
  have fin: "finite {sid. \<exists>tags. (sid, m, tags) \<in> set ins}"
    by (rule finite_subset [of _ "fst ` set ins"]) force+
  have "idx_Resolve (index_of ins) m filters = sorted_list_of_set
    {sid \<in> metric_ids (index_of ins) m. \<forall>(k, v)\<in>set filters. sid \<in> tag_ids (TagIndex (index_of ins)) m (tagKey k v)}"
    using index_of_view [of ins] by (intro idx_Resolve_view) auto
  then show ?thesis
    using index_of_view [of ins m] assms fin by (force simp: subset_iff)
qed

subsection \<open>A request that writes\<close>

lemma NewServer_paths [simp]:
  "NewServer ''/write'' = ToWrite" "NewServer ''/query'' = ToQuery" "NewServer ''/batch'' = ToBatch"
  by code_simp+

lemma submit_idle:
  assumes "e_cmdCh (s_engine (sv_system sv)) = []"
  shows "submit etext failed cmd sv =
    (Waits, sv\<lparr>sv_system := (sv_system sv)\<lparr>s_engine := (s_engine (sv_system sv))\<lparr>e_cmdCh := [cmd]\<rparr>\<rparr>\<rparr>)"
  using assms by (simp add: submit_def Submit_def cmdCh_cap_def)

text \<open>A write that is answered by 200 leaves the engine as a clean run with the payloads accepted does.\<close>

lemma take_batch:
  assumes "runtime_ok rt" and "clean_run rt s0 ws s" and "stored recs k j s" and "e_cmdCh (s_engine s) = []"
    and "\<forall>p\<in>set ps. write_ok p"
    and "exec rt (TakeCommand now) (s\<lparr>s_engine := (s_engine s)\<lparr>e_cmdCh := [batch_command ps]\<rparr>\<rparr>) = Some (Completes s')"
    and "\<forall>err. last (s_answers s') \<noteq> RespErr err"
  shows "clean_run rt s0 (ws @ ps) s' \<and> e_cmdCh (s_engine s') = [] \<and> s_running s'"
proof -
  let ?s1 = "s\<lparr>s_engine := (s_engine s)\<lparr>e_cmdCh := [batch_command ps]\<rparr>\<rparr>"
  let ?e = "active_at now (s_engine s)\<lparr>e_cmdCh := []\<rparr>"
  have "exec rt (Client (batch_command ps)) s = Some (Completes ?s1)"
    using assms(4) by (simp add: exec_def from_loop_def Submit_def cmdCh_cap_def)
  moreover have "clean rt (Client (batch_command ps)) s"
    using assms(5) by (simp add: clean_def calm_command_def batch_command_def Let_def)
  ultimately have r1: "clean_run rt s0 ws ?s1" using clean_step [OF assms(2)] by (fastforce simp: accepted_by_def)
  have live: "memtable_live (e_active ?e)" using storedD(2) [OF assms(3)] by (simp add: mem_inv_def active_at_def)
  obtain acc er w where lw: "log_writes (e_wal ?e) ps = (acc, er, w)" by (metis prod_cases3)
  from batch_loop_spec [OF assms(1) live lw, of 0] obtain e' where b: "batch_loop rt 0 ps ?e = Inr (write_answer er, e')" "e_cmdCh e' = []"
    by auto
  then have s': "s' = reply (write_answer er) (?s1\<lparr>s_engine := e'\<rparr>)" and run: "s_running s'"
    using assms(6) by (auto simp: exec_def from_loop_def run_command_def dispatch_def Let_def batch_command_def handleBatchWrite_def
        answer_def reply_def active_at_def split: if_splits)
  then have "er = None" using assms(7) by (auto simp: reply_def write_answer_def split: option.splits)
  moreover have "e_wal ?e = e_wal (s_engine s)" by (simp add: active_at_def)
  ultimately have "fst (snd (log_writes (e_wal (s_engine s)) ps)) = None" "acc = ps"
    using lw log_writes_ok [of "e_wal (s_engine s)" ps acc w] storedD(1) [OF assms(3)] by (auto simp: log_inv_def)
  then have "clean rt (TakeCommand now) ?s1" "accepted_by (TakeCommand now) ?s1 = ps"
    using lw by (simp_all add: clean_def Let_def logged_ok_def batch_command_def accepted_by_def active_at_def)
  then show ?thesis using clean_step [OF r1 assms(6)] b(2) run by (simp add: s' reply_def)
qed

lemma serve_write:
  assumes "runtime_ok rt" and "clean_run rt s0 ws (sv_system sv)" and "stored ws k j (sv_system sv)"
    and "e_cmdCh (s_engine (sv_system sv)) = []" and "rq_Path rq = ''/write''" and "rq_write rq = Inr req"
    and "\<forall>sw\<in>set (wr_Series req). write_ok (series_payload sw)"
    and "serve etext rt between now rq sv = Some (Completes (Some resp, sv'))" and "hr_Status resp = 200"
  shows "clean_run rt s0 (ws @ map series_payload (with_points (wr_Series req))) (sv_system sv') \<and>
    e_cmdCh (s_engine (sv_system sv')) = [] \<and> s_running (sv_system sv') \<and>
    e_index (s_engine (sv_system sv')) = e_index (s_engine (index_all (map series_entry (with_points (wr_Series req))) (sv_system sv)))"
proof -
  let ?ps = "map series_payload (with_points (wr_Series req))" and ?ins = "map series_entry (with_points (wr_Series req))"
  obtain sv1 where l: "write_loop between now (wr_Series req) sv = (?ps, sv1)" "sv_system sv1 = index_all ?ins (sv_system sv)"
  proof -
    obtain ps sv1 where "write_loop between now (wr_Series req) sv = (ps, sv1)" by (metis prod.collapse)
    with write_loop_spec [OF this] that show thesis by simp
  qed
  obtain idx where idx: "sv_system sv1 = (sv_system sv)\<lparr>s_engine := (s_engine (sv_system sv))\<lparr>e_index := idx\<rparr>\<rparr>"
    using index_all_only [of "sv_system sv" ?ins] l(2) by auto
  then have idle: "e_cmdCh (s_engine (sv_system sv1)) = []" using assms(4) by simp
  let ?s1 = "(sv_system sv1)\<lparr>s_engine := (s_engine (sv_system sv1))\<lparr>e_cmdCh := [batch_command ?ps]\<rparr>\<rparr>"
  have cr: "clean_run rt s0 ws (sv_system sv1)" using index_all_clean [OF assms(2), of ?ins] l(2) by simp
  have st: "stored ws k j (sv_system sv1)" by (rule stored_same [OF assms(3)]) (use assms(4) in \<open>simp_all add: idx\<close>)
  have start: "write_begin etext between now rq sv =
      (if rq_Method rq \<noteq> ''POST'' then ((Answered method_not_allowed, 0), sv)
       else if wr_Series req = [] then ((Answered (writeJSON 400 (WriteResponse 0 ''no series provided'')), 0), sv)
       else ((Waits, length ?ps), sv1\<lparr>sv_system := ?s1\<rparr>))"
    using l(1) submit_idle [OF idle] by (simp add: write_begin_def assms(6))
  obtain s2 where ex: "exec rt (TakeCommand now) ?s1 = Some (Completes s2)" and sv': "sv_system sv' = s2"
    and resp: "resp = write_end etext (length ?ps) (last (s_answers s2))"
    using assms(8,9)
    by (auto simp: serve_def start_request_def assms(5) start finish_request_def method_not_allowed_def writeJSON_def
        split: if_splits option.splits outcome.splits)
  have "\<forall>err. last (s_answers s2) \<noteq> RespErr err" using assms(9) by (auto simp: resp write_end_def writeJSON_def)
  moreover have "\<forall>p\<in>set ?ps. write_ok p" using assms(7) by auto
  ultimately show ?thesis
    using take_batch [OF assms(1) cr st idle _ ex] exec_index [OF ex] l(2) by (simp add: sv')
qed

text \<open>A query that finds the engine idle is answered with what \<open>handleQuery\<close> returns.\<close>

lemma ParseDuration_empty [simp]: "ParseDuration [] = Inl ErrFormat"
  by (simp add: ParseDuration_def strip_sign_def Let_def)

lemma serve_query:
  assumes "e_cmdCh (s_engine (sv_system sv)) = []" and "s_running (sv_system sv)" and "rq_Path rq = ''/query''"
    and "rq_Method rq = ''POST''" and "rq_query rq = Inr req" and "qq_BucketWidth req = []"
    and "handleQuery (PQuery (query_payload req 0)) (active_at now (s_engine (sv_system sv))) (s_os (sv_system sv)) = Inr (RespResults results, e')"
  shows "\<exists>sv'. serve etext rt between now rq sv =
    Some (Completes (Some \<lparr>hr_Status = 200, hr_Body = QueryResponse (Some (map result_json results)) []\<rparr>, sv'))"
proof -
  let ?s = "sv_system sv" and ?cmd = "\<lparr>Kind = QueryCmd, Payload = PQuery (query_payload req 0)\<rparr>"
  let ?s1 = "?s\<lparr>s_engine := (s_engine ?s)\<lparr>e_cmdCh := [?cmd]\<rparr>\<rparr>"
  have start: "query_begin etext rq sv = (Waits, sv\<lparr>sv_system := ?s1\<rparr>)"
    using assms(4-6) submit_idle [OF assms(1)] by (simp add: query_begin_def)
  have "active_at now (s_engine ?s1)\<lparr>e_cmdCh := []\<rparr> = active_at now (s_engine ?s)"
    using assms(1) by (simp add: active_at_def)
  then have "exec rt (TakeCommand now) ?s1 = Some (Completes (reply (RespResults results) (?s1\<lparr>s_engine := e'\<rparr>)))"
    using assms(2,7) by (simp add: exec_def run_command_def dispatch_def answer_def)
  then show ?thesis
    by (simp add: serve_def start_request_def assms(3) start finish_request_def query_end_def writeJSON_def reply_def)
qed

lemma writes_for_with_points: "writes_for sid (map series_payload (with_points sws)) = writes_for sid (map series_payload sws)"
  by (induction sws) (simp_all add: series_payload_def)

lemma to_of_point [simp]: "to_point (of_point p) = p"
  by (simp add: to_point_def of_point_def)

lemma result_json_simps [simp]:
  "rj_SeriesID (result_json r) = qr_SeriesID r" "map to_point (rj_Points (result_json r)) = qr_Points r"
  "map (sint \<circ> pj_Timestamp) (rj_Points (result_json r)) = map ts (qr_Points r)"
  by (simp_all add: result_json_def comp_def ts_def) (simp add: of_point_def)

lemma read_your_write:
  assumes "runtime_ok rt" and "fresh_start f st cfg" and "engine_New (Inr f) st t0 cfg = Inr e"
    and "clean_run rt (started (SetIndex idx_New e) st) ws (sv_system sv)" and "e_cmdCh (s_engine (sv_system sv)) = []"
    and "rq_Path post = ''/write''" and "rq_write post = Inr req" and "\<forall>sw\<in>set (wr_Series req). write_ok (series_payload sw)"
    and "serve etext rt between now post sv = Some (Completes (Some resp, sv'))" and "hr_Status resp = 200"
    and "sw \<in> set (wr_Series req)" and "sw_Points sw \<noteq> []"
    and "rq_Path get = ''/query''" and "rq_Method get = ''POST''" and "rq_query get = Inr q" and "qq_BucketWidth q = []"
    and "qq_Metric q = sw_Metric sw" and "set (qq_Tags q) \<subseteq> set (sw_Tags sw)" and "UnixMilli (qq_End q) \<noteq> MaxInt64"
  shows "\<exists>results sv''. serve etext rt between' now' get sv' =
      Some (Completes (Some \<lparr>hr_Status = 200, hr_Body = QueryResponse (Some results) []\<rparr>, sv'')) \<and>
    SeriesKey (sw_Metric sw) (sw_Tags sw) \<in> rj_SeriesID ` set results \<and>
    (\<forall>r\<in>set results. sorted (map (sint \<circ> pj_Timestamp) (rj_Points r)) \<and> mset (map to_point (rj_Points r)) =
       filter_mset (\<lambda>p. sint (UnixMilli (qq_Start q)) \<le> ts p \<and> ts p \<le> sint (UnixMilli (qq_End q)))
         (mset (writes_for (rj_SeriesID r) (ws @ map series_payload (wr_Series req)))))"
proof -
  let ?ps = "map series_payload (with_points (wr_Series req))" and ?ins = "map series_entry (with_points (wr_Series req))"
  note fresh = fresh_stored [OF assms(2,3), of idx_New]
  obtain k j where "stored ws k j (sv_system sv)" using stored_run [OF assms(4,1) fresh] by auto
  note W = serve_write [OF assms(1,4) this assms(5-10)]
  obtain k j where st: "stored (ws @ ?ps) k j (sv_system sv')" using stored_run [OF conjunct1 [OF W] assms(1) fresh] by auto
  obtain old where "e_index (s_engine (sv_system sv)) = index_of old"
    using clean_run_index [OF assms(4), of "[]"] by (auto simp: started_def SetIndex_def index_of_def)
  then have idx: "e_index (s_engine (sv_system sv')) = index_of (old @ ?ins)"
    by (simp only: W index_all_index)
  have "series_entry sw \<in> set ?ins" using assms(11,12) by simp
  then have found: "SeriesKey (sw_Metric sw) (sw_Tags sw) \<in> set (idx_Resolve (index_of (old @ ?ins)) (qq_Metric q) (qq_Tags q))"
    using index_of_finds [of _ "sw_Metric sw" "sw_Tags sw" "old @ ?ins" "qq_Tags q"] assms(17,18) by (simp add: series_entry_def)
  let ?s = "(sv_system sv')\<lparr>s_engine := active_at now' (s_engine (sv_system sv'))\<rparr>" and ?q = "query_payload q 0"
  have S: "stored (ws @ ?ps) k j ?s" by (rule stored_same [OF st]) (use W in \<open>simp_all add: active_at_def\<close>)
  have Q: "sint (Milliseconds (q_BucketWidth ?q)) \<le> 0" "UnixMilli (q_EndTime ?q) \<noteq> MaxInt64"
    using assms(19) by (simp_all add: query_payload_def Milliseconds_def go_div_def)
  from stored_query_exact [OF S Q] obtain results e' where
    R: "handleQuery (PQuery ?q) (s_engine ?s) (s_os ?s) = Inr (RespResults results, e')"
    and ids: "map qr_SeriesID results = idx_Resolve (e_index (s_engine ?s)) (q_Metric ?q) (q_TagFilters ?q)"
    and pts: "\<forall>r\<in>set results. qr_Buckets r = [] \<and> sorted (map ts (qr_Points r)) \<and>
       mset (qr_Points r) = filter_mset (\<lambda>p. sint (UnixMilli (q_StartTime ?q)) \<le> ts p \<and> ts p \<le> sint (UnixMilli (q_EndTime ?q)))
         (mset (writes_for (qr_SeriesID r) (ws @ ?ps)))"
    by (elim exE conjE) (rule that)
  have "qr_SeriesID ` set results = set (idx_Resolve (index_of (old @ ?ins)) (qq_Metric q) (qq_Tags q))"
    using arg_cong [OF ids, of set] idx by (simp add: active_at_def query_payload_def)
  with found have "SeriesKey (sw_Metric sw) (sw_Tags sw) \<in> rj_SeriesID ` set (map result_json results)"
    by (simp add: image_image result_json_def)
  moreover have "\<exists>sv''. serve etext rt between' now' get sv' =
      Some (Completes (Some \<lparr>hr_Status = 200, hr_Body = QueryResponse (Some (map result_json results)) []\<rparr>, sv''))"
    using W R by (intro serve_query [OF _ _ assms(13-16)]) auto
  moreover have "\<forall>r\<in>set (map result_json results). sorted (map (sint \<circ> pj_Timestamp) (rj_Points r)) \<and> mset (map to_point (rj_Points r)) =
       filter_mset (\<lambda>p. sint (UnixMilli (qq_Start q)) \<le> ts p \<and> ts p \<le> sint (UnixMilli (qq_End q)))
         (mset (writes_for (rj_SeriesID r) (ws @ map series_payload (wr_Series req))))"
    using pts by (simp only: set_map ball_simps result_json_simps points_for_simps map_append writes_for_with_points)
      (simp add: query_payload_def)
  ultimately show ?thesis by blast
qed

text \<open>
  C4: what was posted is what the next raw query returns, over HTTP.  Take an engine after any clean run from a
  fresh database, its queue idle, and a \<^verbatim>\<open>POST /write\<close> each of whose series has fewer than \<open>2 ^ 28 - 1\<close> points, with instants between
  \<open>- (2 ^ 54)\<close> and \<open>2 ^ 54\<close> (\<open>write_ok\<close>).  If it is answered by 200, then \<^verbatim>\<open>POST /query\<close> without a \<^verbatim>\<open>bucket_width\<close> for the metric of
  a series that was posted with points, with any of its tags and an end other than the largest instant, is answered by 200 as well, that series is
  among the results, and each result holds, in order of time, exactly the points of the range that were
  accepted before for its identifier or posted now for a series with that identifier.  (With a \<^verbatim>\<open>bucket_width\<close> the answer has buckets
  and no points, or is 400; with instants further apart the answer need not come, as C22 shows of the engine.)
\<close>

theorem http_read_your_write:
  assumes "runtime_ok rt" and "fresh_start f st cfg" and "engine_New (Inr f) st t0 cfg = Inr e"
    and "clean_run rt (started (SetIndex idx_New e) st) ws (sv_system sv)" and "e_cmdCh (s_engine (sv_system sv)) = []"
    and "rq_Path post = ''/write''" and "rq_write post = Inr req" and "\<forall>sw\<in>set (wr_Series req). write_ok (series_payload sw)"
    and "serve etext rt between now post sv = Some (Completes (Some resp, sv'))" and "hr_Status resp = 200"
    and "sw \<in> set (wr_Series req)" and "sw_Points sw \<noteq> []"
    and "rq_Path get = ''/query''" and "rq_Method get = ''POST''" and "rq_query get = Inr q" and "qq_BucketWidth q = []"
    and "qq_Metric q = sw_Metric sw" and "set (qq_Tags q) \<subseteq> set (sw_Tags sw)" and "UnixMilli (qq_End q) \<noteq> MaxInt64"
  shows "\<exists>results sv''. serve etext rt between' now' get sv' =
      Some (Completes (Some \<lparr>hr_Status = 200, hr_Body = QueryResponse (Some results) []\<rparr>, sv'')) \<and>
    SeriesKey (sw_Metric sw) (sw_Tags sw) \<in> rj_SeriesID ` set results \<and>
    (\<forall>r\<in>set results. sorted (map (sint \<circ> pj_Timestamp) (rj_Points r)) \<and> mset (map to_point (rj_Points r)) =
       filter_mset (\<lambda>p. sint (UnixMilli (qq_Start q)) \<le> ts p \<and> ts p \<le> sint (UnixMilli (qq_End q)))
         (mset (writes_for (rj_SeriesID r) (ws @ map series_payload (wr_Series req)))))"
  by (rule read_your_write [OF assms])

text \<open>Conversely, a write whose records the log takes is answered by 200.\<close>

lemma serve_write_answered:
  assumes "runtime_ok rt" and "memtable_live (e_active (s_engine (sv_system sv)))" and "e_cmdCh (s_engine (sv_system sv)) = []"
    and "s_running (sv_system sv)" and "rq_Path rq = ''/write''" and "rq_Method rq = ''POST''" and "rq_write rq = Inr req"
    and "wr_Series req \<noteq> []"
    and "fst (snd (log_writes (e_wal (s_engine (sv_system sv))) (map series_payload (with_points (wr_Series req))))) = None"
  shows "\<exists>sv'. serve etext rt between now rq sv = Some (Completes (Some \<lparr>hr_Status = 200,
    hr_Body = WriteResponse (length (with_points (wr_Series req))) []\<rparr>, sv'))"
proof -
  let ?ps = "map series_payload (with_points (wr_Series req))"
  obtain sv1 idx where l: "write_loop between now (wr_Series req) sv = (?ps, sv1)"
    and idx: "sv_system sv1 = (sv_system sv)\<lparr>s_engine := (s_engine (sv_system sv))\<lparr>e_index := idx\<rparr>\<rparr>"
  proof -
    obtain ps sv1 where w: "write_loop between now (wr_Series req) sv = (ps, sv1)" by (metis prod.collapse)
    show thesis
      using write_loop_spec [OF w] w that
        index_all_only [of "sv_system sv" "map series_entry (with_points (wr_Series req))"] by auto
  qed
  have idle: "e_cmdCh (s_engine (sv_system sv1)) = []" using assms(3) idx by simp
  let ?s1 = "(sv_system sv1)\<lparr>s_engine := (s_engine (sv_system sv1))\<lparr>e_cmdCh := [batch_command ?ps]\<rparr>\<rparr>"
  let ?e = "active_at now (s_engine (sv_system sv1))\<lparr>e_cmdCh := []\<rparr>"
  have live: "memtable_live (e_active ?e)" using assms(2) by (simp add: idx active_at_def)
  have "e_wal ?e = e_wal (s_engine (sv_system sv))" by (simp add: idx active_at_def)
  then obtain acc w where lw: "log_writes (e_wal ?e) ?ps = (acc, None, w)" using assms(9) by (metis prod.collapse)
  from batch_loop_spec [OF assms(1) live lw, of 0] obtain e' where b: "batch_loop rt 0 ?ps ?e = Inr (RespNone, e')"
    by (auto simp: write_answer_def)
  have start: "write_begin etext between now rq sv = ((Waits, length ?ps), sv1\<lparr>sv_system := ?s1\<rparr>)"
    using l submit_idle [OF idle] assms(6-8) by (simp add: write_begin_def)
  have "active_at now (s_engine ?s1)\<lparr>e_cmdCh := []\<rparr> = ?e" by (simp add: active_at_def)
  then have "exec rt (TakeCommand now) ?s1 = Some (Completes (reply RespNone (?s1\<lparr>s_engine := e'\<rparr>)))"
    using assms(4) b
    by (simp add: exec_def run_command_def batch_command_def dispatch_def Let_def handleBatchWrite_def answer_def idx)
  then show ?thesis
    by (simp add: serve_def start_request_def assms(5) start finish_request_def write_end_def writeJSON_def reply_def)
qed

definition ex_http :: http_request where
  "ex_http = \<lparr>rq_Method = ''POST'', rq_Path = ''/write'', rq_metric = [],
     rq_write = Inr \<lparr>wr_Series = [\<lparr>sw_Metric = ''m'', sw_Tags = [(''h'', ''a'')], sw_Points = [\<lparr>pj_Timestamp = 5, pj_Value = 0\<rparr>]\<rparr>]\<rparr>,
     rq_query = Inr \<lparr>qq_Metric = ''m'', qq_Tags = [(''h'', ''a'')], qq_Start = 0, qq_End = 9000000, qq_Aggregation = [], qq_BucketWidth = []\<rparr>,
     rq_batch = Inl EOF\<rparr>"

definition ex_server :: server where
  "ex_server = NewHandler (started (SetIndex idx_New ex_engine) ex_disk) NewRegistry"

lemma ex_server_fields:
  "sv_system ex_server = started (SetIndex idx_New ex_engine) ex_disk" "e_cmdCh (s_engine (sv_system ex_server)) = []"
  "e_wal (s_engine (sv_system ex_server)) = ex_writer" "e_active (s_engine (sv_system ex_server)) = memtable_New" "s_running (sv_system ex_server)"
  using engine_New_fields(1,3) [OF ex_engine_new] ex_engine_wal by (simp_all add: ex_server_def NewHandler_def started_def SetIndex_def)

lemma ex_server_clean: "clean_run ex_rt (started (SetIndex idx_New ex_engine) ex_disk) [] (sv_system ex_server)"
  unfolding ex_server_fields(1) by (rule clean_Nil)

abbreviation ex_series :: seriesWrite where
  "ex_series \<equiv> \<lparr>sw_Metric = ''m'', sw_Tags = [(''h'', ''a'')], sw_Points = [\<lparr>pj_Timestamp = 5, pj_Value = 0\<rparr>]\<rparr>"

lemma ex_posted:
  "\<exists>sv'. serve (\<lambda>_. []) ex_rt (\<lambda>r. r) 1 ex_http ex_server = Some (Completes (Some \<lparr>hr_Status = 200, hr_Body = WriteResponse 1 []\<rparr>, sv'))"
proof -
  have len: "length (encodeWritePayload (series_payload ex_series)) = 28" by (simp add: length_encodeWritePayload series_payload_def)
  have logged: "fst (snd (log_writes (e_wal (s_engine (sv_system ex_server))) (map series_payload (with_points [ex_series])))) = None"
    using len by (simp add: ex_server_fields(3) ex_append)
  have live: "memtable_live (e_active (s_engine (sv_system ex_server)))"
    unfolding ex_server_fields(4) by (simp add: memtable_live_def) (simp add: memtable_New_def)
  have rq: "rq_Path ex_http = ''/write''" "rq_Method ex_http = ''POST''" "rq_write ex_http = Inr \<lparr>wr_Series = [ex_series]\<rparr>"
    by (simp_all add: ex_http_def)
  have "wr_Series \<lparr>wr_Series = [ex_series]\<rparr> \<noteq> []" by simp
  from serve_write_answered [OF ex_rt_ok live ex_server_fields(2,5) rq this, where etext = "\<lambda>_. []" and between = "\<lambda>r. r" and now = 1]
    logged show ?thesis by simp
qed

lemma http_read_your_write_witness:
  "\<exists>sv resp sv' results sv''. serve (\<lambda>_. []) ex_rt (\<lambda>r. r) 1 ex_http sv = Some (Completes (Some resp, sv')) \<and>
    serve (\<lambda>_. []) ex_rt (\<lambda>r. r) 2 (ex_http\<lparr>rq_Path := ''/query''\<rparr>) sv' =
      Some (Completes (Some \<lparr>hr_Status = 200, hr_Body = QueryResponse (Some results) []\<rparr>, sv'')) \<and>
    SeriesKey ''m'' [(''h'', ''a'')] \<in> rj_SeriesID ` set results"
proof -
  let ?q = "\<lparr>qq_Metric = ''m'', qq_Tags = [(''h'', ''a'')], qq_Start = 0, qq_End = 9000000, qq_Aggregation = [], qq_BucketWidth = []\<rparr>"
  obtain sv' where ok: "serve (\<lambda>_. []) ex_rt (\<lambda>r. r) 1 ex_http ex_server =
      Some (Completes (Some \<lparr>hr_Status = 200, hr_Body = WriteResponse 1 []\<rparr>, sv'))" using ex_posted by blast
  have rq: "rq_Path ex_http = ''/write''" "rq_write ex_http = Inr \<lparr>wr_Series = [ex_series]\<rparr>"
    "rq_Path (ex_http\<lparr>rq_Path := ''/query''\<rparr>) = ''/query''" "rq_Method (ex_http\<lparr>rq_Path := ''/query''\<rparr>) = ''POST''"
    "rq_query (ex_http\<lparr>rq_Path := ''/query''\<rparr>) = Inr ?q" by (simp_all add: ex_http_def)
  have small: "\<forall>sw\<in>set (wr_Series \<lparr>wr_Series = [ex_series]\<rparr>). write_ok (series_payload sw)"
    by (simp add: write_ok_def series_payload_def moderate_def ts_def to_point_def)
  have ends: "UnixMilli (qq_End ?q) \<noteq> MaxInt64" by code_simp
  from http_read_your_write [OF ex_rt_ok ex_fresh ex_engine_new ex_server_clean ex_server_fields(2) rq(1,2) small ok _ _ _ rq(3-5) _ _ _ ends,
      of ex_series "\<lambda>r. r" 2]
  obtain results sv'' where "serve (\<lambda>_. []) ex_rt (\<lambda>r. r) 2 (ex_http\<lparr>rq_Path := ''/query''\<rparr>) sv' =
      Some (Completes (Some \<lparr>hr_Status = 200, hr_Body = QueryResponse (Some results) []\<rparr>, sv''))"
    "SeriesKey ''m'' [(''h'', ''a'')] \<in> rj_SeriesID ` set results" by auto
  with ok show ?thesis by blast
qed

subsection \<open>Batches\<close>

definition batch_point :: "batchAddPoint \<Rightarrow> point" where
  "batch_point p = \<lparr>Timestamp = bp_Timestamp p, Value = bp_Value p\<rparr>"

definition batch_id :: "batchAddPoint \<Rightarrow> u64" where
  "batch_id p = SeriesKey (bp_Metric p) (bp_Tags p)"

definition batch_key :: "batchAddPoint \<Rightarrow> string" where
  "batch_key p = bp_Metric p @ ''|'' @ nat_str (unat (batch_id p))"

text \<open>The specification: one payload for each key, in the order of first occurrence, with its points in order.\<close>

definition first_keys :: "batchAddPoint list \<Rightarrow> string list" where
  "first_keys ps = rev (remdups (rev (map batch_key ps)))"

definition batch_group_of :: "batchAddPoint list \<Rightarrow> string \<Rightarrow> WritePayload" where
  "batch_group_of ps k = (let qs = filter (\<lambda>p. batch_key p = k) ps in
     \<lparr>wp_SeriesID = batch_id (hd qs), wp_Points = map batch_point qs\<rparr>)"

definition batch_groups :: "batchAddPoint list \<Rightarrow> BatchWritePayload" where
  "batch_groups ps = map (batch_group_of ps) (first_keys ps)"

lemma first_keys_simps [simp]:
  "first_keys [] = []"
  "first_keys (ps @ [p]) = (if batch_key p \<in> batch_key ` set ps then first_keys ps else first_keys ps @ [batch_key p])"
  "set (first_keys ps) = batch_key ` set ps" "distinct (first_keys ps)"
  by (simp_all add: first_keys_def)

lemma batch_group_of_snoc:
  "batch_group_of (ps @ [p]) k =
    (if k \<noteq> batch_key p then batch_group_of ps k
     else if k \<in> batch_key ` set ps then (batch_group_of ps k)\<lparr>wp_Points := wp_Points (batch_group_of ps k) @ [batch_point p]\<rparr>
     else \<lparr>wp_SeriesID = batch_id p, wp_Points = [batch_point p]\<rparr>)"
proof -
  have none: "filter (\<lambda>q. batch_key q = k) ps = []" if "k \<notin> batch_key ` set ps" using that by (auto simp: filter_empty_conv)
  have some: "filter (\<lambda>q. batch_key q = k) ps \<noteq> []" if "k \<in> batch_key ` set ps" using that by (auto simp: filter_empty_conv)
  show ?thesis
  proof (cases "k \<in> batch_key ` set ps")
    case True
    then show ?thesis using some [OF True] by (cases "k = batch_key p") (simp_all add: batch_group_of_def Let_def)
  next
    case False
    then show ?thesis using none [OF False] by (auto simp: batch_group_of_def Let_def)
  qed
qed

text \<open>A key tells the identifier: its digits follow the last bar.\<close>

lemma key_identifies:
  assumes "m @ ''|'' @ nat_str a = m' @ ''|'' @ nat_str b"
  shows "a = b"
proof -
  have no_bar: "takeWhile (\<lambda>c. c \<noteq> CHR ''|'') (rev (m @ ''|'' @ nat_str n)) = rev (nat_str n)" for m n
  proof -
    have "\<forall>c\<in>set (rev (nat_str n)). c \<noteq> CHR ''|''"
      using nat_str_digits [of n] by (auto simp: list_all_iff is_digit_def)
    then show ?thesis using takeWhile_append2 [of "rev (nat_str n)" "\<lambda>c. c \<noteq> CHR ''|''" "CHR ''|'' # rev m"] by simp
  qed
  from arg_cong [OF assms, of "\<lambda>s. takeWhile (\<lambda>c. c \<noteq> CHR ''|'') (rev s)"] have "nat_str a = nat_str b"
    unfolding no_bar by simp
  then show ?thesis by (simp add: nat_str_inject)
qed

lemma batch_key_id:
  assumes "batch_key p = batch_key q"
  shows "batch_id p = batch_id q"
  using key_identifies [OF assms [unfolded batch_key_def]] by (simp add: word_unat_eq_iff)

lemma group_loop_spec:
  assumes "group_loop between now ps grouped keys sv = ((grouped', keys'), sv')"
    and "keys = first_keys seen" and "\<And>k. lookup grouped k = (if k \<in> batch_key ` set seen then Some (batch_group_of seen k) else None)"
  shows "keys' = first_keys (seen @ ps) \<and>
    (\<forall>k. lookup grouped' k = (if k \<in> batch_key ` set (seen @ ps) then Some (batch_group_of (seen @ ps) k) else None)) \<and>
    sv_system sv' = index_all (map (\<lambda>p. (batch_id p, bp_Metric p, bp_Tags p)) ps) (sv_system sv)"
  using assms
proof (induction ps arbitrary: grouped keys sv seen)
  case (Cons p ps)
  obtain sid ex reg where g: "GetOrCreate between now (sv_registry sv) (bp_Metric p) (bp_Tags p) = ((sid, ex), reg)" by (metis prod.collapse)
  have sid: "sid = batch_id p" using GetOrCreate_key [OF g] by (simp add: batch_id_def)
  let ?sv = "sv\<lparr>sv_registry := reg, sv_system := index_series sid (bp_Metric p) (bp_Tags p) (sv_system sv)\<rparr>"
  let ?grouped = "store grouped (batch_key p) (batch_group_of (seen @ [p]) (batch_key p))"
  have key: "bp_Metric p @ ''|'' @ nat_str (unat sid) = batch_key p" by (simp add: batch_key_def sid)
  have "group_loop between now ps ?grouped (first_keys (seen @ [p])) ?sv = ((grouped', keys'), sv')"
    using Cons.prems(1) Cons.prems(2) Cons.prems(3) [of "batch_key p"] g key
    by (auto simp: Let_def batch_group_of_snoc sid batch_point_def simp del: append.append_Cons split: if_splits)
  moreover have "lookup ?grouped k = (if k \<in> batch_key ` set (seen @ [p]) then Some (batch_group_of (seen @ [p]) k) else None)" for k
    using Cons.prems(3) [of k] by (auto simp: batch_group_of_snoc)
  ultimately show ?case using Cons.IH [of ?grouped "first_keys (seen @ [p])" ?sv "seen @ [p]"] by (simp add: sid)
qed simp

lemma mset_by_key:
  assumes "distinct ks" and "f ` set xs \<subseteq> set ks"
  shows "mset (concat (map (\<lambda>k. filter (\<lambda>x. f x = k) xs) ks)) = mset xs"
proof -
  have "mset (concat (map (\<lambda>k. filter (\<lambda>x. f x = k) ys) ks)) = mset ys" if "f ` set ys \<subseteq> set ks" for ys
    using that
  proof (induction ys)
    case (Cons y ys)
    have "mset (concat (map (\<lambda>k. filter (\<lambda>x. f x = k) (y # ys)) js)) =
        (if f y \<in> set js then {#y#} else {#}) + mset (concat (map (\<lambda>k. filter (\<lambda>x. f x = k) ys) js))" if "distinct js" for js
      using that by (induction js) auto
    then show ?case using Cons assms(1) by simp
  qed (simp add: concat_eq_Nil_conv [THEN iffD2])
  then show ?thesis using assms(2) by simp
qed

lemma batch_groups_points:
  "mset (writes_for sid (batch_groups ps)) = mset (map batch_point (filter (\<lambda>p. batch_id p = sid) ps))"
proof -
  have id: "batch_id (hd (filter (\<lambda>p. batch_key p = batch_key q) ps)) = batch_id q" if "q \<in> set ps" for q
  proof -
    have "filter (\<lambda>p. batch_key p = batch_key q) ps \<noteq> []" using that by (auto simp: filter_empty_conv)
    from hd_in_set [OF this] have "batch_key (hd (filter (\<lambda>p. batch_key p = batch_key q) ps)) = batch_key q" by simp
    then show ?thesis by (rule batch_key_id)
  qed
  have "writes_for sid (map (batch_group_of ps) ks) =
      map batch_point (concat (map (\<lambda>k. filter (\<lambda>p. batch_key p = k) (filter (\<lambda>p. batch_id p = sid) ps)) ks))"
    if "set ks \<subseteq> batch_key ` set ps" for ks
    using that
  proof (induction ks)
    case (Cons k ks)
    then obtain q where q: "q \<in> set ps" "k = batch_key q" by auto
    have "(batch_id p = sid \<and> batch_key p = k) = (batch_key p = k \<and> batch_id q = sid)" for p
      using batch_key_id [of p q] q(2) by auto
    then have "filter (\<lambda>p. batch_key p = k) (filter (\<lambda>p. batch_id p = sid) ps) =
        (if batch_id q = sid then filter (\<lambda>p. batch_key p = k) ps else [])"
      by (simp add: conj_commute)
    moreover have "batch_group_of ps k = \<lparr>wp_SeriesID = batch_id q, wp_Points = map batch_point (filter (\<lambda>p. batch_key p = k) ps)\<rparr>"
      using id [OF q(1)] by (simp add: batch_group_of_def q(2))
    ultimately show ?case using Cons by simp
  qed simp
  note groups = this [of "first_keys ps"]
  have "batch_key ` set (filter (\<lambda>p. batch_id p = sid) ps) \<subseteq> set (first_keys ps)" by auto
  note points = mset_by_key [OF first_keys_simps(4) this]
  show ?thesis unfolding batch_groups_def groups [OF equalityD1 [OF first_keys_simps(3)]] mset_map points ..
qed

text \<open>
  C30: a batch is grouped without losing a point.  \<^verbatim>\<open>POST /batch\<close> with points, on an idle engine, submits one
  command and nothing else, whose payloads are: for each key, in the order of first occurrence, the
  points of the key in their order.  Every series receives exactly its points, whatever the order in
  which the points of different series come, and each point's series is in the index.
\<close>

theorem http_batch_groups:
  assumes "rq_Method rq = ''POST''" and "rq_batch rq = Inr req" and "ba_Points req \<noteq> []"
    and "e_cmdCh (s_engine (sv_system sv)) = []"
  shows "\<exists>sv'. batch_begin etext between now rq sv = ((Waits, length (ba_Points req)), sv') \<and>
    e_cmdCh (s_engine (sv_system sv')) = [batch_command (batch_groups (ba_Points req))] \<and>
    (\<forall>sid. mset (writes_for sid (batch_groups (ba_Points req))) =
       mset (map batch_point (filter (\<lambda>p. batch_id p = sid) (ba_Points req)))) \<and>
    e_index (s_engine (sv_system sv')) =
      e_index (s_engine (index_all (map (\<lambda>p. (batch_id p, bp_Metric p, bp_Tags p)) (ba_Points req)) (sv_system sv)))"
proof -
  let ?ps = "ba_Points req"
  obtain grouped keys sv1 where g: "group_loop between now ?ps [] [] sv = ((grouped, keys), sv1)" by (metis prod.collapse)
  from group_loop_spec [OF g, of "[]"] have G: "keys = first_keys ?ps" "\<forall>k\<in>set (first_keys ?ps). lookup grouped k = Some (batch_group_of ?ps k)"
    "sv_system sv1 = index_all (map (\<lambda>p. (batch_id p, bp_Metric p, bp_Tags p)) ?ps) (sv_system sv)"
    by simp_all
  have "grouped_payloads grouped keys = batch_groups ?ps"
    unfolding grouped_payloads_def batch_groups_def G(1) by (rule map_cong [OF refl]) (use G(2) in auto)
  moreover have "e_cmdCh (s_engine (sv_system sv1)) = []"
    using assms(4) unfolding G(3) index_all_queue .
  ultimately show ?thesis
    using g G(3) assms(1-3) batch_groups_points by (simp add: batch_begin_def submit_idle)
qed

lemma http_batch_groups_witness:
  "\<exists>sv'. batch_begin (\<lambda>_. []) (\<lambda>r. r) 1 (ex_http\<lparr>rq_batch := Inr \<lparr>ba_Points =
      [\<lparr>bp_Metric = ''a'', bp_Tags = [], bp_Timestamp = 2, bp_Value = 0\<rparr>, \<lparr>bp_Metric = ''b'', bp_Tags = [], bp_Timestamp = 1, bp_Value = 0\<rparr>,
       \<lparr>bp_Metric = ''a'', bp_Tags = [], bp_Timestamp = 1, bp_Value = 0\<rparr>]\<rparr>\<rparr>)
    (NewHandler (started (SetIndex idx_New ex_engine) ex_disk) NewRegistry) = ((Waits, 3), sv')"
proof -
  let ?ps = "[\<lparr>bp_Metric = ''a'', bp_Tags = [], bp_Timestamp = 2, bp_Value = 0\<rparr>, \<lparr>bp_Metric = ''b'', bp_Tags = [], bp_Timestamp = 1, bp_Value = 0\<rparr>,
       \<lparr>bp_Metric = ''a'', bp_Tags = [], bp_Timestamp = 1, bp_Value = 0\<rparr>]"
  have "e_cmdCh (s_engine (sv_system (NewHandler (started (SetIndex idx_New ex_engine) ex_disk) NewRegistry))) = []"
    using engine_New_fields(3) [OF ex_engine_new] by (simp add: NewHandler_def started_def SetIndex_def)
  from http_batch_groups [OF _ _ _ this, of "ex_http\<lparr>rq_batch := Inr \<lparr>ba_Points = ?ps\<rparr>\<rparr>" "\<lparr>ba_Points = ?ps\<rparr>" "\<lambda>_. []" "\<lambda>r. r" 1]
  show ?thesis by (auto simp: ex_http_def)
qed

subsection \<open>Types of commands and responses\<close>

text \<open>The engine answers a command of either kind with data of the type that the handler takes.\<close>

definition answers_to :: "waiting \<Rightarrow> Command \<Rightarrow> bool" where
  "answers_to w cmd = (case w of
     WriteWaits _ \<Rightarrow> Kind cmd = BatchWriteCmd \<and> (\<exists>ps. Payload cmd = PBatch ps)
   | QueryWaits \<Rightarrow> Kind cmd = QueryCmd \<and> (\<exists>q. Payload cmd = PQuery q))"

lemma submit_waits:
  assumes "submit etext failed cmd sv = (Waits, sv')"
  shows "e_cmdCh (s_engine (sv_system sv')) = e_cmdCh (s_engine (sv_system sv)) @ [cmd]"
  using assms by (auto simp: submit_def Submit_def split: if_splits)

lemma write_loop_queue:
  "write_loop between now sws sv = (ps, sv') \<Longrightarrow> e_cmdCh (s_engine (sv_system sv')) = e_cmdCh (s_engine (sv_system sv))"
  using write_loop_spec [of between now sws sv ps sv'] index_all_queue by simp

lemma group_loop_queue:
  assumes "group_loop between now ps [] [] sv = (r, sv')"
  shows "e_cmdCh (s_engine (sv_system sv')) = e_cmdCh (s_engine (sv_system sv))"
proof -
  obtain g ks where "group_loop between now ps [] [] sv = ((g, ks), sv')" using assms by (cases r) simp
  then have "sv_system sv' = index_all (map (\<lambda>p. (batch_id p, bp_Metric p, bp_Tags p)) ps) (sv_system sv)"
    using group_loop_spec [of between now ps "[]" "[]" sv g ks sv' "[]"] by simp
  then show ?thesis by (simp only: index_all_queue)
qed

lemma start_request_submits:
  assumes "start_request etext between now route rq sv = (Inr w, sv')"
  shows "\<exists>cmd. e_cmdCh (s_engine (sv_system sv')) = e_cmdCh (s_engine (sv_system sv)) @ [cmd] \<and> answers_to w cmd"
proof (cases route)
  case ToWrite
  then obtain req ps sv1 where "rq_write rq = Inr req" "write_loop between now (wr_Series req) sv = (ps, sv1)"
    "submit etext (WriteResponse 0) (batch_command ps) sv1 = (Waits, sv')" "w = WriteWaits (length ps)"
    using assms by (auto simp: start_request_def write_begin_def split: prod.splits handling.splits if_splits sum.splits)
  then show ?thesis
    using submit_waits [of etext "WriteResponse 0" "batch_command ps" sv1 sv'] write_loop_queue
    by (auto simp: answers_to_def batch_command_def)
next
  case ToBatch
  then obtain req where req: "rq_batch rq = Inr req"
    using assms by (auto simp: start_request_def batch_begin_def split: sum.splits if_splits prod.splits)
  obtain g ks sv1 where g: "group_loop between now (ba_Points req) [] [] sv = ((g, ks), sv1)" by (metis prod.collapse)
  then have "submit etext (WriteResponse 0) (batch_command (grouped_payloads g ks)) sv1 = (Waits, sv')"
    "w = WriteWaits (length (ba_Points req))"
    using assms ToBatch req
    by (auto simp: start_request_def batch_begin_def split: prod.splits handling.splits if_splits)
  then show ?thesis
    using submit_waits [of etext "WriteResponse 0" "batch_command (grouped_payloads g ks)" sv1 sv'] group_loop_queue [OF g]
    by (auto simp: answers_to_def batch_command_def)
next
  case ToQuery
  then obtain req d where "submit etext (QueryResponse None) \<lparr>Kind = QueryCmd, Payload = PQuery (query_payload req d)\<rparr> sv = (Waits, sv')"
    "w = QueryWaits"
    using assms by (auto simp: start_request_def query_begin_def Let_def split: prod.splits handling.splits if_splits sum.splits option.splits)
  then show ?thesis using submit_waits by (fastforce simp: answers_to_def)
qed (use assms in \<open>simp_all add: start_request_def\<close>)

lemma start_request_route:
  assumes "start_request etext between now route rq sv = (Inr w, sv')"
  shows "w = QueryWaits \<longleftrightarrow> route = ToQuery"
  using assms by (auto simp: start_request_def split: route.splits prod.splits handling.splits)

lemma dispatch_typed_answer:
  assumes "answers_to w cmd" and "dispatch rt cmd s = Completes s'"
  shows "\<exists>resp. finish_request etext w (last (s_answers s')) = Inr resp"
proof (cases w)
  case (WriteWaits n)
  then show ?thesis by (simp add: finish_request_def)
next
  case QueryWaits
  then obtain q where q: "Kind cmd = QueryCmd" "Payload cmd = PQuery q" using assms(1) by (auto simp: answers_to_def)
  then obtain r e where r: "handleQuery (PQuery q) (s_engine s) (s_os s) = Inr (r, e)" "s' = reply r (s\<lparr>s_engine := e\<rparr>)"
    using assms(2) by (auto simp: dispatch_def Let_def answer_eq)
  then obtain results where "r = RespResults results" by (auto simp: handleQuery_def Let_def res_bind_eq_Inr split: if_splits)
  then show ?thesis by (simp add: finish_request_def QueryWaits query_end_def r(2) reply_def)
qed

text \<open>
  C31: the types of the HTTP interface and of the engine agree.  Whatever the request and the route, a
  handler that waits has added exactly one command to the queue: a query where it waits for query results, a batch write otherwise, and
  the payload has the type that the engine asserts for that kind, whether the query asks for buckets or not.
  When the engine, in whatever state it is by then, has run the command to its end, the response has a type that the
  handler takes: the assertion in the handler never fails.
\<close>

theorem http_commands_typed:
  assumes "start_request etext between now route rq sv = (Inr w, sv')"
  shows "\<exists>cmd. e_cmdCh (s_engine (sv_system sv')) = e_cmdCh (s_engine (sv_system sv)) @ [cmd] \<and> command_typed cmd \<and>
    Kind cmd = (if route = ToQuery then QueryCmd else BatchWriteCmd) \<and>
    (\<forall>s s'. dispatch rt cmd s = Completes s' \<longrightarrow> (\<exists>resp. finish_request etext w (last (s_answers s')) = Inr resp))"
proof -
  obtain cmd where cmd: "e_cmdCh (s_engine (sv_system sv')) = e_cmdCh (s_engine (sv_system sv)) @ [cmd]" "answers_to w cmd"
    using start_request_submits [OF assms] by blast
  have "command_typed cmd" using cmd(2) by (auto simp: answers_to_def command_typed_def split: waiting.splits)
  moreover have "Kind cmd = (if route = ToQuery then QueryCmd else BatchWriteCmd)"
    using cmd(2) start_request_route [OF assms] by (auto simp: answers_to_def split: waiting.splits)
  ultimately show ?thesis using cmd dispatch_typed_answer [OF cmd(2)] by blast
qed

text \<open>A query that asks for buckets of a second.\<close>

definition ex_bucketed :: queryRequest where
  "ex_bucketed = \<lparr>qq_Metric = ''m'', qq_Tags = [], qq_Start = 0, qq_End = 9000000, qq_Aggregation = ''avg'', qq_BucketWidth = ''1s''\<rparr>"

lemma http_commands_typed_witness:
  "\<exists>sv' cmd. start_request (\<lambda>_. []) (\<lambda>r. r) 1 ToQuery (ex_http\<lparr>rq_query := Inr ex_bucketed\<rparr>)
      (NewHandler (started ex_engine ex_disk) NewRegistry) = (Inr QueryWaits, sv') \<and>
    e_cmdCh (s_engine (sv_system sv')) = [cmd] \<and> command_typed cmd \<and> Kind cmd = QueryCmd"
proof -
  let ?sv = "NewHandler (started ex_engine ex_disk) NewRegistry"
  have idle: "e_cmdCh (s_engine (sv_system ?sv)) = []"
    using engine_New_fields(3) [OF ex_engine_new] by (simp add: NewHandler_def started_def)
  have "ParseDuration ''1s'' = Inr 1000000000" by code_simp
  with idle obtain sv' where s: "start_request (\<lambda>_. []) (\<lambda>r. r) 1 ToQuery (ex_http\<lparr>rq_query := Inr ex_bucketed\<rparr>) ?sv = (Inr QueryWaits, sv')"
    by (simp add: start_request_def query_begin_def ex_http_def ex_bucketed_def submit_idle)
  from http_commands_typed [OF s, where rt = ex_rt] idle show ?thesis using s by auto
qed

subsection \<open>A refused write\<close>

lemma query_finds_series:
  assumes "sid \<in> set (idx_Resolve (e_index e) (q_Metric q) (q_TagFilters q))" and "sint (Milliseconds (q_BucketWidth q)) \<le> 0"
    and "\<forall>en\<in>set (Segments (e_manifest e)). reads_safely st (Path en)"
  shows "\<exists>results e'. handleQuery (PQuery q) e st = Inr (RespResults results, e') \<and> sid \<in> qr_SeriesID ` set results"
proof -
  have "\<forall>path\<in>set (query_paths (e_manifest e) (UnixMilli (q_StartTime q)) (UnixMilli (q_EndTime q))). reads_safely st path"
    using assms(3) by (auto simp: query_paths_def man_List_def)
  from handleQuery_raw [OF assms(2) this] assms(1) show ?thesis by (force simp: image_image)
qed

text \<open>
  C32: a write that the engine refuses is visible all the same.  When the command queue is full, \<^verbatim>\<open>POST /write\<close>
  is answered by 503, nothing is submitted, and of the engine only the index has changed; but every series of the request that has points is
  in the index by then.  So \<^verbatim>\<open>/metrics\<close> lists its metric from then on, and a query for its metric with any of its tags, without buckets, that the engine
  answers with this index has the series among its results, whatever the engine stores (its listed segments being readable without a panic,
  \<open>reads_safely\<close>).
\<close>

theorem http_refused_write_indexed:
  assumes "rq_Method rq = ''POST''" and "rq_write rq = Inr req" and "sw \<in> set (wr_Series req)" and "sw_Points sw \<noteq> []"
    and "cmdCh_cap \<le> length (e_cmdCh (s_engine (sv_system sv)))" and "e_index (s_engine (sv_system sv)) = index_of old"
  shows "\<exists>sv' idx. start_request etext between now ToWrite rq sv =
      (Inl \<lparr>hr_Status = 503, hr_Body = WriteResponse 0 (etext ErrBackpressure)\<rparr>, sv') \<and>
    sv_system sv' = (sv_system sv)\<lparr>s_engine := (s_engine (sv_system sv))\<lparr>e_index := idx\<rparr>\<rparr> \<and>
    SeriesKey (sw_Metric sw) (sw_Tags sw) \<in> set (idx_Resolve idx (sw_Metric sw) (sw_Tags sw)) \<and>
    (\<exists>ms. hr_Body (handleListMetrics sv') = MetricNames ms \<and> sw_Metric sw \<in> set ms) \<and>
    (\<forall>q e st. q_Metric q = sw_Metric sw \<and> set (q_TagFilters q) \<subseteq> set (sw_Tags sw) \<and> sint (Milliseconds (q_BucketWidth q)) \<le> 0 \<and>
       e_index e = idx \<and> (\<forall>en\<in>set (Segments (e_manifest e)). reads_safely st (Path en)) \<longrightarrow>
       (\<exists>results e'. handleQuery (PQuery q) e st = Inr (RespResults results, e') \<and>
          SeriesKey (sw_Metric sw) (sw_Tags sw) \<in> qr_SeriesID ` set results))"
proof -
  obtain ps sv1 where w: "write_loop between now (wr_Series req) sv = (ps, sv1)" by (metis prod.collapse)
  let ?ins = "map series_entry (with_points (wr_Series req))" and ?sid = "SeriesKey (sw_Metric sw) (sw_Tags sw)"
  have sys: "sv_system sv1 = index_all ?ins (sv_system sv)" using write_loop_spec [OF w] by simp
  obtain idx where only: "sv_system sv1 = (sv_system sv)\<lparr>s_engine := (s_engine (sv_system sv))\<lparr>e_index := idx\<rparr>\<rparr>"
    using index_all_only [of "sv_system sv" ?ins] unfolding sys by blast
  have "e_cmdCh (s_engine (sv_system sv1)) = e_cmdCh (s_engine (sv_system sv))" by (rule write_loop_queue [OF w])
  then have "submit etext (WriteResponse 0) (batch_command ps) sv1 =
      (Answered (writeJSON 503 (WriteResponse 0 (etext ErrBackpressure))), sv1)"
    using assms(5) by (simp add: submit_def Submit_def)
  moreover have "wr_Series req \<noteq> []" using assms(3) by auto
  ultimately have refused: "start_request etext between now ToWrite rq sv =
      (Inl \<lparr>hr_Status = 503, hr_Body = WriteResponse 0 (etext ErrBackpressure)\<rparr>, sv1)"
    using w assms(1,2) by (simp add: start_request_def write_begin_def writeJSON_def)
  have "idx = e_index (s_engine (sv_system sv1))" by (simp add: only)
  then have idx: "idx = index_of (old @ ?ins)" unfolding sys index_all_index [OF assms(6)] .
  have "series_entry sw \<in> set (old @ ?ins)" using assms(3,4) by simp
  then have entered: "(?sid, sw_Metric sw, sw_Tags sw) \<in> set (old @ ?ins)" by (simp only: series_entry_def)
  have found: "?sid \<in> set (idx_Resolve idx (sw_Metric sw) filters)" if "set filters \<subseteq> set (sw_Tags sw)" for filters
    unfolding idx by (rule index_of_finds [OF entered that])
  have "sw_Metric sw \<in> set (idx_ListMetrics idx)" unfolding idx by (rule index_of_lists [OF entered])
  then have "\<exists>ms. hr_Body (handleListMetrics sv1) = MetricNames ms \<and> sw_Metric sw \<in> set ms"
    by (auto simp: handleListMetrics_def Let_def writeJSON_def only)
  then show ?thesis
    using refused only found query_finds_series [of ?sid] by (intro exI [of _ sv1] exI [of _ idx]) simp
qed

lemma http_refused_write_indexed_witness:
  "\<exists>sv' ms results e'. start_request (\<lambda>_. ''busy'') (\<lambda>r. r) 1 ToWrite ex_http
      (NewHandler (started (SetIndex idx_New ex_engine\<lparr>e_cmdCh := replicate cmdCh_cap ex_write\<rparr>) ex_disk) NewRegistry) =
      (Inl \<lparr>hr_Status = 503, hr_Body = WriteResponse 0 ''busy''\<rparr>, sv') \<and>
    hr_Body (handleListMetrics sv') = MetricNames ms \<and> ''m'' \<in> set ms \<and>
    handleQuery (PQuery \<lparr>q_Metric = ''m'', q_TagFilters = [(''h'', ''a'')], q_StartTime = 0, q_EndTime = 9000000, q_Aggregation = [],
        q_BucketWidth = 0\<rparr>) (s_engine (sv_system sv')) ex_disk = Inr (RespResults results, e') \<and>
    SeriesKey ''m'' [(''h'', ''a'')] \<in> qr_SeriesID ` set results"
proof -
  let ?sv = "NewHandler (started (SetIndex idx_New ex_engine\<lparr>e_cmdCh := replicate cmdCh_cap ex_write\<rparr>) ex_disk) NewRegistry"
  let ?sw = "\<lparr>sw_Metric = ''m'', sw_Tags = [(''h'', ''a'')], sw_Points = [\<lparr>pj_Timestamp = 5, pj_Value = 0\<rparr>]\<rparr>"
  let ?q = "\<lparr>q_Metric = ''m'', q_TagFilters = [(''h'', ''a'')], q_StartTime = 0, q_EndTime = 9000000, q_Aggregation = [], q_BucketWidth = 0\<rparr>"
  have rq: "rq_Method ex_http = ''POST''" "rq_write ex_http = Inr \<lparr>wr_Series = [?sw]\<rparr>" by (simp_all add: ex_http_def)
  have full: "cmdCh_cap \<le> length (e_cmdCh (s_engine (sv_system ?sv)))" by (simp add: NewHandler_def started_def)
  have old: "e_index (s_engine (sv_system ?sv)) = index_of []" by (simp add: NewHandler_def started_def SetIndex_def index_of_def)
  have "e_manifest ex_engine = man_New ''d/m''"
    using engine_New_fields(7) [OF ex_engine_new] by (simp add: ex_cfg_def man_Load_def os_ReadFile_def ex_disk_def)
  then have none: "Segments (e_manifest (s_engine (sv_system ?sv))) = []" by (simp add: NewHandler_def started_def SetIndex_def man_New_def)
  obtain sv' idx where R: "start_request (\<lambda>_. ''busy'') (\<lambda>r. r) 1 ToWrite ex_http ?sv =
      (Inl \<lparr>hr_Status = 503, hr_Body = WriteResponse 0 ''busy''\<rparr>, sv')"
    and sys: "sv_system sv' = (sv_system ?sv)\<lparr>s_engine := (s_engine (sv_system ?sv))\<lparr>e_index := idx\<rparr>\<rparr>"
    and listed: "\<exists>ms. hr_Body (handleListMetrics sv') = MetricNames ms \<and> ''m'' \<in> set ms"
    and answered: "\<And>e st. e_index e = idx \<Longrightarrow> \<forall>en\<in>set (Segments (e_manifest e)). reads_safely st (Path en) \<Longrightarrow>
      \<exists>results e'. handleQuery (PQuery ?q) e st = Inr (RespResults results, e') \<and> SeriesKey ''m'' [(''h'', ''a'')] \<in> qr_SeriesID ` set results"
    using http_refused_write_indexed [OF rq(1,2) _ _ full old, of ?sw "\<lambda>_. ''busy''" "\<lambda>r. r" 1]
    by (auto simp: Milliseconds_def go_div_def)
  have "\<exists>results e'. handleQuery (PQuery ?q) (s_engine (sv_system sv')) ex_disk = Inr (RespResults results, e') \<and>
      SeriesKey ''m'' [(''h'', ''a'')] \<in> qr_SeriesID ` set results"
    by (rule answered) (use none in \<open>simp_all add: sys\<close>)
  then show ?thesis using R listed by blast
qed

end
