(* ===== verification/Core.thy ===== *)
theory Core
  imports Go_Strings
begin

text \<open>
  Package \<^verbatim>\<open>internal/core\<close>: the sample that collectors send and the batcher and shipper carry on.
\<close>

record Sample =
  sa_Metric :: string
  sa_Tags :: "(string, string) gomap"
  sa_Timestamp :: i64
  sa_Value :: f64

text \<open>Copying a map into another, entry by entry.\<close>

definition copy_into :: "('k, 'v) gomap \<Rightarrow> ('k, 'v) gomap \<Rightarrow> ('k, 'v) gomap" where
  "copy_into m new = foldl (\<lambda>m (k, v). store m k v) m new"

lemma copy_into_simps [simp]:
  "copy_into m [] = m" "copy_into m ((k, v) # new) = copy_into (store m k v) new"
  by (simp_all add: copy_into_def)

lemma lookup_copy_into: "map_wf new \<Longrightarrow> lookup (copy_into m new) = lookup m ++ lookup new"
proof (induction new arbitrary: m)
  case (Cons kv new)
  obtain k v where kv: "kv = (k, v)" by (cases kv)
  have wf: "map_wf new" "k \<notin> fst ` set new" using Cons.prems by (simp_all add: kv map_wf_def)
  then have "lookup new k = None" by (simp add: lookup_None_iff)
  then show ?case using Cons.IH [OF wf(1)] by (auto simp: kv map_add_def fun_eq_iff split: option.splits)
qed (simp add: map_add_def fun_eq_iff)

lemma map_wf_copy_into: "map_wf m \<Longrightarrow> map_wf (copy_into m new)"
  by (induction new arbitrary: m) auto

end
