(* ===== verification/Shipper.thy ===== *)
theory Shipper
  imports Core Go_Text Go_Float Memtable
begin

text \<open>
  Package \<^verbatim>\<open>internal/shipper\<close>: a batch is grouped by series into one write request, which is posted
  until the server takes it or the attempts are used up.  The JSON body stands for the value it
  encodes; encoding fails exactly for values that are not finite.  What the server answers, and whether
  the context is cancelled during a wait, are arguments.
\<close>

subsection \<open>Grouping\<close>

record seriesGroup =
  sg_Metric :: string
  sg_Tags :: "(string, string) gomap"
  sg_Points :: "point list"

type_synonym writeRequest = "seriesGroup list"

text \<open>The loop over the sorted keys of the tags.\<close>

fun key_tags :: "(string, string) gomap \<Rightarrow> string list \<Rightarrow> string" where
  "key_tags tags [] = []"
| "key_tags tags (k # ks) = ''|'' @ k @ ''='' @ (case lookup tags k of Some v \<Rightarrow> v | None \<Rightarrow> []) @ key_tags tags ks"

definition seriesKey :: "string \<Rightarrow> (string, string) gomap \<Rightarrow> string" where
  "seriesKey metric tags = (if tags = [] then metric @ ''|'' else metric @ key_tags tags (sort (map fst tags)))"

definition sample_key :: "Sample \<Rightarrow> string" where
  "sample_key s = seriesKey (sa_Metric s) (sa_Tags s)"

definition sample_point :: "Sample \<Rightarrow> point" where
  "sample_point s = \<lparr>Timestamp = sa_Timestamp s, Value = sa_Value s\<rparr>"

fun build_loop :: "(string, seriesGroup) gomap \<Rightarrow> string list \<Rightarrow> Sample list \<Rightarrow> (string, seriesGroup) gomap \<times> string list" where
  "build_loop groups keys [] = (groups, keys)"
| "build_loop groups keys (s # batch) =
     (let key = sample_key s;
          (g, keys) = (case lookup groups key of
              Some g \<Rightarrow> (g, keys)
            | None \<Rightarrow> (\<lparr>sg_Metric = sa_Metric s, sg_Tags = copy_into [] (sa_Tags s), sg_Points = []\<rparr>, keys @ [key]))
      in build_loop (store groups key (g\<lparr>sg_Points := sg_Points g @ [sample_point s]\<rparr>)) keys batch)"

text \<open>The loop over the sorted keys; a key without a group would be a nil dereference.\<close>

fun take_groups :: "(string, seriesGroup) gomap \<Rightarrow> string list \<Rightarrow> writeRequest res" where
  "take_groups groups [] = Inr []"
| "take_groups groups (k # ks) =
     (case lookup groups k of
        None \<Rightarrow> Inl Panic
      | Some g \<Rightarrow> res_bind (take_groups groups ks) (\<lambda>gs. Inr (g # gs)))"

definition buildRequest :: "Sample list \<Rightarrow> writeRequest res" where
  "buildRequest batch = (case build_loop [] [] batch of (groups, keys) \<Rightarrow> take_groups groups (sort keys))"

subsection \<open>Sending\<close>

record shipper =
  sh_url :: string
  sh_timeout :: int
  sh_retryMax :: int

record shipper_Config =
  sc_URL :: string
  sc_Timeout :: int
  sc_RetryMax :: int

definition shipper_New :: "shipper_Config \<Rightarrow> shipper" where
  "shipper_New cfg =
     \<lparr>sh_url = sc_URL cfg,
      sh_timeout = (if sc_Timeout cfg \<le> 0 then 10 * 1000000000 else sc_Timeout cfg),
      sh_retryMax = (if sc_RetryMax cfg \<le> 0 then 3 else sc_RetryMax cfg)\<rparr>"

text \<open>What comes of an HTTP request: no answer, or a status code.\<close>

datatype http_reply = NoReply go_error | Status int

definition shipper_post :: "http_reply \<Rightarrow> go_error option" where
  "shipper_post r =
     (case r of NoReply err \<Rightarrow> Some err
      | Status code \<Rightarrow> if code < 200 \<or> code \<ge> 300 then Some (ErrStatus code) else None)"

definition json_number_ok :: "f64 \<Rightarrow> bool" where
  "json_number_ok v \<longleftrightarrow> \<not> f64_isNaN v \<and> \<not> f64_isInf v"

definition marshal_ok :: "writeRequest \<Rightarrow> bool" where
  "marshal_ok req = list_all (\<lambda>g. list_all (\<lambda>p. json_number_ok (Value p)) (sg_Points g)) req"

definition backoff :: "int \<Rightarrow> i64" where
  "backoff attempt = word_of_int (50 * attempt) * 1000000"

text \<open>
  The loop of \<^verbatim>\<open>Send\<close> from one attempt on, with \<open>k\<close> attempts left: the error returned and the
  attempts made.  \<open>cancelled i\<close> says that the wait before attempt \<open>i\<close> ends by the context.
\<close>

fun send_loop :: "(nat \<Rightarrow> bool) \<Rightarrow> (nat \<Rightarrow> http_reply) \<Rightarrow> nat \<Rightarrow> nat \<Rightarrow> go_error option \<times> nat list" where
  "send_loop cancelled reply attempt 0 = (Some ErrFormat, [])"
| "send_loop cancelled reply attempt (Suc k) =
     (if attempt > 0 \<and> cancelled attempt then (Some ErrCancelled, [])
      else case shipper_post (reply attempt) of
        None \<Rightarrow> (None, [attempt])
      | Some _ \<Rightarrow> (case send_loop cancelled reply (attempt + 1) k of (e, posts) \<Rightarrow> (e, attempt # posts)))"

text \<open>\<^verbatim>\<open>Send\<close>: the error, and the request with the attempts at which it was posted.\<close>

definition Send :: "(nat \<Rightarrow> bool) \<Rightarrow> (nat \<Rightarrow> http_reply) \<Rightarrow> shipper \<Rightarrow> Sample list \<Rightarrow> (go_error option \<times> (writeRequest \<times> nat list)) res" where
  "Send cancelled reply s batch =
     (if batch = [] then Inr (None, [], [])
      else res_bind (buildRequest batch) (\<lambda>req.
        if \<not> marshal_ok req then Inr (Some ErrUnsupported, req, [])
        else (case send_loop cancelled reply 0 (nat (sh_retryMax s + 1)) of (e, posts) \<Rightarrow> Inr (e, req, posts))))"

subsection \<open>What the request holds\<close>

abbreviation with_key :: "string \<Rightarrow> Sample list \<Rightarrow> Sample list" where
  "with_key k batch \<equiv> filter (\<lambda>s. sample_key s = k) batch"

text \<open>The group of a key: named after its first sample.\<close>

definition group_of :: "Sample list \<Rightarrow> seriesGroup" where
  "group_of ss = \<lparr>sg_Metric = sa_Metric (hd ss), sg_Tags = copy_into [] (sa_Tags (hd ss)), sg_Points = map sample_point ss\<rparr>"

lemma build_loop_groups:
  assumes "\<forall>k. lookup groups k = (if with_key k done = [] then None else Some (group_of (with_key k done)))"
    and "set keys = sample_key ` set done" and "distinct keys"
  shows "case build_loop groups keys batch of (groups', keys') \<Rightarrow>
    (\<forall>k. lookup groups' k = (if with_key k (done @ batch) = [] then None else Some (group_of (with_key k (done @ batch))))) \<and>
    set keys' = sample_key ` set (done @ batch) \<and> distinct keys'"
  using assms
proof (induction batch arbitrary: groups keys "done")
  case (Cons s batch)
  let ?key = "sample_key s" and ?old = "with_key (sample_key s) done"
  let ?g = "if ?old = [] then \<lparr>sg_Metric = sa_Metric s, sg_Tags = copy_into [] (sa_Tags s), sg_Points = []\<rparr> else group_of ?old"
  let ?groups = "store groups ?key (?g\<lparr>sg_Points := sg_Points ?g @ [sample_point s]\<rparr>)"
  let ?keys = "if ?old = [] then keys @ [?key] else keys"
  have step: "build_loop groups keys (s # batch) = build_loop ?groups ?keys batch"
    using Cons.prems(1) by (auto simp: Let_def)
  have a: "\<forall>k. lookup ?groups k = (if with_key k (done @ [s]) = [] then None else Some (group_of (with_key k (done @ [s]))))"
    using Cons.prems(1) by (auto simp: group_of_def)
  have b: "set ?keys = sample_key ` set (done @ [s])" "distinct ?keys"
    using Cons.prems(2,3) by (auto simp: filter_empty_conv) (metis imageI)+
  show ?case using Cons.IH [OF a b] unfolding step by (simp only: append_assoc append_Cons append_Nil)
qed simp

lemma take_groups_all: "\<forall>k\<in>set ks. lookup groups k = Some (f k) \<Longrightarrow> take_groups groups ks = Inr (map f ks)"
  by (induction ks) simp_all

text \<open>A request lists the keys of the batch in order, each with the points of its samples in order.\<close>

lemma buildRequest_groups:
  "buildRequest batch = Inr (map (\<lambda>k. group_of (with_key k batch)) (sorted_list_of_set (sample_key ` set batch)))"
proof -
  obtain groups keys where b: "build_loop [] [] batch = (groups, keys)" by (metis prod.collapse)
  have "\<forall>k. lookup groups k = (if with_key k batch = [] then None else Some (group_of (with_key k batch)))"
    and keys: "set keys = sample_key ` set batch" "distinct keys"
    using build_loop_groups [of "[]" "[]" "[]" batch] b by simp_all
  then have g: "\<forall>k\<in>set (sort keys). lookup groups k = Some (group_of (with_key k batch))"
    by (auto simp: filter_empty_conv)
  have "sort keys = sorted_list_of_set (sample_key ` set batch)"
    using keys by (metis sorted_list_of_set_sort_remdups distinct_remdups_id)
  then show ?thesis using take_groups_all [OF g] b by (simp add: buildRequest_def)
qed

subsection \<open>When keys tell series apart\<close>

definition plain_series :: "string \<Rightarrow> (string, string) gomap \<Rightarrow> bool" where
  "plain_series metric tags \<longleftrightarrow> map_wf tags \<and> CHR ''|'' \<notin> set metric \<and>
     (\<forall>(k, v)\<in>set tags. CHR ''|'' \<notin> set k \<and> CHR ''='' \<notin> set k \<and> CHR ''|'' \<notin> set v)"

abbreviation tag_piece :: "(string, string) gomap \<Rightarrow> string \<Rightarrow> string" where
  "tag_piece tags k \<equiv> k @ ''='' @ (case lookup tags k of Some v \<Rightarrow> v | None \<Rightarrow> [])"

lemma key_tags_concat: "key_tags tags ks = concat (map (\<lambda>q. CHR ''|'' # q) (map (tag_piece tags) ks))"
  by (induction ks) simp_all

lemma seriesKey_pieces:
  assumes "plain_series metric tags"
  shows "split_at (CHR ''|'') (seriesKey metric tags) =
    (if tags = [] then [metric, []] else metric # map (tag_piece tags) (sort (map fst tags)))"
proof (cases "tags = []")
  case True
  then show ?thesis using assms split_at_append [of "CHR ''|''" metric "[]"] by (simp add: seriesKey_def plain_series_def)
next
  case False
  have "CHR ''|'' \<notin> set (tag_piece tags k)" if k: "k \<in> fst ` set tags" for k
  proof -
    obtain v where "(k, v) \<in> set tags" using k by auto
    moreover from this have "lookup tags k = Some v" using assms by (simp add: plain_series_def lookup_Some_iff)
    ultimately show ?thesis using assms by (auto simp: plain_series_def)
  qed
  then have "\<forall>p\<in>set (metric # map (tag_piece tags) (sort (map fst tags))). CHR ''|'' \<notin> set p"
    using assms by (auto simp: plain_series_def)
  from split_at_pieces [OF this] show ?thesis using False by (simp add: seriesKey_def key_tags_concat)
qed

lemma tag_piece_split:
  assumes "CHR ''='' \<notin> set k" and "CHR ''='' \<notin> set k'" and "k @ ''='' @ v = k' @ ''='' @ v'"
  shows "k = k'" and "v = v'"
proof -
  have "takeWhile (\<lambda>c. c \<noteq> CHR ''='') (k @ ''='' @ v) = k" if "CHR ''='' \<notin> set k" for k v
    using that by (induction k) auto
  then show "k = k'" using assms by metis
  then show "v = v'" using assms(3) by simp
qed

lemma seriesKey_inject:
  assumes "plain_series m t" and "plain_series m' t'" and "seriesKey m t = seriesKey m' t'"
  shows "m = m' \<and> lookup t = lookup t'"
proof -
  have eq: "(if t = [] then [m, []] else m # map (tag_piece t) (sort (map fst t))) =
      (if t' = [] then [m', []] else m' # map (tag_piece t') (sort (map fst t')))"
    using seriesKey_pieces [OF assms(1)] seriesKey_pieces [OF assms(2)] assms(3) by simp
  have some: "tag_piece tt k \<noteq> []" for tt k by simp
  have empty: "t = [] \<longleftrightarrow> t' = []"
    using eq some by (auto split: if_splits)
  show ?thesis
  proof (cases "t = []")
    case True
    then show ?thesis using eq empty by simp
  next
    case False
    let ?ks = "sort (map fst t)" and ?ks' = "sort (map fst t')"
    have m: "m = m'" and p: "map (tag_piece t) ?ks = map (tag_piece t') ?ks'" using eq False empty by simp_all
    have plain: "CHR ''='' \<notin> set k" if "k \<in> set ?ks \<union> set ?ks'" for k
      using that assms(1,2) by (auto simp: plain_series_def)
    have len: "length ?ks = length ?ks'" using arg_cong [OF p, of length] by (simp only: length_map)
    have same: "?ks ! i = ?ks' ! i \<and> (case lookup t (?ks ! i) of Some v \<Rightarrow> v | None \<Rightarrow> []) = (case lookup t' (?ks ! i) of Some v \<Rightarrow> v | None \<Rightarrow> [])"
      if i: "i < length ?ks" for i
    proof -
      have "map (tag_piece t) ?ks ! i = map (tag_piece t') ?ks' ! i" by (simp only: p)
      then have piece: "tag_piece t (?ks ! i) = tag_piece t' (?ks' ! i)" using i len by (simp only: nth_map)
      have "?ks ! i \<in> set ?ks" "?ks' ! i \<in> set ?ks'" using i len by (simp_all only: nth_mem)
      then have "CHR ''='' \<notin> set (?ks ! i)" "CHR ''='' \<notin> set (?ks' ! i)" using plain by blast+
      note T = tag_piece_split [OF this piece]
      show ?thesis using T(2) unfolding T(1) [symmetric] using T(1) by simp
    qed
    have ks: "?ks = ?ks'" by (rule nth_equalityI [OF len]) (rule same [THEN conjunct1])
    then have dom: "fst ` set t = fst ` set t'" by (metis set_sort set_map)
    have "lookup t k = lookup t' k" for k
    proof (cases "k \<in> fst ` set t")
      case True
      then obtain i where "i < length ?ks" "?ks ! i = k" by (metis in_set_conv_nth set_sort set_map)
      then have e: "(case lookup t k of Some v \<Rightarrow> v | None \<Rightarrow> []) = (case lookup t' k of Some v \<Rightarrow> v | None \<Rightarrow> [])"
        using same by metis
      obtain v v' where "lookup t k = Some v" "lookup t' k = Some v'"
        using True dom by (metis lookup_None_iff not_None_eq)
      then show ?thesis using e by simp
    next
      case False
      then show ?thesis using dom lookup_None_iff by metis
    qed
    then show ?thesis using m by blast
  qed
qed

lemma seriesKey_cong:
  assumes "map_wf t" and "map_wf t'" and "lookup t = lookup t'"
  shows "seriesKey m t = seriesKey m t'"
proof -
  have dom: "fst ` set t = fst ` set t'" using arg_cong [OF assms(3), of dom] by (simp only: dom_lookup)
  have "sort (map fst t) = sorted_list_of_set (fst ` set t)" "sort (map fst t') = sorted_list_of_set (fst ` set t')"
    using assms(1,2) by (simp_all add: map_wf_def sorted_list_of_set_sort_remdups distinct_remdups_id flip: set_map)
  then have "sort (map fst t) = sort (map fst t')" using dom by simp
  moreover have "key_tags t ks = key_tags t' ks" for ks using assms(3) by (induction ks) simp_all
  moreover have "t = [] \<longleftrightarrow> t' = []" using dom by auto
  ultimately show ?thesis by (simp add: seriesKey_def)
qed

lemma group_of_key:
  assumes "\<forall>s\<in>set batch. plain_series (sa_Metric s) (sa_Tags s)" and "k \<in> sample_key ` set batch"
  shows "with_key k batch = filter (\<lambda>s. sa_Metric s = sg_Metric (group_of (with_key k batch)) \<and>
      lookup (sa_Tags s) = lookup (sg_Tags (group_of (with_key k batch)))) batch"
    and "k = seriesKey (sa_Metric (hd (with_key k batch))) (sa_Tags (hd (with_key k batch)))"
    and "sg_Metric (group_of (with_key k batch)) = sa_Metric (hd (with_key k batch))"
    and "lookup (sg_Tags (group_of (with_key k batch))) = lookup (sa_Tags (hd (with_key k batch)))"
proof -
  let ?h = "hd (with_key k batch)"
  have "with_key k batch \<noteq> []" using assms(2) by (auto simp: filter_empty_conv)
  then have "?h \<in> set (with_key k batch)" by (rule hd_in_set)
  then have h: "?h \<in> set batch" "sample_key ?h = k" by auto
  show "k = seriesKey (sa_Metric ?h) (sa_Tags ?h)" using h(2) by (simp add: sample_key_def)
  have "map_wf (sa_Tags ?h)" using assms(1) h(1) by (simp add: plain_series_def)
  then show t: "lookup (sg_Tags (group_of (with_key k batch))) = lookup (sa_Tags ?h)"
    by (simp add: group_of_def lookup_copy_into fun_eq_iff map_add_def split: option.splits)
  show m: "sg_Metric (group_of (with_key k batch)) = sa_Metric ?h" by (simp add: group_of_def)
  have iff: "sample_key s = k \<longleftrightarrow> sa_Metric s = sa_Metric ?h \<and> lookup (sa_Tags s) = lookup (sa_Tags ?h)" if s: "s \<in> set batch" for s
  proof
    assume "sample_key s = k"
    then have "seriesKey (sa_Metric s) (sa_Tags s) = seriesKey (sa_Metric ?h) (sa_Tags ?h)"
      using h(2) by (simp only: sample_key_def)
    from seriesKey_inject [OF _ _ this] show "sa_Metric s = sa_Metric ?h \<and> lookup (sa_Tags s) = lookup (sa_Tags ?h)"
      using assms(1) s h(1) by blast
  next
    assume same: "sa_Metric s = sa_Metric ?h \<and> lookup (sa_Tags s) = lookup (sa_Tags ?h)"
    have wf: "map_wf (sa_Tags s)" "map_wf (sa_Tags ?h)" using assms(1) s h(1) by (simp_all add: plain_series_def)
    from seriesKey_cong [OF this, of "sa_Metric ?h"] show "sample_key s = k" using same h(2) by (simp add: sample_key_def)
  qed
  show "with_key k batch = filter (\<lambda>s. sa_Metric s = sg_Metric (group_of (with_key k batch)) \<and>
      lookup (sa_Tags s) = lookup (sg_Tags (group_of (with_key k batch)))) batch"
    unfolding t m by (rule filter_cong [OF refl iff])
qed

text \<open>
  C28: a batch is grouped by series.  If metrics, tag keys and values contain no vertical bar, and keys
  no equals sign, the request has one group for each series of the batch, which holds the points of
  that series' samples, all of them and in the order of the batch, under its metric and tags.
\<close>

theorem shipper_groups_by_series:
  assumes "\<forall>s\<in>set batch. plain_series (sa_Metric s) (sa_Tags s)"
  shows "\<exists>req. buildRequest batch = Inr req \<and> distinct (map (\<lambda>g. (sg_Metric g, lookup (sg_Tags g))) req) \<and>
    (\<lambda>g. (sg_Metric g, lookup (sg_Tags g))) ` set req = (\<lambda>s. (sa_Metric s, lookup (sa_Tags s))) ` set batch \<and>
    (\<forall>g\<in>set req. sg_Points g = map (\<lambda>s. \<lparr>Timestamp = sa_Timestamp s, Value = sa_Value s\<rparr>)
       (filter (\<lambda>s. sa_Metric s = sg_Metric g \<and> lookup (sa_Tags s) = lookup (sg_Tags g)) batch))"
proof -
  let ?ks = "sorted_list_of_set (sample_key ` set batch)"
  let ?g = "\<lambda>k. group_of (with_key k batch)"
  let ?id = "\<lambda>g. (sg_Metric g, lookup (sg_Tags g))"
  note K = group_of_key [OF assms]
  have hd_in: "hd (with_key k batch) \<in> set batch \<and> sample_key (hd (with_key k batch)) = k" if k: "k \<in> sample_key ` set batch" for k
  proof -
    have "with_key k batch \<noteq> []" using k by (auto simp: filter_empty_conv)
    from hd_in_set [OF this] show ?thesis by simp
  qed
  have same: "?id (?g (sample_key s)) = (sa_Metric s, lookup (sa_Tags s))" if s: "s \<in> set batch" for s
  proof -
    have k: "sample_key s \<in> sample_key ` set batch" using s by simp
    have "s \<in> set (with_key (sample_key s) batch)" using s by simp
    from arg_cong [OF K(1) [OF k], of set, THEN equalityD1, THEN subsetD, OF this] show ?thesis by auto
  qed
  have "inj_on (\<lambda>k. ?id (?g k)) (sample_key ` set batch)"
  proof (rule inj_onI)
    fix k k' assume k: "k \<in> sample_key ` set batch" "k' \<in> sample_key ` set batch" and eq: "?id (?g k) = ?id (?g k')"
    have "hd (with_key k batch) \<in> set (with_key k' batch)"
    proof (rule arg_cong [OF K(1) [OF k(2)], of set, THEN equalityD2, THEN subsetD])
      show "hd (with_key k batch) \<in> set (filter (\<lambda>s. sa_Metric s = sg_Metric (?g k') \<and> lookup (sa_Tags s) = lookup (sg_Tags (?g k'))) batch)"
        using eq hd_in [OF k(1)] K(3,4) [OF k(1)] by simp
    qed
    then show "k = k'" using hd_in [OF k(1)] by simp
  qed
  then have "distinct (map ?id (map ?g ?ks))" by (simp add: distinct_map o_def)
  moreover have "?id ` set (map ?g ?ks) = (\<lambda>s. (sa_Metric s, lookup (sa_Tags s))) ` set batch"
    using same by (force simp: image_image)
  moreover have "sg_Points g = map (\<lambda>s. \<lparr>Timestamp = sa_Timestamp s, Value = sa_Value s\<rparr>)
       (filter (\<lambda>s. sa_Metric s = sg_Metric g \<and> lookup (sa_Tags s) = lookup (sg_Tags g)) batch)" if g: "g \<in> set (map ?g ?ks)" for g
  proof -
    obtain k where k: "k \<in> sample_key ` set batch" "g = ?g k" using g by auto
    have "filter (\<lambda>s. sa_Metric s = sg_Metric g \<and> lookup (sa_Tags s) = lookup (sg_Tags g)) batch = with_key k batch"
      unfolding k(2) by (rule K(1) [OF k(1), symmetric])
    moreover have "sg_Points g = map sample_point (with_key k batch)" by (simp add: k(2) group_of_def)
    ultimately show ?thesis by (simp add: sample_point_def [abs_def])
  qed
  ultimately show ?thesis using buildRequest_groups [of batch] by (intro exI [of _ "map ?g ?ks"]) blast
qed

lemma send_loop_spec:
  assumes "send_loop cancelled reply a k = (e, posts)"
  shows "\<exists>m \<le> k. posts = [a..<a + m] \<and>
    (e = None \<and> (\<exists>n. m = Suc n \<and> shipper_post (reply (a + n)) = None \<and> (\<forall>i<n. shipper_post (reply (a + i)) \<noteq> None)) \<or>
     e \<noteq> None \<and> (m = k \<or> cancelled (a + m)) \<and> (\<forall>i<m. shipper_post (reply (a + i)) \<noteq> None))"
  using assms
proof (induction k arbitrary: a e posts)
  case (Suc k)
  show ?case
  proof (cases "a > 0 \<and> cancelled a")
    case True
    then show ?thesis using Suc.prems by (intro exI [of _ 0]) auto
  next
    case go: False
    show ?thesis
    proof (cases "shipper_post (reply a)")
      case None
      then have "e = None" "posts = [a]" using Suc.prems go by auto
      then show ?thesis using None by (intro exI [of _ 1]) simp
    next
      case (Some x)
      then obtain posts' where rest: "send_loop cancelled reply (a + 1) k = (e, posts')" "posts = a # posts'"
        using Suc.prems go by (auto split: prod.splits)
      obtain m where m: "m \<le> k" "posts' = [a + 1..<a + 1 + m]"
        "e = None \<and> (\<exists>n. m = Suc n \<and> shipper_post (reply (a + 1 + n)) = None \<and> (\<forall>i<n. shipper_post (reply (a + 1 + i)) \<noteq> None)) \<or>
         e \<noteq> None \<and> (m = k \<or> cancelled (a + 1 + m)) \<and> (\<forall>i<m. shipper_post (reply (a + 1 + i)) \<noteq> None)"
        using Suc.IH [OF rest(1)] by blast
      have posts: "posts = [a..<a + Suc m]" using m(2) rest(2) by (simp add: upt_rec)
      have below: "\<forall>i<Suc j. shipper_post (reply (a + i)) \<noteq> None" if "\<forall>i<j. shipper_post (reply (a + 1 + i)) \<noteq> None" for j
        using that Some by (auto simp: less_Suc_eq_0_disj)
      show ?thesis
        by (rule exI [of _ "Suc m"]) (use m(1,3) posts below in \<open>fastforce\<close>)
    qed
  qed
qed simp

text \<open>
  C29: a batch is posted until it is taken.  For a batch with samples that can be encoded and a number of retries that is not negative, \<^verbatim>\<open>Send\<close> posts the same request
  at most retryMax + 1 times; it returns nil exactly if the last post was answered with a status from
  200 to 299, and otherwise every post failed, and the attempts are used up or the context was cancelled.
\<close>

theorem shipper_send_attempts:
  assumes "batch \<noteq> []" and "buildRequest batch = Inr req" and "marshal_ok req" and "0 \<le> sh_retryMax s"
  shows "\<exists>e posts. Send cancelled reply s batch = Inr (e, req, posts) \<and> posts = [0..<length posts] \<and>
    int (length posts) \<le> sh_retryMax s + 1 \<and>
    (e = None \<longleftrightarrow> posts \<noteq> [] \<and> (\<exists>code. reply (last posts) = Status code \<and> 200 \<le> code \<and> code < 300)) \<and>
    (\<forall>i\<in>set (butlast posts). \<not> (\<exists>code. reply i = Status code \<and> 200 \<le> code \<and> code < 300)) \<and>
    (e \<noteq> None \<longrightarrow> int (length posts) = sh_retryMax s + 1 \<or> cancelled (length posts))"
proof -
  obtain e posts where l: "send_loop cancelled reply 0 (nat (sh_retryMax s + 1)) = (e, posts)" by (metis prod.collapse)
  have taken: "shipper_post r = None \<longleftrightarrow> (\<exists>code. r = Status code \<and> 200 \<le> code \<and> code < 300)" for r
    by (cases r) (auto simp: shipper_post_def)
  obtain m where m: "m \<le> nat (sh_retryMax s + 1)" "posts = [0..<m]"
    "e = None \<and> (\<exists>n. m = Suc n \<and> shipper_post (reply n) = None \<and> (\<forall>i<n. shipper_post (reply i) \<noteq> None)) \<or>
     e \<noteq> None \<and> (m = nat (sh_retryMax s + 1) \<or> cancelled m) \<and> (\<forall>i<m. shipper_post (reply i) \<noteq> None)"
    using send_loop_spec [OF l] by auto
  have "Send cancelled reply s batch = Inr (e, req, posts)" using assms(1-3) l by (simp add: Send_def)
  moreover have "e = None \<longleftrightarrow> posts \<noteq> [] \<and> shipper_post (reply (last posts)) = None"
    "\<forall>i\<in>set (butlast posts). shipper_post (reply i) \<noteq> None"
    "e \<noteq> None \<longrightarrow> int (length posts) = sh_retryMax s + 1 \<or> cancelled (length posts)"
    using m(2,3) assms(4) by (cases m; auto)+
  ultimately show ?thesis
    using m(1,2) assms(4) unfolding taken by (intro exI [of _ e] exI [of _ posts]) auto
qed

subsection \<open>Examples\<close>

definition ex_batch :: "Sample list" where
  "ex_batch = [\<lparr>sa_Metric = ''cpu'', sa_Tags = [(''h'', ''a'')], sa_Timestamp = 1, sa_Value = 0\<rparr>,
     \<lparr>sa_Metric = ''cpu'', sa_Tags = [(''h'', ''b'')], sa_Timestamp = 2, sa_Value = 0\<rparr>,
     \<lparr>sa_Metric = ''cpu'', sa_Tags = [(''h'', ''a'')], sa_Timestamp = 3, sa_Value = 0\<rparr>]"

definition ex_request :: writeRequest where
  "ex_request = [\<lparr>sg_Metric = ''cpu'', sg_Tags = [(''h'', ''a'')], sg_Points = [\<lparr>Timestamp = 1, Value = 0\<rparr>, \<lparr>Timestamp = 3, Value = 0\<rparr>]\<rparr>,
     \<lparr>sg_Metric = ''cpu'', sg_Tags = [(''h'', ''b'')], sg_Points = [\<lparr>Timestamp = 2, Value = 0\<rparr>]\<rparr>]"

lemma ex_built: "buildRequest ex_batch = Inr ex_request" "marshal_ok ex_request"
  by code_simp+

lemma shipper_groups_by_series_witness:
  "distinct (map (\<lambda>g. (sg_Metric g, lookup (sg_Tags g))) ex_request)"
proof -
  have "\<forall>s\<in>set ex_batch. plain_series (sa_Metric s) (sa_Tags s)"
    by (simp add: ex_batch_def plain_series_def map_wf_def)
  from shipper_groups_by_series [OF this] show ?thesis by (simp add: ex_built)
qed

lemma shipper_send_attempts_witness:
  "\<exists>e posts. Send (\<lambda>_. False) (\<lambda>i. if i = 0 then Status 503 else Status 200)
     (shipper_New \<lparr>sc_URL = ''u'', sc_Timeout = 0, sc_RetryMax = 0\<rparr>) ex_batch = Inr (e, ex_request, posts) \<and>
     posts = [0..<length posts] \<and> length posts \<le> 4"
proof -
  let ?s = "shipper_New \<lparr>sc_URL = ''u'', sc_Timeout = 0, sc_RetryMax = 0\<rparr>"
  have "ex_batch \<noteq> []" "0 \<le> sh_retryMax ?s" "sh_retryMax ?s + 1 = 4" by (simp_all add: ex_batch_def shipper_New_def)
  from shipper_send_attempts [OF this(1) ex_built this(2), of "\<lambda>_. False" "\<lambda>i. if i = 0 then Status 503 else Status 200"] this(3)
  show ?thesis by (metis of_nat_le_iff of_nat_numeral)
qed

text \<open>Keys of different series can agree when names contain the separators.\<close>

lemma seriesKey_collision: "seriesKey ''a|b=c'' [] = seriesKey ''a'' [(''b'', ''c|'')]"
  by code_simp

end
