(* ===== verification/Pipeline.thy ===== *)
theory Pipeline
  imports Http_Props Shipper
begin

text \<open>
  From the agent to the database and back: the batch that the shipper posts and the server takes is what
  queries return.
\<close>

text \<open>
  The request that the server decodes from the body the shipper encoded: the same series, points and tags;
  a tag map may be visited in another order.
\<close>

definition arrives_as :: "seriesGroup \<Rightarrow> seriesWrite \<Rightarrow> bool" where
  "arrives_as g sw \<longleftrightarrow> sw_Metric sw = sg_Metric g \<and> mset (sw_Tags sw) = mset (sg_Tags g) \<and> map to_point (sw_Points sw) = sg_Points g"

abbreviation sample_id :: "Sample \<Rightarrow> u64" where
  "sample_id s \<equiv> SeriesKey (sa_Metric s) (sa_Tags s)"

lemma SeriesKey_same_map:
  assumes "map_wf t" and "map_wf t'" and "lookup t = lookup t'"
  shows "SeriesKey m t = SeriesKey m t'" and "set t = set t'"
proof -
  show s: "set t = set t'"
  proof (rule set_eqI)
    fix x
    show "x \<in> set t \<longleftrightarrow> x \<in> set t'"
      using lookup_Some_iff [OF assms(1), of "fst x" "snd x"] lookup_Some_iff [OF assms(2), of "fst x" "snd x"] assms(3) by simp
  qed
  have "distinct t" "distinct t'" using assms(1,2) by (simp_all add: map_wf_def distinct_map)
  then have "mset t = mset t'" using s by (simp add: set_eq_iff_mset_eq_distinct)
  then have "mset (map fst t) = mset (map fst t')" by simp
  then have "sort (map fst t) = sort (map fst t')" by (metis sorted_list_of_multiset_mset)
  then show "SeriesKey m t = SeriesKey m t'" using hash_tags_cong [OF assms(3)] by (simp add: SeriesKey_def Let_def)
qed

text \<open>The group of a key is filed under the identifier of each of its samples.\<close>

lemma group_id:
  assumes "\<forall>s\<in>set batch. plain_series (sa_Metric s) (sa_Tags s)" and "s \<in> set batch"
    and "arrives_as (group_of (with_key (sample_key s) batch)) sw"
  shows "SeriesKey (sw_Metric sw) (sw_Tags sw) = sample_id s" and "sw_Metric sw = sa_Metric s" and "set (sw_Tags sw) = set (sa_Tags s)"
    and "map to_point (sw_Points sw) = map sample_point (with_key (sample_key s) batch)"
proof -
  let ?g = "group_of (with_key (sample_key s) batch)" and ?h = "hd (with_key (sample_key s) batch)"
  have k: "sample_key s \<in> sample_key ` set batch" using assms(2) by simp
  have "s \<in> set (with_key (sample_key s) batch)" using assms(2) by simp
  then have same: "sa_Metric s = sg_Metric ?g" "lookup (sa_Tags s) = lookup (sg_Tags ?g)"
    using arg_cong [OF group_of_key(1) [OF assms(1) k], of set] by auto
  have wf: "map_wf (sa_Tags s)" "map_wf (sg_Tags ?g)" using assms(1,2) by (auto simp: plain_series_def group_of_def intro: map_wf_copy_into)
  have arr: "sw_Metric sw = sg_Metric ?g" "mset (sw_Tags sw) = mset (sg_Tags ?g)" "map to_point (sw_Points sw) = sg_Points ?g"
    using assms(3) by (simp_all add: arrives_as_def)
  have wf': "map_wf (sw_Tags sw)" "lookup (sw_Tags sw) = lookup (sg_Tags ?g)"
    using map_wf_perm [OF arr(2)] lookup_perm [OF wf(2) arr(2)] wf(2) by simp_all
  note K = SeriesKey_same_map [OF wf'(1) wf(1)]
  show "SeriesKey (sw_Metric sw) (sw_Tags sw) = sample_id s" "set (sw_Tags sw) = set (sa_Tags s)"
    using K same wf'(2) arr(1) by simp_all
  show "sw_Metric sw = sa_Metric s" using arr(1) same(1) by simp
  show "map to_point (sw_Points sw) = map sample_point (with_key (sample_key s) batch)" by (simp add: arr(3) group_of_def)
qed

lemma list_all2_partner:
  assumes "list_all2 P xs ys"
  shows "x \<in> set xs \<Longrightarrow> \<exists>y\<in>set ys. P x y" and "y \<in> set ys \<Longrightarrow> \<exists>x\<in>set xs. P x y"
  using assms by (induction rule: list_all2_induct) auto

text \<open>What the request writes is what the batch holds.\<close>

lemma shipped_points:
  assumes "\<forall>s\<in>set batch. plain_series (sa_Metric s) (sa_Tags s)" and "buildRequest batch = Inr req" and "list_all2 arrives_as req sws"
  shows "mset (writes_for sid (map series_payload sws)) = mset (map sample_point (filter (\<lambda>s. sample_id s = sid) batch))"
    and "\<And>s. s \<in> set batch \<Longrightarrow> \<exists>sw\<in>set sws. arrives_as (group_of (with_key (sample_key s) batch)) sw"
    and "\<And>sw. sw \<in> set sws \<Longrightarrow> \<exists>s\<in>set batch. arrives_as (group_of (with_key (sample_key s) batch)) sw"
proof -
  let ?ks = "sorted_list_of_set (sample_key ` set batch)" and ?g = "\<lambda>k. group_of (with_key k batch)"
  have ks: "distinct ?ks" "set ?ks = sample_key ` set batch" by simp_all
  have all2: "list_all2 (\<lambda>k sw. arrives_as (?g k) sw) ?ks sws"
  proof -
    have "req = map ?g ?ks" using assms(2) by (simp add: buildRequest_groups)
    then show ?thesis using assms(3) by (simp only: list_all2_map1)
  qed
  have "writes_for sid (map series_payload sws) =
      map sample_point (concat (map (\<lambda>k. filter (\<lambda>s. sample_key s = k) (filter (\<lambda>s. sample_id s = sid) batch)) ks))"
    if "list_all2 (\<lambda>k sw. arrives_as (?g k) sw) ks sws" and "set ks \<subseteq> sample_key ` set batch" for ks
    using that
  proof (induction ks sws rule: list_all2_induct)
    case (Cons k ks sw sws)
    obtain s where s: "s \<in> set batch" "k = sample_key s" using Cons.prems by auto
    note G = group_id [OF assms(1) s(1) Cons.hyps(1) [unfolded s(2)]]
    have one: "sample_id s' = sample_id s" if "s' \<in> set (with_key k batch)" for s'
    proof -
      have s': "s' \<in> set batch" "sample_key s' = k" using that by auto
      then have "arrives_as (?g (sample_key s')) sw" using Cons.hyps(1) by simp
      from group_id(1) [OF assms(1) s'(1) this] show ?thesis using G(1) by simp
    qed
    have "filter (\<lambda>s'. sample_key s' = k) (filter (\<lambda>s'. sample_id s' = sid) batch) = filter (\<lambda>s'. sample_id s' = sid) (with_key k batch)"
      by (simp add: conj_commute)
    also have "\<dots> = (if sample_id s = sid then with_key k batch else [])"
      using one by (auto intro!: filter_True filter_False simp del: filter_filter)
    finally show ?case using Cons G(1,4) by (simp add: series_payload_def s(2))
  qed simp
  from this [OF all2] have "writes_for sid (map series_payload sws) =
      map sample_point (concat (map (\<lambda>k. filter (\<lambda>s. sample_key s = k) (filter (\<lambda>s. sample_id s = sid) batch)) ?ks))"
    by simp
  moreover have "mset (concat (map (\<lambda>k. filter (\<lambda>s. sample_key s = k) (filter (\<lambda>s. sample_id s = sid) batch)) ?ks)) =
      mset (filter (\<lambda>s. sample_id s = sid) batch)"
    by (rule mset_by_key [OF ks(1)]) auto
  ultimately show "mset (writes_for sid (map series_payload sws)) = mset (map sample_point (filter (\<lambda>s. sample_id s = sid) batch))"
    by (simp only: mset_map)
  show "\<exists>sw\<in>set sws. arrives_as (?g (sample_key s)) sw" if "s \<in> set batch" for s
  proof -
    have "sample_key s \<in> set ?ks" using that ks(2) by simp
    from list_all2_partner(1) [OF all2 this] show ?thesis .
  qed
  show "\<exists>s\<in>set batch. arrives_as (?g (sample_key s)) sw" if sw: "sw \<in> set sws" for sw
  proof -
    obtain k where "k \<in> set ?ks" "arrives_as (?g k) sw" using list_all2_partner(2) [OF all2 sw] by blast
    then show ?thesis using ks(2) by auto
  qed
qed

text \<open>The server answers a write by 200 or by an error.\<close>

lemma write_status:
  assumes "rq_Path post = ''/write''" and "serve etext rt between now post sv = Some (Completes (Some resp, sv'))" and "hr_Status resp < 300"
  shows "hr_Status resp = 200"
proof -
  have route: "NewServer ''/write'' = ToWrite" by code_simp
  obtain h n sv1 where b: "write_begin etext between now post sv = ((h, n), sv1)" by (metis prod.collapse)
  show ?thesis
  proof (cases h)
    case (Answered r)
    then have "resp = r" using assms(2) b by (simp add: serve_def start_request_def assms(1) route)
    moreover have "400 \<le> hr_Status r"
      using b Answered by (auto simp: write_begin_def submit_def method_not_allowed_def writeJSON_def split: if_splits sum.splits prod.splits option.splits)
    ultimately show ?thesis using assms(3) by simp
  next
    case Waits
    then have "\<exists>answer. resp = write_end etext n answer"
      using assms(2) b by (auto simp: serve_def start_request_def assms(1) route finish_request_def split: option.splits outcome.splits)
    then obtain answer where "resp = write_end etext n answer" by blast
    then show ?thesis using assms(3) by (cases answer) (auto simp: write_end_def writeJSON_def)
  qed
qed

text \<open>
  C5: what the agent ships at the first attempt is what the next raw query returns.  Take an engine after any clean run from a fresh
  database, its queue idle, and a batch of fewer than \<open>2 ^ 28 - 1\<close> samples whose names keep series apart (\<open>plain_series\<close>) and
  whose instants are within \<open>2 ^ 54\<close> of 0 (\<open>moderate\<close>).  Let the shipper's first post reach the server
  as it was encoded (\<open>arrives_as\<close>: the same series, points and values) and be served, and let
  \<^verbatim>\<open>Send\<close> return nil over that answer.  Then \<^verbatim>\<open>POST /query\<close> without \<^verbatim>\<open>bucket_width\<close> for the metric of any sample of the batch, with any of its
  tags and an end before the largest instant, is answered by 200, the sample's series is among the results, and each result holds, in order of
  time, exactly the points of the range that were accepted before under its identifier or are
  those of the batch's samples with that identifier.
\<close>

theorem shipped_samples_queryable:
  assumes "runtime_ok rt" and "fresh_start f st cfg" and "engine_New (Inr f) st t0 cfg = Inr e"
    and "clean_run rt (started (SetIndex idx_New e) st) ws (sv_system sv)" and "e_cmdCh (s_engine (sv_system sv)) = []"
    and "\<forall>s\<in>set batch. plain_series (sa_Metric s) (sa_Tags s) \<and> moderate (sample_point s)" and "length batch < 2 ^ 28 - 1"
    and "Send cancelled answers sh batch = Inr (None, req, [0])" and "answers 0 = Status (int (hr_Status resp))"
    and "rq_Path post = ''/write''" and "rq_write post = Inr hreq" and "list_all2 arrives_as req (wr_Series hreq)"
    and "serve etext rt between now post sv = Some (Completes (Some resp, sv'))"
    and "s \<in> set batch" and "rq_Path get = ''/query''" and "rq_Method get = ''POST''" and "rq_query get = Inr q" and "qq_BucketWidth q = []"
    and "qq_Metric q = sa_Metric s" and "set (qq_Tags q) \<subseteq> set (sa_Tags s)" and "UnixMilli (qq_End q) \<noteq> MaxInt64"
  shows "\<exists>results sv''. serve etext rt between' now' get sv' =
      Some (Completes (Some \<lparr>hr_Status = 200, hr_Body = QueryResponse (Some results) []\<rparr>, sv'')) \<and>
    SeriesKey (sa_Metric s) (sa_Tags s) \<in> rj_SeriesID ` set results \<and>
    (\<forall>r\<in>set results. sorted (map (sint \<circ> pj_Timestamp) (rj_Points r)) \<and> mset (map to_point (rj_Points r)) =
       filter_mset (\<lambda>p. sint (UnixMilli (qq_Start q)) \<le> ts p \<and> ts p \<le> sint (UnixMilli (qq_End q)))
         (mset (writes_for (rj_SeriesID r) ws) + mset (map sample_point (filter (\<lambda>s. sample_id s = rj_SeriesID r) batch))))"
proof -
  have plain: "\<forall>s\<in>set batch. plain_series (sa_Metric s) (sa_Tags s)" using assms(6) by blast
  have build: "buildRequest batch = Inr req" and loop: "send_loop cancelled answers 0 (nat (sh_retryMax sh + 1)) = (None, [0])"
    using assms(8) by (auto simp: Send_def res_bind_eq_Inr split: if_splits prod.splits)
  obtain n where n: "[0] = [0..<Suc n]" "shipper_post (answers n) = None" using send_loop_spec [OF loop] by auto
  have "n = 0" using arg_cong [OF n(1), of length] by simp
  with n(2) have sent: "shipper_post (answers 0) = None" by simp
  have "hr_Status resp < 300" using sent assms(9) by (auto simp: shipper_post_def split: if_splits)
  then have ok: "hr_Status resp = 200" by (rule write_status [OF assms(10,13)])
  note S = shipped_points [OF plain build assms(12)]
  obtain sw where sw: "sw \<in> set (wr_Series hreq)" "arrives_as (group_of (with_key (sample_key s) batch)) sw" using S(2) [OF assms(14)] by blast
  note G = group_id [OF plain assms(14) sw(2)]
  have "with_key (sample_key s) batch \<noteq> []" using assms(14) by (auto simp: filter_empty_conv)
  then have some: "sw_Points sw \<noteq> []" using G(4) by auto
  have fits: "\<forall>sw\<in>set (wr_Series hreq). write_ok (series_payload sw)"
  proof
    fix sw'
    assume "sw' \<in> set (wr_Series hreq)"
    then obtain s' where s': "s' \<in> set batch" "arrives_as (group_of (with_key (sample_key s') batch)) sw'" using S(3) by blast
    note P = group_id(4) [OF plain s']
    have "length (with_key (sample_key s') batch) < 2 ^ 28 - 1"
      using assms(7) length_filter_le [of "\<lambda>x. sample_key x = sample_key s'" batch] by linarith
    then show "write_ok (series_payload sw')" using assms(6) by (auto simp: write_ok_def series_payload_def P simp flip: length_map [of to_point])
  qed
  have q: "qq_Metric q = sw_Metric sw" "set (qq_Tags q) \<subseteq> set (sw_Tags sw)" using G(2,3) assms(19,20) by simp_all
  from read_your_write [OF assms(1-5,10,11) fits assms(13) ok sw(1) some assms(15-18) q assms(21), where between' = between' and now' = now']
  show ?thesis by (simp only: G(1) map_append points_for_simps mset_append S(1))
qed

text \<open>A sample shipped to a fresh database, and queried.\<close>

definition ship_sample :: Sample where
  "ship_sample = \<lparr>sa_Metric = ''m'', sa_Tags = [(''h'', ''a'')], sa_Timestamp = 5, sa_Value = 0\<rparr>"

lemma ex_sent:
  "Send (\<lambda>_. False) (\<lambda>_. Status 200) (shipper_New \<lparr>sc_URL = [], sc_Timeout = 0, sc_RetryMax = 0\<rparr>) [ship_sample] =
    Inr (None, [group_of [ship_sample]], [0])"
proof -
  have "buildRequest [ship_sample] = Inr [group_of [ship_sample]]" by (simp add: buildRequest_groups)
  moreover have "marshal_ok [group_of [ship_sample]]"
    by (simp add: marshal_ok_def group_of_def ship_sample_def sample_point_def json_number_ok_def f64_isNaN_def f64_isInf_def f64_exp_def f64_frac_def)
  moreover have "nat (sh_retryMax (shipper_New \<lparr>sc_URL = [], sc_Timeout = 0, sc_RetryMax = 0\<rparr>) + 1) = Suc 3" by (simp add: shipper_New_def)
  ultimately show ?thesis by (simp add: Send_def shipper_post_def eval_nat_numeral)
qed

theorem shipped_samples_queryable_witness:
  "\<exists>sv' results sv''. serve (\<lambda>_. []) ex_rt (\<lambda>r. r) 2 (ex_http\<lparr>rq_Path := ''/query''\<rparr>) sv' =
      Some (Completes (Some \<lparr>hr_Status = 200, hr_Body = QueryResponse (Some results) []\<rparr>, sv'')) \<and>
    SeriesKey ''m'' [(''h'', ''a'')] \<in> rj_SeriesID ` set results"
proof -
  let ?q = "\<lparr>qq_Metric = ''m'', qq_Tags = [(''h'', ''a'')], qq_Start = 0, qq_End = 9000000, qq_Aggregation = [], qq_BucketWidth = []\<rparr>"
    and ?resp = "\<lparr>hr_Status = 200, hr_Body = WriteResponse 1 []\<rparr>"
  obtain sv' where ok: "serve (\<lambda>_. []) ex_rt (\<lambda>r. r) 1 ex_http ex_server = Some (Completes (Some ?resp, sv'))" using ex_posted by blast
  have rq: "rq_Path ex_http = ''/write''" "rq_write ex_http = Inr \<lparr>wr_Series = [ex_series]\<rparr>"
    "rq_Path (ex_http\<lparr>rq_Path := ''/query''\<rparr>) = ''/query''" "rq_Method (ex_http\<lparr>rq_Path := ''/query''\<rparr>) = ''POST''"
    "rq_query (ex_http\<lparr>rq_Path := ''/query''\<rparr>) = Inr ?q" by (simp_all add: ex_http_def)
  have batch: "\<forall>s\<in>set [ship_sample]. plain_series (sa_Metric s) (sa_Tags s) \<and> moderate (sample_point s)" "length [ship_sample] < 2 ^ 28 - 1"
    by (simp_all add: ship_sample_def plain_series_def map_wf_def moderate_def ts_def sample_point_def)
  have answer: "(\<lambda>_. Status 200) 0 = Status (int (hr_Status ?resp))" by simp
  have arrives: "list_all2 arrives_as [group_of [ship_sample]] (wr_Series \<lparr>wr_Series = [ex_series]\<rparr>)"
    by (simp add: arrives_as_def group_of_def ship_sample_def sample_point_def to_point_def store_def)
  have ends: "UnixMilli (qq_End ?q) \<noteq> MaxInt64" by code_simp
  have asked: "ship_sample \<in> set [ship_sample]" "qq_BucketWidth ?q = []" "qq_Metric ?q = sa_Metric ship_sample" "set (qq_Tags ?q) \<subseteq> set (sa_Tags ship_sample)"
    by (simp_all add: ship_sample_def)
  have id: "SeriesKey (sa_Metric ship_sample) (sa_Tags ship_sample) = SeriesKey ''m'' [(''h'', ''a'')]" by (simp add: ship_sample_def)
  from shipped_samples_queryable [OF ex_rt_ok ex_fresh ex_engine_new ex_server_clean ex_server_fields(2) batch ex_sent answer rq(1,2) arrives ok asked(1)
      rq(3-5) asked(2-4) ends, of "\<lambda>r. r" 2]
  show ?thesis unfolding id by blast
qed

end
