(* ===== verification/Config.thy ===== *)
theory Config
  imports Core Go_Strconv
begin

text \<open>
  Package \<^verbatim>\<open>internal/config\<close>.  The YAML library is a parameter: it decodes a text into a
  configuration that is already filled with the defaults, and asks \<open>UnmarshalYAML\<close> for durations.  A map can be
  nil, and is then written to by nobody.
\<close>

definition UnmarshalYAML :: "string res \<Rightarrow> i64 res" where
  "UnmarshalYAML unmarshal = res_bind unmarshal (\<lambda>s. res_bind (ParseDuration s) (\<lambda>dur. Inr dur))"

record AgentConfig =
  ac_Hostname :: string
  ac_BatchSize :: int
  ac_BatchInterval :: i64
  ac_QueueSize :: int

record OutputConfig =
  oc_URL :: string
  oc_Timeout :: i64
  oc_RetryMax :: int

record FileTailConfig =
  fc_Path :: string
  fc_Parser :: string
  fc_MetricField :: string
  fc_ValueField :: string
  fc_TimestampField :: string
  fc_TagFields :: "string list"
  fc_Pattern :: string
  fc_PollInterval :: i64

record SystemConfig =
  yc_Interval :: i64
  yc_EnabledMetrics :: "string list"

record StatsDConfig =
  tc_Listen :: string
  tc_Enabled :: bool

record DockerConfig =
  kc_Enabled :: bool
  kc_Interval :: i64
  kc_Endpoint :: string

record Config =
  cf_Agent :: AgentConfig
  cf_Output :: OutputConfig
  cf_DefaultTags :: "(string, string) gomap option"
  cf_FileTail :: "FileTailConfig list"
  cf_System :: SystemConfig
  cf_StatsD :: StatsDConfig
  cf_Docker :: DockerConfig

definition seconds :: "i64 \<Rightarrow> i64" where
  "seconds n = n * 1000000000"

definition DefaultConfig :: Config where
  "DefaultConfig =
     \<lparr>cf_Agent = \<lparr>ac_Hostname = [], ac_BatchSize = 1000, ac_BatchInterval = seconds 5, ac_QueueSize = 100000\<rparr>,
      cf_Output = \<lparr>oc_URL = ''http://localhost:8080/write'', oc_Timeout = seconds 10, oc_RetryMax = 3\<rparr>,
      cf_DefaultTags = Some [],
      cf_FileTail = [],
      cf_System = \<lparr>yc_Interval = seconds 15, yc_EnabledMetrics = [''cpu'', ''memory'', ''disk'', ''net'']\<rparr>,
      cf_StatsD = \<lparr>tc_Listen = '':8125'', tc_Enabled = True\<rparr>,
      cf_Docker = \<lparr>kc_Enabled = False, kc_Interval = seconds 15, kc_Endpoint = ''unix:///var/run/docker.sock''\<rparr>\<rparr>"

text \<open>\<^verbatim>\<open>Load\<close>: \<open>missing\<close> tells whether \<^verbatim>\<open>Stat\<close> says that there is no file, \<open>file\<close> is what reading it gives.\<close>

definition Load :: "(string \<Rightarrow> Config \<Rightarrow> Config res) \<Rightarrow> bool \<Rightarrow> string res \<Rightarrow> Config res" where
  "Load yaml missing file =
     (let cfg = DefaultConfig in
      if missing then Inr cfg
      else res_bind file (\<lambda>data. res_bind (yaml data cfg) (\<lambda>cfg.
        let cfg = (if ac_BatchSize (cf_Agent cfg) \<le> 0 then cfg\<lparr>cf_Agent := (cf_Agent cfg)\<lparr>ac_BatchSize := 1000\<rparr>\<rparr> else cfg);
            cfg = (if oc_RetryMax (cf_Output cfg) \<le> 0 then cfg\<lparr>cf_Output := (cf_Output cfg)\<lparr>oc_RetryMax := 3\<rparr>\<rparr> else cfg)
        in Inr cfg)))"

text \<open>A loaded configuration has a batch size and a number of retries; nothing else is checked.\<close>

lemma Load_positive:
  assumes "Load yaml missing file = Inr cfg"
  shows "0 < ac_BatchSize (cf_Agent cfg)" and "0 < oc_RetryMax (cf_Output cfg)"
proof -
  have "0 < ac_BatchSize (cf_Agent cfg) \<and> 0 < oc_RetryMax (cf_Output cfg)"
  proof (cases missing)
    case True
    then show ?thesis using assms by (auto simp: Load_def DefaultConfig_def)
  next
    case False
    then obtain data cfg0 where "file = Inr data" "yaml data DefaultConfig = Inr cfg0"
      using assms by (auto simp: Load_def res_bind_eq_Inr Let_def)
    then show ?thesis
      using assms False
      by (cases "ac_BatchSize (cf_Agent cfg0) \<le> 0"; cases "oc_RetryMax (cf_Output cfg0) \<le> 0") (auto simp: Load_def Let_def)
  qed
  then show "0 < ac_BatchSize (cf_Agent cfg)" and "0 < oc_RetryMax (cf_Output cfg)" by simp_all
qed

lemma Load_missing [simp]: "Load yaml True file = Inr DefaultConfig"
  by (simp add: Load_def)

lemma Load_keeps:
  assumes "yaml data DefaultConfig = Inr cfg" and "0 < ac_BatchSize (cf_Agent cfg)" and "0 < oc_RetryMax (cf_Output cfg)"
  shows "Load yaml False (Inr data) = Inr cfg"
  using assms by (simp add: Load_def)

text \<open>A duration is read by its own format, or the whole text is refused.\<close>

lemma UnmarshalYAML_text: "UnmarshalYAML (Inr s) = ParseDuration s"
  by (cases "ParseDuration s") (simp_all add: UnmarshalYAML_def)

end
