(* ===== verification/Transform.thy ===== *)
theory Transform
  imports Core Go_Strconv Go_Json
begin

text \<open>
  Package \<^verbatim>\<open>internal/transform\<close>: the parsers that make samples of lines.  \<^verbatim>\<open>encoding/json\<close> is the
  parser of \<open>Go_Json\<close>; a compiled regular expression is what the library makes of it, the names of its
  groups and the matches it finds.  The lemmas show which sample a JSON line gives, that the kinds of
  values are converted as the two conversion functions say, and that a regular expression parser never
  panics and adds no tags but the configured ones.
\<close>

subsection \<open>Values of any type\<close>

text \<open>
  What an \<^verbatim>\<open>interface{}\<close> holds here: the types \<^verbatim>\<open>json.Unmarshal\<close> makes, and the three others that the
  conversions know.
\<close>

datatype any =
    ANil
  | ABool bool
  | AFloat f64
  | AString string
  | ASlice "any list"
  | AMap "(string \<times> any) list"
  | ANumber string
  | AInt i64
  | AInt64 i64

text \<open>\<^verbatim>\<open>Unmarshal\<close> into an \<^verbatim>\<open>interface{}\<close>: numbers become \<^verbatim>\<open>float64\<close>, later members replace earlier ones.\<close>

fun unmarshal_any :: "json \<Rightarrow> any res"
  and unmarshal_list :: "json list \<Rightarrow> any list res"
  and unmarshal_members :: "(string \<times> json) list \<Rightarrow> (string, any) gomap \<Rightarrow> (string, any) gomap res" where
  "unmarshal_any JNull = Inr ANil"
| "unmarshal_any (JBool b) = Inr (ABool b)"
| "unmarshal_any (JNum n) = res_bind (ParseFloat n) (\<lambda>x. Inr (AFloat x))"
| "unmarshal_any (JStr s) = Inr (AString s)"
| "unmarshal_any (JArr vs) = res_bind (unmarshal_list vs) (\<lambda>xs. Inr (ASlice xs))"
| "unmarshal_any (JObj ms) = res_bind (unmarshal_members ms []) (\<lambda>m. Inr (AMap m))"
| "unmarshal_list [] = Inr []"
| "unmarshal_list (v # vs) = res_bind (unmarshal_any v) (\<lambda>x. res_bind (unmarshal_list vs) (\<lambda>xs. Inr (x # xs)))"
| "unmarshal_members [] m = Inr m"
| "unmarshal_members ((k, v) # ms) m = res_bind (unmarshal_any v) (\<lambda>x. unmarshal_members ms (store m k x))"

text \<open>\<^verbatim>\<open>Unmarshal\<close> into a map: an object, or null, which leaves the map nil.\<close>

definition unmarshal_map :: "string \<Rightarrow> (string, any) gomap res" where
  "unmarshal_map line =
     (case json_parse line of
        Some (JObj ms) \<Rightarrow> unmarshal_members ms []
      | Some JNull \<Rightarrow> Inr []
      | _ \<Rightarrow> Inl ErrSyntax)"

text \<open>\<^verbatim>\<open>fmt.Sprintf("%v", v)\<close>: maps are printed in the order of their keys.\<close>

fun sort_members :: "(string \<times> string) list \<Rightarrow> (string \<times> string) list" where
  "sort_members ms = sort_key fst ms"

definition blanks :: "string list \<Rightarrow> string" where
  "blanks ss = (case ss of [] \<Rightarrow> [] | s # ss \<Rightarrow> s @ concat (map (\<lambda>t. '' '' @ t) ss))"

fun format_any :: "any \<Rightarrow> string" where
  "format_any ANil = ''<nil>''"
| "format_any (ABool b) = (if b then ''true'' else ''false'')"
| "format_any (AFloat x) = format_float x"
| "format_any (AString s) = s"
| "format_any (ASlice vs) = ''['' @ blanks (map format_any vs) @ '']''"
| "format_any (AMap ms) =
     ''map['' @ blanks (map (\<lambda>(k, s). k @ '':'' @ s) (sort_members (map (\<lambda>(k, v). (k, format_any v)) ms))) @ '']''"
| "format_any (ANumber s) = s"
| "format_any (AInt i) = int_str (sint i)"
| "format_any (AInt64 i) = int_str (sint i)"

definition toFloat64 :: "any \<Rightarrow> f64 res" where
  "toFloat64 v =
     (case v of
        AFloat x \<Rightarrow> Inr x
      | ANumber s \<Rightarrow> ParseFloat s
      | AString s \<Rightarrow> ParseFloat s
      | AInt i \<Rightarrow> Inr (f64_of_int (sint i))
      | AInt64 i \<Rightarrow> Inr (f64_of_int (sint i))
      | _ \<Rightarrow> Inl ErrFormat)"

definition toInt64 :: "any \<Rightarrow> i64 res" where
  "toInt64 v =
     (case v of
        AFloat x \<Rightarrow> Inr (f64_to_i64 x)
      | ANumber s \<Rightarrow> ParseInt s
      | AString s \<Rightarrow> (let s = trim_space s in if s = [] then Inr 0 else ParseInt s)
      | AInt i \<Rightarrow> Inr i
      | AInt64 i \<Rightarrow> Inr i
      | _ \<Rightarrow> Inl ErrFormat)"

subsection \<open>JSON lines\<close>

record JSONParser =
  jp_MetricField :: string
  jp_ValueField :: string
  jp_TimestampField :: string
  jp_TagFields :: "string list"
  jp_DefaultTags :: "(string, string) gomap"

type_synonym JSONParserConfig = JSONParser

definition NewJSONParser :: "JSONParserConfig \<Rightarrow> JSONParser" where
  "NewJSONParser cfg =
     \<lparr>jp_MetricField = jp_MetricField cfg, jp_ValueField = jp_ValueField cfg, jp_TimestampField = jp_TimestampField cfg,
      jp_TagFields = jp_TagFields cfg, jp_DefaultTags = jp_DefaultTags cfg\<rparr>"

definition json_tag :: "(string, any) gomap \<Rightarrow> (string, string) gomap \<Rightarrow> string \<Rightarrow> (string, string) gomap" where
  "json_tag data tags field = (case lookup data field of Some v \<Rightarrow> store tags field (format_any v) | None \<Rightarrow> tags)"

text \<open>The timestamp: 0 when the field is not configured or not there.\<close>

definition json_timestamp :: "JSONParser \<Rightarrow> (string, any) gomap \<Rightarrow> i64 res" where
  "json_timestamp p data =
     (if jp_TimestampField p = [] then Inr 0
      else case lookup data (jp_TimestampField p) of None \<Rightarrow> Inr 0 | Some tsRaw \<Rightarrow> toInt64 tsRaw)"

definition extractSample :: "JSONParser \<Rightarrow> int \<Rightarrow> (string, any) gomap \<Rightarrow> Sample res" where
  "extractSample p now data =
     (let tags = copy_into [] (jp_DefaultTags p) in
      case lookup data (jp_MetricField p) of
        None \<Rightarrow> Inl ErrFormat
      | Some metricRaw \<Rightarrow>
          (case lookup data (jp_ValueField p) of
             None \<Rightarrow> Inl ErrFormat
           | Some valueRaw \<Rightarrow>
               res_bind (toFloat64 valueRaw) (\<lambda>v.
               res_bind (json_timestamp p data) (\<lambda>ts.
                 Inr \<lparr>sa_Metric = format_any metricRaw, sa_Tags = foldl (json_tag data) tags (jp_TagFields p),
                      sa_Timestamp = (if ts = 0 then word_of_int (now div 1000000) else ts), sa_Value = v\<rparr>))))"

definition json_Parse :: "JSONParser \<Rightarrow> int \<Rightarrow> string \<Rightarrow> Sample res" where
  "json_Parse p now line = res_bind (unmarshal_map line) (extractSample p now)"

subsection \<open>Regular expressions\<close>

text \<open>A compiled expression: \<^verbatim>\<open>SubexpNames\<close>, and \<^verbatim>\<open>FindStringSubmatch\<close>, nil when there is no match.\<close>

record regexp =
  re_names :: "string list"
  re_find :: "string \<Rightarrow> string list option"

record RegexParser =
  xp_Pattern :: regexp
  xp_MetricGroup :: string
  xp_ValueGroup :: string
  xp_TagGroups :: "string list"
  xp_DefaultTags :: "(string, string) gomap"

definition NewRegexParser :: "regexp res \<Rightarrow> string \<Rightarrow> string \<Rightarrow> string list \<Rightarrow> (string, string) gomap \<Rightarrow> RegexParser res" where
  "NewRegexParser compiled metricGroup valueGroup tagGroups defaultTags =
     res_bind compiled (\<lambda>re.
       Inr \<lparr>xp_Pattern = re, xp_MetricGroup = metricGroup, xp_ValueGroup = valueGroup, xp_TagGroups = tagGroups,
            xp_DefaultTags = defaultTags\<rparr>)"

text \<open>The loop over the group names; \<open>i\<close> is the index of the first of them.\<close>

fun regex_loop :: "RegexParser \<Rightarrow> string list \<Rightarrow> nat \<Rightarrow> string list \<Rightarrow> Sample \<Rightarrow> Sample res" where
  "regex_loop p matches i [] s = Inr s"
| "regex_loop p matches i (name # names) s =
     (if i = 0 \<or> name = [] then regex_loop p matches (i + 1) names s
      else if length matches \<le> i then Inl Panic
      else
        let val = matches ! i in
        if name = xp_MetricGroup p then regex_loop p matches (i + 1) names (s\<lparr>sa_Metric := val\<rparr>)
        else if name = xp_ValueGroup p then
          res_bind (ParseFloat val) (\<lambda>v. regex_loop p matches (i + 1) names (s\<lparr>sa_Value := v\<rparr>))
        else regex_loop p matches (i + 1) names
          (if name \<in> set (xp_TagGroups p) then s\<lparr>sa_Tags := store (sa_Tags s) name val\<rparr> else s))"

definition regex_Parse :: "RegexParser \<Rightarrow> int \<Rightarrow> string \<Rightarrow> Sample res" where
  "regex_Parse p now line =
     (case re_find (xp_Pattern p) line of
        None \<Rightarrow> Inl ErrFormat
      | Some matches \<Rightarrow>
          res_bind (regex_loop p matches 0 (re_names (xp_Pattern p))
              \<lparr>sa_Metric = [], sa_Tags = copy_into [] (xp_DefaultTags p), sa_Timestamp = 0, sa_Value = 0\<rparr>) (\<lambda>s.
            if sa_Metric s = [] then Inl ErrFormat
            else Inr (s\<lparr>sa_Timestamp := word_of_int (now div 1000000)\<rparr>)))"

subsection \<open>The interface of the parsers\<close>

text \<open>
  What a collector relies on: parsing never panics, and a sample that is returned has a map of tags (not
  a nil one), so that tags can be added to it.
\<close>

locale line_parser =
  fixes parse :: "int \<Rightarrow> string \<Rightarrow> Sample res"
  assumes parse_no_panic: "parse now line \<noteq> Inl Panic"
    and parse_tags: "parse now line = Inr s \<Longrightarrow> map_wf (sa_Tags s)"

lemma parse_number_errors [simp]: "ParseFloat s \<noteq> Inl Panic" "ParseInt s \<noteq> Inl Panic"
  by (auto simp: ParseFloat_def ParseInt_def Let_def split: prod.splits option.splits)

lemma conversion_errors [simp]: "toFloat64 v \<noteq> Inl Panic" "toInt64 v \<noteq> Inl Panic"
  by (auto simp: toFloat64_def toInt64_def Let_def split: any.splits)

lemma unmarshal_errors: "unmarshal_any v \<noteq> Inl Panic" "unmarshal_list vs \<noteq> Inl Panic" "unmarshal_members ms m \<noteq> Inl Panic"
proof (induction v and vs and ms m rule: unmarshal_any_unmarshal_list_unmarshal_members.induct)
qed (auto simp: res_bind_def split: sum.splits)

lemma res_bind_error: "res_bind r f = Inl err \<longleftrightarrow> r = Inl err \<or> (\<exists>x. r = Inr x \<and> f x = Inl err)"
  by (cases r) auto

lemma map_wf_json_tags: "map_wf tags \<Longrightarrow> map_wf (foldl (json_tag data) tags fs)"
  by (induction fs arbitrary: tags) (simp_all add: json_tag_def split: option.split)

lemma extractSample_Inr:
  assumes "extractSample p now data = Inr s"
  shows "sa_Tags s = foldl (json_tag data) (copy_into [] (jp_DefaultTags p)) (jp_TagFields p)"
proof -
  obtain m v where "lookup data (jp_MetricField p) = Some m" "lookup data (jp_ValueField p) = Some v"
    using assms by (auto simp: extractSample_def Let_def split: option.splits)
  then show ?thesis using assms by (auto simp: extractSample_def Let_def res_bind_eq_Inr)
qed

lemma json_line_parser: "line_parser (json_Parse p)"
proof
  show "json_Parse p now line \<noteq> Inl Panic" for now line
    using unmarshal_errors(3)
    by (auto simp: json_Parse_def unmarshal_map_def extractSample_def json_timestamp_def res_bind_error Let_def
        split: option.splits json.splits if_splits)
  show "map_wf (sa_Tags s)" if "json_Parse p now line = Inr s" for now line s
    using that by (auto simp: json_Parse_def res_bind_eq_Inr map_wf_json_tags map_wf_copy_into dest!: extractSample_Inr)
qed

interpretation json_lines: line_parser "json_Parse p" for p
  by (rule json_line_parser)

text \<open>
  The library gives as many matches as there are groups (the whole match among them).
\<close>

definition regexp_ok :: "regexp \<Rightarrow> bool" where
  "regexp_ok re \<longleftrightarrow> (\<forall>line matches. re_find re line = Some matches \<longrightarrow> length matches = length (re_names re))"

lemma regex_loop_result:
  assumes "length matches = i + length names"
  shows "regex_loop p matches i names s \<noteq> Inl Panic \<and>
    (\<forall>s'. regex_loop p matches i names s = Inr s' \<longrightarrow> map_wf (sa_Tags s) \<longrightarrow> map_wf (sa_Tags s') \<and>
      (\<forall>k. k \<notin> set (xp_TagGroups p) \<longrightarrow> lookup (sa_Tags s') k = lookup (sa_Tags s) k))"
  using assms
proof (induction names arbitrary: i s)
  case (Cons name names)
  have len: "length matches = Suc i + length names" using Cons.prems by simp
  note IH = Cons.IH [OF len]
  show ?case
  proof (cases "i = 0 \<or> name = []")
    case True
    then show ?thesis using IH [of s] by simp
  next
    case False
    have i: "\<not> length matches \<le> i" using Cons.prems by simp
    note step = regex_loop.simps(2) [of p matches i name names s] and guards = False i
    consider "name = xp_MetricGroup p" | "name \<noteq> xp_MetricGroup p" "name = xp_ValueGroup p"
      | "name \<noteq> xp_MetricGroup p" "name \<noteq> xp_ValueGroup p" "name \<in> set (xp_TagGroups p)"
      | "name \<noteq> xp_MetricGroup p" "name \<noteq> xp_ValueGroup p" "name \<notin> set (xp_TagGroups p)" by blast
    then show ?thesis
    proof cases
      case 1
      then show ?thesis using guards IH [of "s\<lparr>sa_Metric := matches ! i\<rparr>"] by (simp add: step)
    next
      case 2
      then show ?thesis
        using guards IH [of "s\<lparr>sa_Value := v\<rparr>" for v] by (cases "ParseFloat (matches ! i)") (auto simp add: step)
    next
      case 3
      then show ?thesis
        using guards IH [of "s\<lparr>sa_Tags := store (sa_Tags s) name (matches ! i)\<rparr>"] by (auto simp: step set_store_fst)
    next
      case 4
      then show ?thesis using guards IH [of s] by (simp add: step)
    qed
  qed
qed simp

lemma regex_Parse_tags:
  assumes "regexp_ok (xp_Pattern p)" and "regex_Parse p now line = Inr s"
  shows "map_wf (sa_Tags s)" and "k \<notin> set (xp_TagGroups p) \<Longrightarrow> lookup (sa_Tags s) k = lookup (copy_into [] (xp_DefaultTags p)) k"
proof -
  let ?s0 = "\<lparr>sa_Metric = [], sa_Tags = copy_into [] (xp_DefaultTags p), sa_Timestamp = 0, sa_Value = 0\<rparr>"
  obtain matches where m: "re_find (xp_Pattern p) line = Some matches" using assms(2) by (auto simp: regex_Parse_def split: option.splits)
  then have "length matches = 0 + length (re_names (xp_Pattern p))" using assms(1) by (auto simp: regexp_ok_def)
  note R = regex_loop_result [OF this, of p ?s0]
  obtain s1 where "regex_loop p matches 0 (re_names (xp_Pattern p)) ?s0 = Inr s1" "sa_Tags s = sa_Tags s1"
    using assms(2) m by (auto simp: regex_Parse_def res_bind_eq_Inr split: if_splits)
  with R show "map_wf (sa_Tags s)" "k \<notin> set (xp_TagGroups p) \<Longrightarrow> lookup (sa_Tags s) k = lookup (copy_into [] (xp_DefaultTags p)) k"
    by (auto simp: map_wf_copy_into)
qed

lemma regex_line_parser:
  assumes "regexp_ok (xp_Pattern p)"
  shows "line_parser (regex_Parse p)"
proof
  show "regex_Parse p now line \<noteq> Inl Panic" for now line
    using assms regex_loop_result [of _ 0 "re_names (xp_Pattern p)" p]
    by (auto simp: regex_Parse_def regexp_ok_def res_bind_error split: option.splits if_splits)
  show "map_wf (sa_Tags s)" if "regex_Parse p now line = Inr s" for now line s
    using regex_Parse_tags(1) [OF assms that] .
qed

text \<open>
  No line makes a regular expression parser panic.  As long as the library returns a match for every
  group, parsing a line returns an error or a sample with a metric, and every tag of the sample is either
  one of the configured groups or has the value of the default tags.
\<close>

theorem transform_regex_safe:
  assumes "regexp_ok (xp_Pattern p)" and "map_wf (xp_DefaultTags p)"
  shows "regex_Parse p now line \<noteq> Inl Panic \<and>
    (\<forall>s. regex_Parse p now line = Inr s \<longrightarrow> sa_Metric s \<noteq> [] \<and> sa_Timestamp s = word_of_int (now div 1000000) \<and>
      (\<forall>k. k \<notin> set (xp_TagGroups p) \<longrightarrow> lookup (sa_Tags s) k = lookup (xp_DefaultTags p) k))"
proof -
  have "lookup (sa_Tags s) k = lookup (xp_DefaultTags p) k" if "regex_Parse p now line = Inr s" "k \<notin> set (xp_TagGroups p)" for s k
    using regex_Parse_tags(2) [OF assms(1) that] lookup_copy_into [OF assms(2), of "[]"] by (simp add: map_add_def split: option.splits)
  then show ?thesis
    using line_parser.parse_no_panic [OF regex_line_parser [OF assms(1)]]
    by (auto simp: regex_Parse_def res_bind_eq_Inr split: option.splits if_splits)
qed

text \<open>An expression with one group \<open>m\<close> that matches a whole line.\<close>

definition ex_regex :: RegexParser where
  "ex_regex = \<lparr>xp_Pattern = \<lparr>re_names = [[], ''m''], re_find = \<lambda>line. Some [line, line]\<rparr>, xp_MetricGroup = ''m'', xp_ValueGroup = ''v'',
     xp_TagGroups = [], xp_DefaultTags = [(''h'', ''a'')]\<rparr>"

lemma transform_regex_safe_witness:
  "\<exists>s. regex_Parse ex_regex 5000000 ''cpu'' = Inr s \<and> sa_Metric s \<noteq> [] \<and> lookup (sa_Tags s) ''h'' = Some ''a''"
proof -
  have ok: "regexp_ok (xp_Pattern ex_regex)" "map_wf (xp_DefaultTags ex_regex)" by (simp_all add: ex_regex_def regexp_ok_def map_wf_def)
  obtain s where s: "regex_Parse ex_regex 5000000 ''cpu'' = Inr s" by (simp add: regex_Parse_def ex_regex_def Let_def)
  from transform_regex_safe [OF ok, of 5000000 "''cpu''"] s show ?thesis by (auto simp: ex_regex_def)
qed

subsection \<open>JSON lines that are parsed\<close>

text \<open>The members that \<^verbatim>\<open>Unmarshal\<close> keeps.\<close>

lemma unmarshal_members_lookup:
  assumes "unmarshal_members ms m = Inr data" and "distinct (map fst ms)"
  shows "lookup data k = (case lookup ms k of None \<Rightarrow> lookup m k | Some j \<Rightarrow> (case unmarshal_any j of Inr x \<Rightarrow> Some x | Inl _ \<Rightarrow> None))"
  using assms
proof (induction ms arbitrary: m)
  case (Cons kj ms)
  obtain k' j where kj: "kj = (k', j)" by (cases kj)
  obtain x where x: "unmarshal_any j = Inr x" "unmarshal_members ms (store m k' x) = Inr data"
    using Cons.prems(1) by (auto simp: kj res_bind_eq_Inr)
  have "lookup ms k' = None" using Cons.prems(2) by (simp add: kj lookup_None_iff)
  then show ?case using Cons.IH [OF x(2)] Cons.prems(2) x(1) by (auto simp: kj split: option.splits)
qed simp

lemma lookup_json_tags:
  "lookup (foldl (json_tag data) tags fs) k =
    (if k \<in> set fs \<and> lookup data k \<noteq> None then map_option format_any (lookup data k) else lookup tags k)"
  by (induction fs arbitrary: tags) (auto simp: json_tag_def split: option.splits)

text \<open>The timestamp field as it can be written: no such field for 0, else the integer as a number or as its text.\<close>

definition spells_instant :: "json option \<Rightarrow> nat \<Rightarrow> bool" where
  "spells_instant field n \<longleftrightarrow> n < 2 ^ 53 \<and>
     (case field of None \<Rightarrow> n = 0 | Some j \<Rightarrow> j = JNum (nat_str n) \<or> j = JStr (nat_str n))"

lemma trim_nat_str: "trim_space (nat_str n) = nat_str n"
proof (rule trim_space_plain)
  have "is_digit c \<Longrightarrow> \<not> is_space c" for c by (auto simp: is_digit_def is_space_def)
  moreover have "\<forall>c\<in>set (nat_str n). is_digit c" using nat_str_digits [of n] by (simp add: list_all_iff)
  ultimately show "nat_str n = [] \<or> (\<not> is_space (hd (nat_str n)) \<and> \<not> is_space (last (nat_str n)))"
    using nat_str_neq_Nil [of n] by simp
qed

lemma json_timestamp_spelt:
  assumes "unmarshal_members ms [] = Inr data" and "distinct (map fst ms)"
    and "spells_instant (if jp_TimestampField p = [] then None else lookup ms (jp_TimestampField p)) n"
  shows "json_timestamp p data = Inr (of_nat n)"
proof (cases "if jp_TimestampField p = [] then None else lookup ms (jp_TimestampField p)")
  case None
  then show ?thesis
    using assms(3) unmarshal_members_lookup [OF assms(1,2)] by (auto simp: spells_instant_def json_timestamp_def split: if_splits)
next
  case (Some j)
  then have f: "jp_TimestampField p \<noteq> []" "lookup ms (jp_TimestampField p) = Some j" by (auto split: if_splits)
  have n: "n < 2 ^ 53" and j: "j = JNum (nat_str n) \<or> j = JStr (nat_str n)" using assms(3) Some by (simp_all add: spells_instant_def)
  from j show ?thesis
  proof
    assume "j = JNum (nat_str n)"
    then have "lookup data (jp_TimestampField p) = Some (AFloat (f64_of_int (int n)))"
      using f(2) n by (simp add: unmarshal_members_lookup [OF assms(1,2)] ParseFloat_nat_str)
    then show ?thesis using f(1) n f64_to_i64_of_int [of "int n"] by (simp add: json_timestamp_def toInt64_def)
  next
    assume "j = JStr (nat_str n)"
    then have "lookup data (jp_TimestampField p) = Some (AString (nat_str n))"
      using f(2) by (simp add: unmarshal_members_lookup [OF assms(1,2)])
    then show ?thesis using f(1) n ParseInt_nat_str [of n] nat_str_neq_Nil by (simp add: json_timestamp_def toInt64_def trim_nat_str Let_def)
  qed
qed

text \<open>
  C37: A JSON line gives the sample it spells out.  Parsing the text of an object with distinct members (laid out
  anyhow by the encoder) whose numbers are in range returns: the metric from the text of its field, the value from a
  number or the text of a number, and as tags the default ones, overridden by the texts of the configured fields
  that are there.  The timestamp is the integer \<open>n\<close> that the configured timestamp field spells, as a number or as a text (for \<open>n\<close> below \<open>2 ^ 53\<close>), and the
  time of parsing in milliseconds if that is 0, if the line has no such field or if none is configured.
\<close>

theorem transform_json_line:
  assumes "json_ok (JObj ms)" and "distinct (map fst ms)" and "unmarshal_members ms [] = Inr data"
    and "lookup ms (jp_MetricField p) = Some (JStr metric)"
    and "lookup ms (jp_ValueField p) \<in> {Some (JNum num), Some (JStr num)}" and "ParseFloat num = Inr v"
    and "spells_instant (if jp_TimestampField p = [] then None else lookup ms (jp_TimestampField p)) n"
    and "map_wf (jp_DefaultTags p)"
  shows "\<exists>s. json_Parse p now (json_print i (JObj ms)) = Inr s \<and> sa_Metric s = metric \<and> sa_Value s = v \<and>
    sa_Timestamp s = (if n = 0 then word_of_int (now div 1000000) else of_nat n) \<and>
    (\<forall>k. lookup (sa_Tags s) k =
      (case (if k \<in> set (jp_TagFields p) then lookup ms k else None) of
         Some j \<Rightarrow> Some (format_any (projr (unmarshal_any j))) | None \<Rightarrow> lookup (jp_DefaultTags p) k))"
proof -
  note L = unmarshal_members_lookup [OF assms(3,2)] and t = json_timestamp_spelt [OF assms(3,2,7)]
  have "unat (of_nat n :: i64) = n" using assms(7) by (simp add: spells_instant_def unat_of_nat)
  then have n: "(of_nat n :: i64) = 0 \<longleftrightarrow> n = 0" by (simp only: unat_eq_0 [symmetric])
  have m: "lookup data (jp_MetricField p) = Some (AString metric)" using assms(4) by (simp add: L)
  obtain vr where v: "lookup data (jp_ValueField p) = Some vr" "toFloat64 vr = Inr v"
    using assms(5,6) by (auto simp: L toFloat64_def)
  have u: "unmarshal_any j = Inr (projr (unmarshal_any j))" if "lookup ms k = Some j" for k j
  proof -
    have "unmarshal_members ms m = Inr data \<Longrightarrow> (k, j) \<in> set ms \<Longrightarrow> \<exists>x. unmarshal_any j = Inr x" for m
      by (induction ms arbitrary: m) (auto simp: res_bind_eq_Inr)
    then show ?thesis using assms(2,3) that lookup_Some_iff [of ms k j] by (fastforce simp: map_wf_def)
  qed
  have "unmarshal_map (json_print i (JObj ms)) = Inr data"
    using assms(3) by (simp only: unmarshal_map_def json_roundtrip [OF assms(1)]) simp
  then have "json_Parse p now (json_print i (JObj ms)) = Inr \<lparr>sa_Metric = metric,
      sa_Tags = foldl (json_tag data) (copy_into [] (jp_DefaultTags p)) (jp_TagFields p),
      sa_Timestamp = (if n = 0 then word_of_int (now div 1000000) else of_nat n), sa_Value = v\<rparr>"
    using m v t n by (simp add: json_Parse_def extractSample_def Let_def)
  moreover have "lookup (foldl (json_tag data) (copy_into [] (jp_DefaultTags p)) (jp_TagFields p)) k =
      (case (if k \<in> set (jp_TagFields p) then lookup ms k else None) of
         Some j \<Rightarrow> Some (format_any (projr (unmarshal_any j))) | None \<Rightarrow> lookup (jp_DefaultTags p) k)" for k
    using u [of k] by (auto simp: lookup_json_tags L lookup_copy_into [OF assms(8)] map_add_def split: option.splits sum.splits)
  ultimately show ?thesis by auto
qed

definition ex_json :: JSONParser where
  "ex_json = \<lparr>jp_MetricField = ''m'', jp_ValueField = ''v'', jp_TimestampField = ''t'', jp_TagFields = [''h''], jp_DefaultTags = [(''e'', ''x'')]\<rparr>"

lemma transform_json_line_witness:
  "\<exists>s. json_Parse ex_json 5000000 (json_print 0 (JObj [(''m'', JStr ''cpu''), (''v'', JNum ''7''), (''t'', JNum ''1500''), (''h'', JStr ''a'')])) = Inr s \<and>
    sa_Metric s = ''cpu'' \<and> sa_Value s = f64_of_int 7 \<and> sa_Timestamp s = 1500 \<and> lookup (sa_Tags s) ''h'' = Some ''a''"
proof -
  let ?ms = "[(''m'', JStr ''cpu''), (''v'', JNum ''7''), (''t'', JNum ''1500''), (''h'', JStr ''a'')]"
  have digits: "nat_str 7 = ''7''" "nat_str 1500 = ''1500''" by code_simp+
  have nums: "ParseFloat ''7'' = Inr (f64_of_int 7)" "ParseFloat ''1500'' = Inr (f64_of_int 1500)"
    using ParseFloat_nat_str [of 7] ParseFloat_nat_str [of 1500] digits by simp_all
  have ok: "json_ok (JObj ?ms)" by code_simp
  have data: "unmarshal_members ?ms [] = Inr [(''m'', AString ''cpu''), (''v'', AFloat (f64_of_int 7)), (''t'', AFloat (f64_of_int 1500)), (''h'', AString ''a'')]"
    by (simp add: nums store_def)
  have t: "spells_instant (if jp_TimestampField ex_json = [] then None else lookup ?ms (jp_TimestampField ex_json)) 1500"
    by (simp add: spells_instant_def ex_json_def digits)
  from transform_json_line [OF ok _ data _ _ nums(1) t, of "''cpu''" 5000000 0]
  show ?thesis by (auto simp: ex_json_def map_wf_def)
qed

end
