(* ===== verification/Collector.thy ===== *)
theory Collector
  imports Core Go_Strconv
begin

text \<open>
  The interface of the collectors of \<^verbatim>\<open>internal/collector\<close>, and what they share: sending a sample, and reading a file of \<^verbatim>\<open>/proc\<close>
  line by line.
\<close>

subsection \<open>Stopping\<close>

text \<open>
  \<^verbatim>\<open>Stop\<close> of the interface \<^verbatim>\<open>Collector\<close> closes a channel, which panics when it is closed already.
\<close>

locale stoppable =
  fixes stop :: "'c \<Rightarrow> 'c res" and stopped :: "'c \<Rightarrow> bool"
  assumes stop_running: "\<not> stopped c \<Longrightarrow> \<exists>c'. stop c = Inr c' \<and> stopped c'"
    and stop_stopped: "stopped c \<Longrightarrow> stop c = Inl Panic"
begin

lemma stop_twice: "stop c = Inr c' \<Longrightarrow> stop c' = Inl Panic"
  using stop_running [of c] stop_stopped [of c] stop_stopped [of c'] by (cases "stopped c") auto

lemma stop_fails_iff: "isl (stop c) \<longleftrightarrow> stopped c"
  using stop_running [of c] stop_stopped [of c] by (cases "stopped c") auto

end

subsection \<open>Sending\<close>

text \<open>
  The samples a collector has sent, and the number of its turns at sending.  A clock gives for each turn
  the time, and whether the \<^verbatim>\<open>select\<close> sends the sample (and does not give up because of a cancellation).
\<close>

type_synonym clock = "nat \<Rightarrow> int \<times> bool"

record outbox =
  ob_turn :: nat
  ob_sent :: "Sample list"

definition emit :: "(string, string) gomap \<Rightarrow> clock \<Rightarrow> string \<Rightarrow> (string, string) gomap \<Rightarrow> f64 \<Rightarrow> outbox \<Rightarrow> outbox" where
  "emit defaultTags at metric extraTags value ob =
     (let tags = copy_into (copy_into [] defaultTags) extraTags; (now, takes) = at (ob_turn ob);
          sample = \<lparr>sa_Metric = metric, sa_Tags = tags, sa_Timestamp = word_of_int (now div 1000000), sa_Value = value\<rparr>
      in \<lparr>ob_turn = ob_turn ob + 1, ob_sent = (if takes then ob_sent ob @ [sample] else ob_sent ob)\<rparr>)"

text \<open>A row of samples, each a metric with its tags and value.\<close>

fun emit_all :: "(string, string) gomap \<Rightarrow> clock \<Rightarrow> (string \<times> (string, string) gomap \<times> f64) list \<Rightarrow> outbox \<Rightarrow> outbox" where
  "emit_all defaultTags at [] ob = ob"
| "emit_all defaultTags at ((metric, tags, value) # rest) ob = emit_all defaultTags at rest (emit defaultTags at metric tags value ob)"

definition f64_of_u64 :: "u64 \<Rightarrow> f64" where
  "f64_of_u64 x = f64_of_int (uint x)"

definition f64_hundred :: f64 where
  "f64_hundred = 0x4059000000000000"

text \<open>
  \<^verbatim>\<open>bufio.Scanner\<close> over a text: its lines, without newline and carriage return, up to the first that does
  not fit into 64 KiB.
\<close>

definition drop_cr :: "string \<Rightarrow> string" where
  "drop_cr s = (if s \<noteq> [] \<and> last s = CHR 0x0D then butlast s else s)"

definition scan_lines :: "string \<Rightarrow> string list" where
  "scan_lines s =
     (let ls = split_at (CHR 0x0A) s; ls = (if last ls = [] then butlast ls else ls)
      in map drop_cr (takeWhile (\<lambda>l. length l < 65536) ls))"

text \<open>The values of the samples whose metric and tags are asked for, and what a row adds to them when all are taken.\<close>

definition picked :: "(string \<Rightarrow> (string, string) gomap \<Rightarrow> bool) \<Rightarrow> Sample list \<Rightarrow> f64 list" where
  "picked P sent = map sa_Value (filter (\<lambda>s. P (sa_Metric s) (sa_Tags s)) sent)"

definition picked_rows :: "(string \<Rightarrow> (string, string) gomap \<Rightarrow> bool) \<Rightarrow> (string, string) gomap \<Rightarrow>
    (string \<times> (string, string) gomap \<times> f64) list \<Rightarrow> f64 list" where
  "picked_rows P defaults rows =
     map (snd \<circ> snd) (filter (\<lambda>(m, t, v). P m (copy_into (copy_into [] defaults) t)) rows)"

lemma picked_simps [simp]: "picked P [] = []" "picked P (xs @ ys) = picked P xs @ picked P ys"
  by (simp_all add: picked_def)

lemma picked_rows_simps [simp]:
  "picked_rows P d [] = []"
  "picked_rows P d ((m, t, v) # rows) = (if P m (copy_into (copy_into [] d) t) then v # picked_rows P d rows else picked_rows P d rows)"
  "picked_rows P d (xs @ ys) = picked_rows P d xs @ picked_rows P d ys"
  by (simp_all add: picked_rows_def)

lemma emit_all_picked:
  assumes "\<forall>i. snd (at i)"
  shows "picked P (ob_sent (emit_all d at rows ob)) = picked P (ob_sent ob) @ picked_rows P d rows"
proof (induction rows arbitrary: ob)
  case (Cons row rows)
  obtain m t v where row: "row = (m, t, v)" by (metis prod_cases3)
  have "snd (at (ob_turn ob))" using assms by blast
  then have "picked P (ob_sent (emit d at m t v ob)) = picked P (ob_sent ob) @ (if P m (copy_into (copy_into [] d) t) then [v] else [])"
    by (cases "at (ob_turn ob)") (simp add: emit_def Let_def picked_def)
  then show ?case using Cons.IH by (simp add: row)
qed simp

lemma emit_emit_all: "emit d at m t v ob = emit_all d at [(m, t, v)] ob"
  by simp

end
