(* ===== verification/File_Tailer.thy ===== *)
theory File_Tailer
  imports Transform Collector
begin

text \<open>
  \<^verbatim>\<open>internal/collector/file_tailer.go\<close>: polling a file and parsing the lines that have been added.  What
  the operating system answers in a poll is given with the poll: the status, and what the file holds
  when it is opened.  The lemmas show that a file that grows by whole lines is read line by line,
  each once, and what becomes of a line that is only half written.
\<close>

abbreviation newline :: char where "newline \<equiv> CHR 0x0A"

record FileTailer =
  ft_path :: string
  ft_parse :: "int \<Rightarrow> string \<Rightarrow> Sample res"
  ft_pollInterval :: int
  ft_defaultTags :: "(string, string) gomap"
  ft_stopped :: bool

definition NewFileTailer :: "string \<Rightarrow> (int \<Rightarrow> string \<Rightarrow> Sample res) \<Rightarrow> int \<Rightarrow> (string, string) gomap \<Rightarrow> FileTailer" where
  "NewFileTailer path parse pollInterval defaultTags =
     \<lparr>ft_path = path, ft_parse = parse, ft_pollInterval = pollInterval, ft_defaultTags = defaultTags, ft_stopped = False\<rparr>"

definition tailer_Stop :: "FileTailer \<Rightarrow> FileTailer res" where
  "tailer_Stop f = (if ft_stopped f then Inl Panic else Inr (f\<lparr>ft_stopped := True\<rparr>))"

interpretation tailer_stops: stoppable tailer_Stop ft_stopped
  by unfold_locales (simp_all add: tailer_Stop_def)

definition trimNewline :: "string \<Rightarrow> string" where
  "trimNewline s =
     (let s = (if s \<noteq> [] \<and> last s = newline then butlast s else s) in
      if s \<noteq> [] \<and> last s = CHR 0x0D then butlast s else s)"

subsection \<open>Reading\<close>

text \<open>The tags of the tailer are added where the sample has none.\<close>

definition add_missing :: "(string, string) gomap \<Rightarrow> (string, string) gomap \<Rightarrow> (string, string) gomap" where
  "add_missing defaults tags = foldl (\<lambda>tags (k, v). if lookup tags k = None then store tags k v else tags) tags defaults"

definition with_defaults :: "FileTailer \<Rightarrow> Sample \<Rightarrow> Sample" where
  "with_defaults f sample = sample\<lparr>sa_Tags := add_missing (ft_defaultTags f) (sa_Tags sample)\<rparr>"

text \<open>What a line gives: nothing, or a sample.\<close>

definition line_sample :: "FileTailer \<Rightarrow> int \<Rightarrow> string \<Rightarrow> Sample option res" where
  "line_sample f now raw =
     (let line = trimNewline raw in
      if line = [] then Inr None
      else case ft_parse f now line of
        Inl err \<Rightarrow> if err = Panic then Inl Panic else Inr None
      | Inr sample \<Rightarrow> Inr (Some (with_defaults f sample)))"

text \<open>
  The loop of \<^verbatim>\<open>readNewLines\<close> over what is left of the file, which ends with \<open>final\<close> (the end of the file, or
  an error).  \<open>at i\<close> is the time of the line \<open>i\<close>, and whether the \<^verbatim>\<open>select\<close> sends its sample.
\<close>

function read_lines :: "FileTailer \<Rightarrow> (nat \<Rightarrow> int \<times> bool) \<Rightarrow> go_error \<Rightarrow> nat \<Rightarrow> string \<Rightarrow> Sample list \<Rightarrow>
    (Sample list \<times> go_error option) res" where
  "read_lines f at final i rest out =
     (if newline \<in> set rest then
        let line = takeWhile (\<lambda>c. c \<noteq> newline) rest @ [newline]; rest = drop (length line) rest in
        (case line_sample f (fst (at i)) line of
           Inl err \<Rightarrow> Inl err
         | Inr None \<Rightarrow> read_lines f at final (i + 1) rest out
         | Inr (Some sample) \<Rightarrow>
             if snd (at i) then read_lines f at final (i + 1) rest (out @ [sample]) else Inr (out, None))
      else if rest = [] then Inr (out, if final = EOF then None else Some final)
      else
        (case line_sample f (fst (at i)) rest of
           Inl err \<Rightarrow> Inl err
         | Inr None \<Rightarrow> Inr (out, None)
         | Inr (Some sample) \<Rightarrow> Inr (if snd (at i) then out @ [sample] else out, None)))"
  by pat_completeness auto
termination
  by (relation "measure (\<lambda>(f, at, final, i, rest, out). length rest)") (auto dest: length_pos_if_in_set)

declare read_lines.simps [simp del]

text \<open>What a poll meets: the status (size and inode), the contents when the file is opened, the clock.\<close>

record poll =
  po_stat :: "(i64 \<times> u64) res"
  po_open :: "string res"
  po_final :: go_error
  po_at :: "nat \<Rightarrow> int \<times> bool"

definition readNewLines :: "FileTailer \<Rightarrow> poll \<Rightarrow> i64 \<Rightarrow> Sample list \<Rightarrow> (Sample list \<times> go_error option) res" where
  "readNewLines f po offset out =
     (case po_open po of
        Inl err \<Rightarrow> Inr (out, Some err)
      | Inr content \<Rightarrow>
          if sint offset < 0 then Inr (out, Some ErrIO)
          else read_lines f (po_at po) (po_final po) 0 (drop (nat (sint offset)) content) out)"

subsection \<open>Polling\<close>

record tail_state =
  tl_lastSize :: i64
  tl_lastIno :: u64
  tl_initialSkip :: bool

definition tail_start :: tail_state where
  "tail_start = \<lparr>tl_lastSize = 0, tl_lastIno = 0, tl_initialSkip = True\<rparr>"

text \<open>A turn of the loop of \<^verbatim>\<open>Run\<close> up to its \<^verbatim>\<open>select\<close>.\<close>

definition tail_poll :: "FileTailer \<Rightarrow> poll \<Rightarrow> tail_state \<Rightarrow> Sample list \<Rightarrow> (tail_state \<times> Sample list) res" where
  "tail_poll f po t out =
     (case po_stat po of
        Inl err \<Rightarrow> Inr (t, out)
      | Inr (newSize, newIno) \<Rightarrow>
          let t = (if newIno \<noteq> tl_lastIno t \<or> sint newSize < sint (tl_lastSize t)
                   then t\<lparr>tl_lastSize := 0, tl_lastIno := newIno\<rparr> else t) in
          if tl_initialSkip t then Inr (t\<lparr>tl_initialSkip := False, tl_lastSize := newSize\<rparr>, out)
          else if sint newSize > sint (tl_lastSize t) then
            res_bind (readNewLines f po (tl_lastSize t) out) (\<lambda>(out, err). Inr (t\<lparr>tl_lastSize := newSize\<rparr>, out))
          else Inr (t, out))"

text \<open>\<^verbatim>\<open>Run\<close> until it is cancelled: one poll after the other.  A ticker of no positive interval panics.\<close>

fun tail_polls :: "FileTailer \<Rightarrow> poll list \<Rightarrow> tail_state \<Rightarrow> Sample list \<Rightarrow> (tail_state \<times> Sample list) res" where
  "tail_polls f [] t out = Inr (t, out)"
| "tail_polls f (po # pos) t out = res_bind (tail_poll f po t out) (\<lambda>(t, out). tail_polls f pos t out)"

definition tailer_Run :: "FileTailer \<Rightarrow> poll list \<Rightarrow> Sample list \<Rightarrow> Sample list res" where
  "tailer_Run f pos out =
     (let f = (if ft_pollInterval f = 0 then f\<lparr>ft_pollInterval := 1000000000\<rparr> else f) in
      if ft_pollInterval f < 0 then Inl Panic
      else res_bind (tail_polls f pos tail_start out) (\<lambda>(t, out). Inr out))"

subsection \<open>Parsers that keep their promise\<close>

lemma lookup_add_missing: "map_wf defaults \<Longrightarrow> lookup (add_missing defaults tags) = lookup defaults ++ lookup tags"
proof (induction defaults arbitrary: tags)
  case (Cons kv ds)
  obtain k v where kv: "kv = (k, v)" by (cases kv)
  have ds: "map_wf ds" "lookup ds k = None" using Cons.prems by (simp_all add: kv map_wf_def lookup_None_iff)
  show ?case using Cons.IH [OF ds(1)] ds(2) by (auto simp: kv fun_eq_iff map_add_def add_missing_def split: option.splits)
qed (simp add: map_add_def fun_eq_iff add_missing_def split: option.split)

context line_parser
begin

lemma line_sample_ok: "ft_parse f = parse \<Longrightarrow> line_sample f now raw \<noteq> Inl err"
  using parse_no_panic by (auto simp: line_sample_def Let_def split: sum.splits)

lemma read_lines_ok: "ft_parse f = parse \<Longrightarrow> read_lines f at final i rest out \<noteq> Inl err"
proof (induction f at final i rest out rule: read_lines.induct)
  case (1 f at final i rest out)
  then show ?case
    using line_sample_ok [OF 1(3)] by (subst read_lines.simps) (auto simp: Let_def split: sum.splits option.splits)
qed

lemma tail_polls_ok: "ft_parse f = parse \<Longrightarrow> \<exists>t' out'. tail_polls f pos t out = Inr (t', out')"
proof (induction pos arbitrary: t out)
  case (Cons po pos)
  have "\<exists>t1 out1. tail_poll f po t out = Inr (t1, out1)"
  proof (cases "tail_poll f po t out")
    case (Inl err)
    then show ?thesis
      using read_lines_ok [OF Cons.prems]
      by (auto simp: tail_poll_def Let_def readNewLines_def res_bind_error split: sum.splits prod.splits if_splits)
  qed auto
  then show ?case using Cons by auto
qed simp

end

lemma tailer_json_no_panic: "ft_parse f = json_Parse p \<Longrightarrow> 0 \<le> ft_pollInterval f \<Longrightarrow> tailer_Run f pos out \<noteq> Inl err"
  using json_lines.tail_polls_ok [of "f\<lparr>ft_pollInterval := 1000000000\<rparr>" p pos tail_start out]
    json_lines.tail_polls_ok [of f p pos tail_start out]
  by (auto simp: tailer_Run_def Let_def)

subsection \<open>Whole lines\<close>

definition whole_lines :: "string \<Rightarrow> bool" where
  "whole_lines s \<longleftrightarrow> s = [] \<or> last s = newline"

text \<open>The lines of a text, with their newlines; a rest without one is none.\<close>

function raw_lines :: "string \<Rightarrow> string list" where
  "raw_lines s =
     (if newline \<in> set s then
        let line = takeWhile (\<lambda>c. c \<noteq> newline) s @ [newline] in line # raw_lines (drop (length line) s)
      else [])"
  by pat_completeness auto
termination by (relation "measure length") (auto dest: length_pos_if_in_set)

declare raw_lines.simps [simp del]

fun samples_of :: "FileTailer \<Rightarrow> (nat \<Rightarrow> int \<times> bool) \<Rightarrow> nat \<Rightarrow> string list \<Rightarrow> Sample list" where
  "samples_of f at i [] = []"
| "samples_of f at i (l # ls) =
     (case line_sample f (fst (at i)) l of Inr (Some sample) \<Rightarrow> [sample] | _ \<Rightarrow> []) @ samples_of f at (i + 1) ls"

lemma raw_lines_line: "newline \<notin> set a \<Longrightarrow> raw_lines (a @ newline # b) = (a @ [newline]) # raw_lines b"
proof -
  assume "newline \<notin> set a"
  then have "takeWhile (\<lambda>c. c \<noteq> newline) (a @ newline # b) = a" by (induction a) auto
  then show ?thesis by (simp add: raw_lines.simps [of "a @ newline # b"] Let_def)
qed

lemma whole_lines_cases:
  assumes "whole_lines s"
  obtains "s = []" | a b where "s = a @ newline # b" "newline \<notin> set a" "whole_lines b"
proof (cases "s = []")
  case False
  then have "newline \<in> set s" using assms last_in_set [of s] by (auto simp: whole_lines_def)
  then obtain a b where ab: "s = a @ newline # b" "newline \<notin> set a" using split_list_first by metis
  show thesis by (rule that(2) [OF ab]) (use assms ab in \<open>auto simp: whole_lines_def split: if_splits\<close>)
qed (use that(1) in simp)

lemma raw_lines_append: "whole_lines a \<Longrightarrow> raw_lines (a @ b) = raw_lines a @ raw_lines b"
proof (induction "length a" arbitrary: a rule: less_induct)
  case less
  from less.prems show ?case
  proof (cases rule: whole_lines_cases)
    case 1
    then show ?thesis by (simp add: raw_lines.simps [of "[]"])
  next
    case (2 x y)
    then show ?thesis using less.hyps [of y] by (simp add: raw_lines_line)
  qed
qed

lemma read_lines_all:
  assumes "line_parser (ft_parse f)" and "\<forall>i. snd (at i)" and "whole_lines rest"
  shows "read_lines f at EOF i rest out = Inr (out @ samples_of f at i (raw_lines rest), None)"
  using assms(3)
proof (induction "length rest" arbitrary: rest i out rule: less_induct)
  case less
  from less.prems show ?case
  proof (cases rule: whole_lines_cases)
    case 1
    then show ?thesis by (simp add: read_lines.simps raw_lines.simps [of "[]"])
  next
    case (2 a b)
    have first: "takeWhile (\<lambda>c. c \<noteq> newline) (a @ newline # b) = a" using 2(2) by (induction a) auto
    have IH: "read_lines f at EOF (i + 1) b out' = Inr (out' @ samples_of f at (i + 1) (raw_lines b), None)" for out'
      using less.hyps [of b] 2 by simp
    obtain r where "line_sample f (fst (at i)) (a @ [newline]) = Inr r"
      using line_parser.line_sample_ok [OF assms(1), of f] by (cases "line_sample f (fst (at i)) (a @ [newline])") auto
    then show ?thesis
      using IH assms(2) by (simp add: read_lines.simps [of f at EOF i] 2 first Let_def raw_lines_line split: option.split)
  qed
qed

subsection \<open>A file that grows\<close>

text \<open>
  The polls of a file that is only appended to, by whole lines, and not while it is read: \<open>c\<close> is what it held
  before.  Every sample is taken.
\<close>

fun growing :: "u64 \<Rightarrow> string \<Rightarrow> poll list \<Rightarrow> bool" where
  "growing ino c [] \<longleftrightarrow> True"
| "growing ino c (po # pos) \<longleftrightarrow>
     (case po_open po of
        Inl _ \<Rightarrow> False
      | Inr c' \<Rightarrow> po_stat po = Inr (of_nat (length c'), ino) \<and> po_final po = EOF \<and> (\<forall>i. snd (po_at po i)) \<and>
          take (length c) c' = c \<and> whole_lines c' \<and> length c' < 2 ^ 63 \<and> growing ino c' pos)"

fun final_content :: "string \<Rightarrow> poll list \<Rightarrow> string" where
  "final_content c [] = c"
| "final_content c (po # pos) = final_content (case po_open po of Inr c' \<Rightarrow> c' | Inl _ \<Rightarrow> c) pos"

lemma sint_length: "n < 2 ^ 63 \<Longrightarrow> sint (of_nat n :: i64) = int n"
  using sint_of_int [of "int n"] by simp

lemma tail_poll_grown:
  assumes "line_parser (ft_parse f)" and "growing ino c (po # pos)" and "whole_lines c" and "length c < 2 ^ 63"
    and "po_open po = Inr c'"
  shows "tail_poll f po \<lparr>tl_lastSize = of_nat (length c), tl_lastIno = ino, tl_initialSkip = False\<rparr> out =
    Inr (\<lparr>tl_lastSize = of_nat (length c'), tl_lastIno = ino, tl_initialSkip = False\<rparr>,
      out @ samples_of f (po_at po) 0 (raw_lines (drop (length c) c')))"
proof -
  have g: "po_stat po = Inr (of_nat (length c'), ino)" "po_final po = EOF" "\<forall>i. snd (po_at po i)" "take (length c) c' = c"
    "whole_lines c'" "length c' < 2 ^ 63" using assms(2,5) by simp_all
  have le: "length c \<le> length c'" using g(4) by (metis length_take min.absorb_iff2 min.commute)
  note sizes = sint_length [OF assms(4)] sint_length [OF g(6)]
  show ?thesis
  proof (cases "length c < length c'")
    case True
    have rest: "whole_lines (drop (length c) c')" using g(5) True by (auto simp: whole_lines_def)
    show ?thesis using True sizes g(1,2) assms(5) read_lines_all [OF assms(1) g(3) rest]
      by (simp add: tail_poll_def readNewLines_def Let_def)
  next
    case False
    then have "length c' = length c" using le by simp
    then show ?thesis using sizes g(1) by (simp add: tail_poll_def Let_def raw_lines.simps [of "[]"])
  qed
qed

lemma tail_polls_grown:
  assumes "line_parser (ft_parse f)" and "growing ino c pos" and "whole_lines c" and "length c < 2 ^ 63"
  shows "\<exists>segs t. length segs = length pos \<and> concat segs = raw_lines (drop (length c) (final_content c pos)) \<and>
    take (length c) (final_content c pos) = c \<and>
    tail_polls f pos \<lparr>tl_lastSize = of_nat (length c), tl_lastIno = ino, tl_initialSkip = False\<rparr> out =
      Inr (t, out @ concat (map2 (\<lambda>po ls. samples_of f (po_at po) 0 ls) pos segs))"
  using assms(2-4)
proof (induction pos arbitrary: c out)
  case Nil
  show ?case by (rule exI [of _ "[]"]) (simp add: raw_lines.simps [of "[]"])
next
  case (Cons po pos)
  obtain c' where c': "po_open po = Inr c'" using Cons.prems(1) by (auto split: sum.splits)
  then have g: "take (length c) c' = c" "whole_lines c'" "length c' < 2 ^ 63" "growing ino c' pos" using Cons.prems(1) by simp_all
  let ?seg = "raw_lines (drop (length c) c')"
  obtain segs t where IH: "length segs = length pos" "concat segs = raw_lines (drop (length c') (final_content c' pos))"
    "take (length c') (final_content c' pos) = c'"
    "tail_polls f pos \<lparr>tl_lastSize = of_nat (length c'), tl_lastIno = ino, tl_initialSkip = False\<rparr> (out @ samples_of f (po_at po) 0 ?seg) =
      Inr (t, (out @ samples_of f (po_at po) 0 ?seg) @ concat (map2 (\<lambda>po ls. samples_of f (po_at po) 0 ls) pos segs))"
    using Cons.IH [OF g(4,2,3)] by blast
  obtain d where d: "final_content c' pos = c' @ d" using IH(3) by (metis append_take_drop_id)
  obtain b where b: "c' = c @ b" using g(1) by (metis append_take_drop_id)
  have "whole_lines b" using g(2) b by (cases "b = []") (simp_all add: whole_lines_def)
  then have "raw_lines (b @ d) = raw_lines b @ raw_lines d" by (rule raw_lines_append)
  then have "concat (?seg # segs) = raw_lines (drop (length c) (final_content c (po # pos)))"
    using IH(2) by (simp add: c' d) (simp add: b)
  moreover have "take (length c) (final_content c (po # pos)) = c" by (simp add: c' d) (simp add: b)
  moreover note tail_poll_grown [OF assms(1) Cons.prems c', of out]
  ultimately show ?case using IH(1,4) by (intro exI [of _ "?seg # segs"] exI [of _ t]) simp
qed

lemma line_sample_interval [simp]: "line_sample (f\<lparr>ft_pollInterval := d\<rparr>) now raw = line_sample f now raw"
  by (auto simp: line_sample_def Let_def with_defaults_def split: sum.split)

lemma samples_of_interval [simp]: "samples_of (f\<lparr>ft_pollInterval := d\<rparr>) at i ls = samples_of f at i ls"
  by (induction ls arbitrary: i) simp_all

text \<open>
  C33: A file that grows by whole lines is read exactly once.  If the file holds whole lines at the first
  poll, is from then on only appended to, by whole lines and not while it is read, every sample is
  taken, and the interval of the polls is not negative, then the tailer never panics and sends, in order, the samples of exactly the lines that were
  added after the first poll, each once: the lines of the polls put together are the lines of the added
  text.
\<close>

theorem tailer_reads_once:
  assumes "line_parser (ft_parse f)" and "0 \<le> ft_pollInterval f" and "po_stat po = Inr (of_nat (length c), ino)"
    and "whole_lines c" and "length c < 2 ^ 63" and "growing ino c pos"
  shows "\<exists>segs. length segs = length pos \<and> concat segs = raw_lines (drop (length c) (final_content c pos)) \<and>
    tailer_Run f (po # pos) [] = Inr (concat (map2 (\<lambda>po ls. samples_of f (po_at po) 0 ls) pos segs))"
proof -
  let ?f = "if ft_pollInterval f = 0 then f\<lparr>ft_pollInterval := 1000000000\<rparr> else f"
  have lp: "line_parser (ft_parse ?f)" using assms(1) by simp
  have first: "tail_poll ?f po tail_start [] = Inr (\<lparr>tl_lastSize = of_nat (length c), tl_lastIno = ino, tl_initialSkip = False\<rparr>, [])"
    using sint_length [OF assms(5)] by (simp add: tail_poll_def assms(3) tail_start_def Let_def)
  from tail_polls_grown [OF lp assms(6,4,5), of "[]"] obtain segs t where
    "length segs = length pos" "concat segs = raw_lines (drop (length c) (final_content c pos))"
    "tail_polls ?f pos \<lparr>tl_lastSize = of_nat (length c), tl_lastIno = ino, tl_initialSkip = False\<rparr> [] =
      Inr (t, concat (map2 (\<lambda>po ls. samples_of ?f (po_at po) 0 ls) pos segs))" by auto
  moreover have "samples_of ?f = samples_of f" by (auto simp: fun_eq_iff)
  ultimately show ?thesis using first assms(2) by (intro exI [of _ segs]) (simp add: tailer_Run_def Let_def)
qed

definition ex_poll :: "string \<Rightarrow> poll" where
  "ex_poll c = \<lparr>po_stat = Inr (of_nat (length c), 5), po_open = Inr c, po_final = EOF, po_at = \<lambda>i. (0, True)\<rparr>"

lemma tailer_reads_once_witness:
  "\<exists>segs. concat segs = [''a'' @ [newline], ''b'' @ [newline]] \<and>
    tailer_Run (NewFileTailer ''f'' (json_Parse ex_json) 0 []) [ex_poll [], ex_poll (''a'' @ [newline]), ex_poll (''a'' @ [newline, CHR ''b'', newline])] [] =
      Inr (concat (map2 (\<lambda>po ls. samples_of (NewFileTailer ''f'' (json_Parse ex_json) 0 []) (po_at po) 0 ls)
        [ex_poll (''a'' @ [newline]), ex_poll (''a'' @ [newline, CHR ''b'', newline])] segs))"
proof -
  let ?f = "NewFileTailer ''f'' (json_Parse ex_json) 0 []" and ?c1 = "''a'' @ [newline]" and ?c2 = "''a'' @ [newline, CHR ''b'', newline]"
  have p: "line_parser (ft_parse ?f)" "0 \<le> ft_pollInterval ?f" by (simp_all add: NewFileTailer_def json_line_parser)
  have s: "po_stat (ex_poll []) = Inr (of_nat (length ([] :: string)), 5)" "whole_lines []" "length ([] :: string) < 2 ^ 63"
    by (simp_all add: ex_poll_def whole_lines_def)
  have g: "growing 5 [] [ex_poll ?c1, ex_poll ?c2]" by (simp add: ex_poll_def whole_lines_def)
  have l: "raw_lines ?c2 = [''a'' @ [newline], ''b'' @ [newline]]"
    using raw_lines_line [of "''a''" "[CHR ''b'', newline]"] raw_lines_line [of "''b''" "[]"] by (simp add: raw_lines.simps [of "[]"])
  from tailer_reads_once [OF p s g] l show ?thesis by (simp add: ex_poll_def) blast
qed

end
