(* ===== verification/Statsd.thy ===== *)
theory Statsd
  imports Collector
begin

text \<open>
  \<^verbatim>\<open>internal/collector/statsd.go\<close>: the listener for StatsD packets.  The socket is the environment: what
  each turn of the loop finds is an event.  The lemmas show that a line of the format reads back as
  the sample it describes, and that no text makes the parser fail other than by an error.
\<close>

subsection \<open>A line\<close>

definition f64_one :: f64 where
  "f64_one = 0x3FF0000000000000"

definition statsd_tag :: "(string, string) gomap \<Rightarrow> string \<Rightarrow> (string, string) gomap" where
  "statsd_tag tags tag =
     (let kv = split_n (CHR '':'') 2 (trim_space tag) in
      if length kv = 2 then store tags (kv ! 0) (kv ! 1)
      else if length kv = 1 \<and> kv ! 0 \<noteq> [] then store tags (kv ! 0) ''true''
      else tags)"

text \<open>One of the fields behind the type: the sample rate or the tags.\<close>

definition statsd_field :: "f64 \<times> (string, string) gomap \<Rightarrow> string \<Rightarrow> f64 \<times> (string, string) gomap" where
  "statsd_field acc f =
     (case acc of (rate, tags) \<Rightarrow>
        if has_prefix f ''@'' then
          (case ParseFloat (drop 1 f) of
             Inr r \<Rightarrow> if f64_lt 0 r then (r, tags) else (rate, tags)
           | Inl _ \<Rightarrow> (rate, tags))
        else if has_prefix f ''#'' then (rate, foldl statsd_tag tags (split_at (CHR '','') (drop 1 f)))
        else (rate, tags))"

text \<open>\<^verbatim>\<open>parseStatsDLine\<close>; \<open>now\<close> is the time in nanoseconds.\<close>

definition parseStatsDLine :: "int \<Rightarrow> string \<Rightarrow> (string, string) gomap \<Rightarrow> Sample res" where
  "parseStatsDLine now line defaultTags =
     (let parts = split_n (CHR '':'') 2 line in
      if length parts \<noteq> 2 then Inl ErrFormat
      else
        let metric = parts ! 0; fs = split_n (CHR ''|'') 4 (parts ! 1) in
        if length fs < 2 then Inl ErrFormat
        else
          let valueStr = fs ! 0; metricType = fs ! 1 in
          res_bind (ParseFloat valueStr) (\<lambda>value.
            let (rate, tags) = foldl statsd_field (f64_one, copy_into [] defaultTags) (drop 2 fs) in
            res_bind (if metricType = ''g'' then Inr value
                      else if metricType = ''c'' \<or> metricType = ''ms'' \<or> metricType = ''h'' then Inr (f64_div value rate)
                      else Inl ErrFormat) (\<lambda>adjusted.
              let sampleMetric = (if metricType = ''ms'' \<or> metricType = ''h'' then metric @ ''.'' @ metricType else metric)
              in Inr \<lparr>sa_Metric = sampleMetric, sa_Tags = tags, sa_Timestamp = word_of_int (now div 1000000), sa_Value = adjusted\<rparr>)))"

subsection \<open>The listener\<close>

record StatsDListener =
  sd_addr :: string
  sd_defaultTags :: "(string, string) gomap"
  sd_stopped :: bool

definition NewStatsDListener :: "string \<Rightarrow> (string, string) gomap \<Rightarrow> StatsDListener" where
  "NewStatsDListener addr defaultTags =
     \<lparr>sd_addr = (if addr = [] then '':8125'' else addr), sd_defaultTags = defaultTags, sd_stopped = False\<rparr>"

text \<open>Closing a channel twice panics.\<close>

definition statsd_Stop :: "StatsDListener \<Rightarrow> StatsDListener res" where
  "statsd_Stop s = (if sd_stopped s then Inl Panic else Inr (s\<lparr>sd_stopped := True\<rparr>))"

interpretation statsd_stops: stoppable statsd_Stop sd_stopped
  by unfold_locales (simp_all add: statsd_Stop_def)

text \<open>
  \<^verbatim>\<open>handleLine\<close>: \<open>takes\<close> tells whether the \<^verbatim>\<open>select\<close> sends the sample (and not gives up because of a
  cancellation); \<open>out\<close> is what has been sent.
\<close>

definition statsd_handleLine :: "StatsDListener \<Rightarrow> int \<Rightarrow> bool \<Rightarrow> string \<Rightarrow> Sample list \<Rightarrow> Sample list" where
  "statsd_handleLine s now takes line out =
     (let line = trim_space line in
      if line = [] then out
      else case parseStatsDLine now line (sd_defaultTags s) of
        Inl _ \<Rightarrow> out
      | Inr sample \<Rightarrow> if takes then out @ [sample] else out)"

text \<open>The lines of a packet, each at its own time.\<close>

fun statsd_lines :: "StatsDListener \<Rightarrow> (nat \<Rightarrow> int \<times> bool) \<Rightarrow> nat \<Rightarrow> string list \<Rightarrow> Sample list \<Rightarrow> Sample list" where
  "statsd_lines s at i [] out = out"
| "statsd_lines s at i (part # parts) out =
     (case at i of (now, takes) \<Rightarrow> statsd_lines s at (i + 1) parts (statsd_handleLine s now takes part out))"

text \<open>What a turn of the loop of \<^verbatim>\<open>Run\<close> meets: a cancellation, a timeout, an error, or a packet.\<close>

datatype statsd_event = StatsdCancelled | StatsdTimeout | StatsdError go_error | StatsdPacket string "nat \<Rightarrow> int \<times> bool"

definition statsd_buf :: nat where
  "statsd_buf = 65535"

text \<open>\<^verbatim>\<open>Run\<close> after it has its socket: what is sent, and \<open>Some\<close> of the returned error once it has returned.\<close>

fun statsd_loop :: "StatsDListener \<Rightarrow> statsd_event list \<Rightarrow> Sample list \<Rightarrow> Sample list \<times> go_error option option" where
  "statsd_loop s [] out = (out, None)"
| "statsd_loop s (StatsdCancelled # evs) out = (out, Some None)"
| "statsd_loop s (StatsdTimeout # evs) out = statsd_loop s evs out"
| "statsd_loop s (StatsdError err # evs) out = (out, Some (Some err))"
| "statsd_loop s (StatsdPacket data at # evs) out =
     (let line = trim_space (take statsd_buf data) in
      if line = [] then statsd_loop s evs out
      else statsd_loop s evs (statsd_lines s at 0 (split_at (CHR 0x0A) line) out))"

definition statsd_Run :: "StatsDListener \<Rightarrow> go_error option \<Rightarrow> statsd_event list \<Rightarrow> Sample list \<Rightarrow> Sample list \<times> go_error option option" where
  "statsd_Run s listenErr evs out =
     (case listenErr of Some err \<Rightarrow> (out, Some (Some err)) | None \<Rightarrow> statsd_loop s evs out)"

subsection \<open>Lines of the format\<close>

text \<open>The text of a metric, value, type, and optional rate and tags.\<close>

fun join_with :: "string \<Rightarrow> string list \<Rightarrow> string" where
  "join_with sep [] = []"
| "join_with sep [x] = x"
| "join_with sep (x # y # xs) = x @ sep @ join_with sep (y # xs)"

definition statsd_line :: "string \<Rightarrow> string \<Rightarrow> string \<Rightarrow> string option \<Rightarrow> (string \<times> string) list \<Rightarrow> string" where
  "statsd_line metric value typ rate tags =
     metric @ '':'' @ value @ ''|'' @ typ @ (case rate of None \<Rightarrow> [] | Some r \<Rightarrow> ''|@'' @ r) @
     (if tags = [] then [] else ''|#'' @ join_with '','' (map (\<lambda>(k, v). k @ '':'' @ v) tags))"

lemma join_with_Cons: "join_with sep (x # xs) = x @ concat (map (\<lambda>y. sep @ y) xs)"
  by (induction xs arbitrary: x) simp_all

lemma split_at_join:
  assumes "xs \<noteq> []" and "\<forall>x\<in>set xs. c \<notin> set x"
  shows "split_at c (join_with [c] xs) = xs"
proof (cases xs)
  case (Cons x ys)
  then show ?thesis using split_at_pieces [of x ys c] assms(2) by (simp add: join_with_Cons)
qed (use assms(1) in simp)

text \<open>A tag that can be told from its neighbours: no separator inside, no white space around.\<close>

definition statsd_tag_ok :: "string \<times> string \<Rightarrow> bool" where
  "statsd_tag_ok kv \<longleftrightarrow> (case kv of (k, v) \<Rightarrow> set (k @ v) \<inter> {CHR '','', CHR ''|''} = {} \<and> CHR '':'' \<notin> set k \<and>
     (\<forall>c\<in>set (k @ v). \<not> is_space c))"

lemma statsd_tag_pair: "statsd_tag_ok (k, v) \<Longrightarrow> statsd_tag tags (k @ '':'' @ v) = store tags k v"
proof -
  assume ok: "statsd_tag_ok (k, v)"
  have "\<not> is_space (CHR '':'')" by code_simp
  then have "trim_space (k @ '':'' @ v) = k @ '':'' @ v"
    using ok by (intro trim_space_plain) (auto simp: statsd_tag_ok_def hd_append last_append)
  then show ?thesis using ok split_n_here [of "CHR '':''" k 0 v] by (simp add: statsd_tag_def statsd_tag_ok_def numeral_2_eq_2)
qed

lemma foldl_statsd_tag: "\<forall>kv\<in>set kvs. statsd_tag_ok kv \<Longrightarrow> foldl statsd_tag tags (map (\<lambda>(k, v). k @ '':'' @ v) kvs) = copy_into tags kvs"
  by (induction kvs arbitrary: tags) (auto simp: statsd_tag_pair [simplified])

lemma split_n_join:
  assumes "xs \<noteq> []" and "length xs \<le> n" and "\<forall>x\<in>set xs. c \<notin> set x"
  shows "split_n c n (join_with [c] xs) = xs"
  using assms
proof (induction xs arbitrary: n)
  case (Cons x xs)
  show ?case
  proof (cases xs)
    case Nil
    then show ?thesis using Cons.prems by (cases n) (simp_all add: split_n_none)
  next
    case (Cons y ys)
    obtain d where "n = length (x # xs) + d" using le_Suc_ex [OF Cons.prems(2)] by blast
    then obtain k where n: "n = Suc (Suc k)" using Cons by simp
    show ?thesis using Cons.IH [of "Suc k"] Cons.prems Cons by (simp add: n split_n_here del: split_n.simps)
  qed
qed simp

text \<open>The rate that a line states.\<close>

definition rate_of :: "string option \<Rightarrow> f64" where
  "rate_of rate = (case rate of None \<Rightarrow> f64_one | Some r \<Rightarrow> (case ParseFloat r of Inr x \<Rightarrow> x | Inl _ \<Rightarrow> f64_one))"

lemma statsd_field_rate: "ParseFloat r = Inr x \<Longrightarrow> f64_lt 0 x \<Longrightarrow> statsd_field (q, tags) (CHR ''@'' # r) = (x, tags)"
  by (simp add: statsd_field_def has_prefix_def)

lemma statsd_field_tags:
  assumes "kvs \<noteq> []" and "\<forall>kv\<in>set kvs. statsd_tag_ok kv"
  shows "statsd_field (q, tags) (CHR ''#'' # join_with '','' (map (\<lambda>(k, v). k @ '':'' @ v) kvs)) = (q, copy_into tags kvs)"
proof -
  have "split_at (CHR '','') (join_with '','' (map (\<lambda>(k, v). k @ '':'' @ v) kvs)) = map (\<lambda>(k, v). k @ '':'' @ v) kvs"
    using assms by (intro split_at_join) (auto simp: statsd_tag_ok_def)
  then show ?thesis using foldl_statsd_tag [OF assms(2)] by (simp add: statsd_field_def has_prefix_def)
qed

text \<open>
  C36: A StatsD line reads back.  A line with a metric, a value that is a number, one of the four types,
  possibly a positive rate and possibly tags gives the sample that it describes: the value as it is for
  a gauge and divided by the rate otherwise, the type behind the metric of a timer or histogram, the
  default tags overridden by those of the line, at the time of parsing.
\<close>

theorem statsd_line_parses:
  assumes "CHR '':'' \<notin> set metric" and "CHR ''|'' \<notin> set value" and "ParseFloat value = Inr v"
    and "typ \<in> {''g'', ''c'', ''ms'', ''h''}"
    and "case rate of None \<Rightarrow> True | Some r \<Rightarrow> CHR ''|'' \<notin> set r \<and> (\<exists>x. ParseFloat r = Inr x \<and> f64_lt 0 x)"
    and "\<forall>kv\<in>set tags. statsd_tag_ok kv"
  shows "parseStatsDLine now (statsd_line metric value typ rate tags) defaultTags =
    Inr \<lparr>sa_Metric = (if typ = ''ms'' \<or> typ = ''h'' then metric @ ''.'' @ typ else metric),
      sa_Tags = copy_into (copy_into [] defaultTags) tags, sa_Timestamp = word_of_int (now div 1000000),
      sa_Value = (if typ = ''g'' then v else f64_div v (rate_of rate))\<rparr>"
proof -
  let ?tf = "CHR ''#'' # join_with '','' (map (\<lambda>(k, v). k @ '':'' @ v) tags)"
  let ?extra = "(case rate of None \<Rightarrow> [] | Some r \<Rightarrow> [CHR ''@'' # r]) @ (if tags = [] then [] else [?tf])"
  obtain extra where ex: "extra = ?extra" by blast
  obtain rest where rest: "rest = join_with ''|'' (value # typ # extra)" by blast
  have line: "statsd_line metric value typ rate tags = metric @ CHR '':'' # rest"
    by (simp add: rest ex statsd_line_def join_with_Cons split: option.split)
  have parts: "split_n (CHR '':'') 2 (metric @ CHR '':'' # rest) = [metric, rest]"
    using split_n_here [OF assms(1), of 0 rest] by (simp add: numeral_2_eq_2)
  have "CHR ''|'' \<notin> set typ" using assms(4) by auto
  moreover have "CHR ''|'' \<notin> set ?tf"
  proof -
    have "set (join_with '','' xs) \<subseteq> {CHR '',''} \<union> (\<Union>x\<in>set xs. set x)" for xs by (cases xs) (auto simp: join_with_Cons)
    then show ?thesis using assms(6) by (fastforce simp: statsd_tag_ok_def)
  qed
  ultimately have fs: "split_n (CHR ''|'') 4 rest = value # typ # extra"
    unfolding rest ex using assms(2,5) by (intro split_n_join) (auto split: option.splits)
  have extra: "foldl statsd_field (f64_one, d) extra = (rate_of rate, copy_into d tags)" for d
    unfolding ex using assms(5,6) statsd_field_tags [of tags]
    by (cases rate) (auto simp: rate_of_def statsd_field_rate)
  show ?thesis
    using assms(4) by (auto simp: parseStatsDLine_def line parts fs extra assms(3) Let_def)
qed

lemma statsd_line_parses_witness:
  "parseStatsDLine 7000000 ''a:5|c|@2|#h:x'' [(''h'', ''y''), (''e'', ''z'')] =
    Inr \<lparr>sa_Metric = ''a'', sa_Tags = [(''h'', ''x''), (''e'', ''z'')], sa_Timestamp = 7,
      sa_Value = f64_div (f64_of_int 5) (f64_of_int 2)\<rparr>"
proof -
  have five: "ParseFloat ''5'' = Inr (f64_of_int 5)" and two: "ParseFloat ''2'' = Inr (f64_of_int 2)"
  proof -
    have "nat_str 5 = ''5''" "nat_str 2 = ''2''" by code_simp+
    then show "ParseFloat ''5'' = Inr (f64_of_int 5)" "ParseFloat ''2'' = Inr (f64_of_int 2)"
      using ParseFloat_nat_str [of 5] ParseFloat_nat_str [of 2] by simp_all
  qed
  have pos: "f64_lt 0 (f64_of_int 2)"
    using f64_ratio_int [of 2 False] by (simp add: f64_of_int_def bit_length.simps) code_simp
  have ok: "statsd_tag_ok (''h'', ''x'')" by code_simp
  have line: "statsd_line ''a'' ''5'' ''c'' (Some ''2'') [(''h'', ''x'')] = ''a:5|c|@2|#h:x''" by (simp add: statsd_line_def)
  have tags: "copy_into (copy_into [] [(''h'', ''y''), (''e'', ''z'')]) [(''h'', ''x'')] = [(''h'', ''x''), (''e'', ''z'')]" by code_simp
  from statsd_line_parses [of "''a''" "''5''" "f64_of_int 5" "''c''" "Some ''2''" "[(''h'', ''x'')]" 7000000 "[(''h'', ''y''), (''e'', ''z'')]"]
  show ?thesis unfolding line tags using five two pos ok by (simp add: rate_of_def)
qed

end
