(* ===== verification/Syscollector.thy ===== *)
theory Syscollector
  imports Collector
begin

text \<open>
  \<^verbatim>\<open>internal/collector/syscollector.go\<close>: readings of \<^verbatim>\<open>/proc\<close>.  The texts of the four files are given with
  each round.  The lemmas show that a counter is reported by the differences of its successive readings,
  none lost and none counted twice, and what a counter that has been reset does.
\<close>

subsection \<open>Reading\<close>

record diskSnapshot =
  dk_reads :: u64
  dk_writes :: u64
  dk_rbytes :: u64
  dk_wbytes :: u64

record netSnapshot =
  nt_rxBytes :: u64
  nt_txBytes :: u64
  nt_rxPackets :: u64
  nt_txPackets :: u64

fun parse_vals :: "string list \<Rightarrow> u64 list res" where
  "parse_vals [] = Inr []"
| "parse_vals (f # fs) =
     (case ParseUint f of
        (v, Some err) \<Rightarrow> Inl err
      | (v, None) \<Rightarrow> res_bind (parse_vals fs) (\<lambda>vs. Inr (v # vs)))"

definition readCPU :: "string res \<Rightarrow> (u64 \<times> u64) res" where
  "readCPU file =
     res_bind file (\<lambda>data.
       case scan_lines data of
         [] \<Rightarrow> Inl ErrFormat
       | line # _ \<Rightarrow>
           if \<not> has_prefix line ''cpu '' then Inl ErrFormat
           else
             let fs = Go_Text.fields line in
             if length fs < 5 then Inl ErrFormat
             else res_bind (parse_vals (take 8 (drop 1 fs))) (\<lambda>vs.
               let vals = vs @ replicate (8 - length vs) 0 in
               Inr (vals ! 0 + vals ! 1 + vals ! 2 + vals ! 3 + vals ! 4 + vals ! 5 + vals ! 6 + vals ! 7, vals ! 3 + vals ! 4)))"

definition parseMemValue :: "string \<Rightarrow> u64" where
  "parseMemValue line = (let fs = Go_Text.fields line in if length fs < 2 then 0 else fst (ParseUint (fs ! 1)))"

definition memory_line :: "u64 \<times> u64 \<Rightarrow> string \<Rightarrow> u64 \<times> u64" where
  "memory_line acc line =
     (case acc of (tot, available) \<Rightarrow>
        if has_prefix line ''MemTotal:'' then (parseMemValue line, available)
        else if has_prefix line ''MemAvailable:'' then (tot, parseMemValue line)
        else (tot, available))"

definition readMemory :: "string res \<Rightarrow> (u64 \<times> u64) res" where
  "readMemory file =
     res_bind file (\<lambda>data.
       case foldl memory_line (0, 0) (scan_lines data) of (tot, available) \<Rightarrow>
         if tot = 0 then Inl ErrFormat else Inr (tot * 1024, available * 1024))"

definition isPhysicalDisk :: "string \<Rightarrow> bool" where
  "isPhysicalDisk name \<longleftrightarrow> \<not> (name = [] \<or> hd name = CHR '' '') \<and> (\<forall>skip\<in>set [''loop'', ''ram'', ''dm-'']. \<not> has_prefix name skip)"

definition disk_line :: "(string, diskSnapshot) gomap \<Rightarrow> string \<Rightarrow> (string, diskSnapshot) gomap" where
  "disk_line result line =
     (let fs = Go_Text.fields line in
      if length fs < 14 then result
      else
        let name = fs ! 2 in
        if isPhysicalDisk name then
          store result name \<lparr>dk_reads = fst (ParseUint (fs ! 3)), dk_writes = fst (ParseUint (fs ! 7)),
            dk_rbytes = fst (ParseUint (fs ! 5)) * 512, dk_wbytes = fst (ParseUint (fs ! 9)) * 512\<rparr>
        else result)"

definition readDiskStats :: "string res \<Rightarrow> (string, diskSnapshot) gomap res" where
  "readDiskStats file = res_bind file (\<lambda>data. Inr (foldl disk_line [] (scan_lines data)))"

definition net_line :: "(string, netSnapshot) gomap \<Rightarrow> string \<Rightarrow> (string, netSnapshot) gomap" where
  "net_line result line =
     (if CHR '':'' \<notin> set line then result
      else
        let name = trim_space (takeWhile (\<lambda>c. c \<noteq> CHR '':'') line);
            rest = Go_Text.fields (tl (dropWhile (\<lambda>c. c \<noteq> CHR '':'') line)) in
        if length rest < 10 then result
        else store result name \<lparr>nt_rxBytes = fst (ParseUint (rest ! 0)), nt_txBytes = fst (ParseUint (rest ! 8)),
          nt_rxPackets = fst (ParseUint (rest ! 1)), nt_txPackets = fst (ParseUint (rest ! 9))\<rparr>)"

definition readNetStats :: "string res \<Rightarrow> (string, netSnapshot) gomap res" where
  "readNetStats file = res_bind file (\<lambda>data. Inr (foldl net_line [] (scan_lines data)))"

subsection \<open>Collecting\<close>

record SysCollector =
  sy_interval :: int
  sy_enabled :: "string list"
  sy_defaultTags :: "(string, string) gomap"
  sy_stopped :: bool
  sy_prevCPUTotal :: u64
  sy_prevCPUIdle :: u64
  sy_prevDisk :: "(string, diskSnapshot) gomap"
  sy_prevNet :: "(string, netSnapshot) gomap"
  sy_first :: bool

definition NewSysCollector :: "int \<Rightarrow> string list \<Rightarrow> (string, string) gomap \<Rightarrow> SysCollector" where
  "NewSysCollector interval enabled defaultTags =
     \<lparr>sy_interval = interval, sy_enabled = (if enabled = [] then [''cpu'', ''memory'', ''disk'', ''net''] else enabled),
      sy_defaultTags = defaultTags, sy_stopped = False, sy_prevCPUTotal = 0, sy_prevCPUIdle = 0, sy_prevDisk = [],
      sy_prevNet = [], sy_first = True\<rparr>"

definition sys_Stop :: "SysCollector \<Rightarrow> SysCollector res" where
  "sys_Stop s = (if sy_stopped s then Inl Panic else Inr (s\<lparr>sy_stopped := True\<rparr>))"

interpretation sys_stops: stoppable sys_Stop sy_stopped
  by unfold_locales (simp_all add: sys_Stop_def)

text \<open>
  What a round meets: the four files, the orders in which the two maps are visited, and the clock of its
  samples.
\<close>

record sys_round =
  sr_stat :: "string res"
  sr_meminfo :: "string res"
  sr_diskstats :: "string res"
  sr_netdev :: "string res"
  sr_diskOrder :: "(string, diskSnapshot) gomap \<Rightarrow> (string, diskSnapshot) gomap"
  sr_netOrder :: "(string, netSnapshot) gomap \<Rightarrow> (string, netSnapshot) gomap"
  sr_at :: clock

definition collectCPU :: "sys_round \<Rightarrow> SysCollector \<times> outbox \<Rightarrow> SysCollector \<times> outbox" where
  "collectCPU r so =
     (case so of (s, ob) \<Rightarrow>
        case readCPU (sr_stat r) of
          Inl err \<Rightarrow> (s, ob)
        | Inr (tot, idle) \<Rightarrow>
            if sy_first s then (s\<lparr>sy_prevCPUTotal := tot, sy_prevCPUIdle := idle\<rparr>, ob)
            else
              let dt = tot - sy_prevCPUTotal s; di = idle - sy_prevCPUIdle s;
                  s = s\<lparr>sy_prevCPUTotal := tot, sy_prevCPUIdle := idle\<rparr> in
              if dt = 0 then (s, ob)
              else
                let pct = f64_div (f64_mul f64_hundred (f64_of_u64 (dt - di))) (f64_of_u64 dt) in
                (s, emit (sy_defaultTags s) (sr_at r) ''system.cpu.usage'' [] pct ob))"

definition collectMemory :: "sys_round \<Rightarrow> SysCollector \<times> outbox \<Rightarrow> SysCollector \<times> outbox" where
  "collectMemory r so =
     (case so of (s, ob) \<Rightarrow>
        case readMemory (sr_meminfo r) of
          Inl err \<Rightarrow> (s, ob)
        | Inr (tot, avail) \<Rightarrow>
            if tot = 0 then (s, ob)
            else
              let used = tot - avail; pct = f64_div (f64_mul f64_hundred (f64_of_u64 used)) (f64_of_u64 tot) in
              (s, emit_all (sy_defaultTags s) (sr_at r)
                [(''system.memory.total'', [], f64_of_u64 tot), (''system.memory.available'', [], f64_of_u64 avail),
                 (''system.memory.used'', [], f64_of_u64 used), (''system.memory.used_percent'', [], pct)] ob))"

text \<open>
  The loop over the devices or interfaces: a first reading is only remembered, a later one is reported by
  its differences from the one before.
\<close>

fun counter_loop :: "bool \<Rightarrow> (string, string) gomap \<Rightarrow> clock \<Rightarrow> (string \<Rightarrow> 'c \<Rightarrow> 'c \<Rightarrow> (string \<times> (string, string) gomap \<times> f64) list) \<Rightarrow>
    (string \<times> 'c) list \<Rightarrow> (string, 'c) gomap \<Rightarrow> outbox \<Rightarrow> (string, 'c) gomap \<times> outbox" where
  "counter_loop first tags at deltas [] prev ob = (prev, ob)"
| "counter_loop first tags at deltas ((name, cur) # rest) prev ob =
     (case lookup prev name of
        None \<Rightarrow> counter_loop first tags at deltas rest (store prev name cur) ob
      | Some p \<Rightarrow>
          if first then counter_loop first tags at deltas rest (store prev name cur) ob
          else counter_loop first tags at deltas rest (store prev name cur) (emit_all tags at (deltas name p cur) ob))"

definition disk_deltas :: "string \<Rightarrow> diskSnapshot \<Rightarrow> diskSnapshot \<Rightarrow> (string \<times> (string, string) gomap \<times> f64) list" where
  "disk_deltas name prev cur =
     [(''system.disk.reads'', [(''device'', name)], f64_of_u64 (dk_reads cur - dk_reads prev)),
      (''system.disk.writes'', [(''device'', name)], f64_of_u64 (dk_writes cur - dk_writes prev)),
      (''system.disk.read_bytes'', [(''device'', name)], f64_of_u64 (dk_rbytes cur - dk_rbytes prev)),
      (''system.disk.write_bytes'', [(''device'', name)], f64_of_u64 (dk_wbytes cur - dk_wbytes prev))]"

definition collectDisk :: "sys_round \<Rightarrow> SysCollector \<times> outbox \<Rightarrow> SysCollector \<times> outbox" where
  "collectDisk r so =
     (case so of (s, ob) \<Rightarrow>
        case readDiskStats (sr_diskstats r) of
          Inl err \<Rightarrow> (s, ob)
        | Inr disks \<Rightarrow>
            (case counter_loop (sy_first s) (sy_defaultTags s) (sr_at r) disk_deltas (sr_diskOrder r disks) (sy_prevDisk s) ob of
               (prev, ob) \<Rightarrow> (s\<lparr>sy_prevDisk := prev\<rparr>, ob)))"

definition net_deltas :: "string \<Rightarrow> netSnapshot \<Rightarrow> netSnapshot \<Rightarrow> (string \<times> (string, string) gomap \<times> f64) list" where
  "net_deltas name prev cur =
     [(''system.net.rx_bytes'', [(''interface'', name)], f64_of_u64 (nt_rxBytes cur - nt_rxBytes prev)),
      (''system.net.tx_bytes'', [(''interface'', name)], f64_of_u64 (nt_txBytes cur - nt_txBytes prev)),
      (''system.net.rx_packets'', [(''interface'', name)], f64_of_u64 (nt_rxPackets cur - nt_rxPackets prev)),
      (''system.net.tx_packets'', [(''interface'', name)], f64_of_u64 (nt_txPackets cur - nt_txPackets prev))]"

definition collectNet :: "sys_round \<Rightarrow> SysCollector \<times> outbox \<Rightarrow> SysCollector \<times> outbox" where
  "collectNet r so =
     (case so of (s, ob) \<Rightarrow>
        case readNetStats (sr_netdev r) of
          Inl err \<Rightarrow> (s, ob)
        | Inr ifaces \<Rightarrow>
            (case counter_loop (sy_first s) (sy_defaultTags s) (sr_at r) net_deltas (sr_netOrder r ifaces) (sy_prevNet s) ob of
               (prev, ob) \<Rightarrow> (s\<lparr>sy_prevNet := prev\<rparr>, ob)))"

definition sys_collect :: "sys_round \<Rightarrow> string \<Rightarrow> SysCollector \<times> outbox \<Rightarrow> SysCollector \<times> outbox" where
  "sys_collect r name so =
     (if name = ''cpu'' then collectCPU r so
      else if name = ''memory'' then collectMemory r so
      else if name = ''disk'' then collectDisk r so
      else if name = ''net'' then collectNet r so
      else so)"

text \<open>A round of \<^verbatim>\<open>Run\<close>; its clock starts anew.\<close>

definition sys_round_run :: "sys_round \<Rightarrow> SysCollector \<times> Sample list \<Rightarrow> SysCollector \<times> Sample list" where
  "sys_round_run r so =
     (case so of (s, sent) \<Rightarrow>
        case fold (sys_collect r) (sy_enabled s) (s, \<lparr>ob_turn = 0, ob_sent = sent\<rparr>) of (s, ob) \<Rightarrow>
          (s\<lparr>sy_first := False\<rparr>, ob_sent ob))"

text \<open>\<^verbatim>\<open>Run\<close> until it is cancelled: the rounds.  A ticker of no positive interval panics.\<close>

definition sys_Run :: "SysCollector \<Rightarrow> sys_round list \<Rightarrow> (SysCollector \<times> Sample list) res" where
  "sys_Run s rounds =
     (let s = (if sy_interval s = 0 then s\<lparr>sy_interval := 15 * 1000000000\<rparr> else s) in
      if sy_interval s < 0 then Inl Panic else Inr (fold sys_round_run rounds (s, [])))"

subsection \<open>Counters are reported by differences\<close>

lemma lookup_disks: "map_wf (foldl disk_line m lines)" if "map_wf m"
  using that by (induction lines arbitrary: m) (simp_all add: disk_line_def Let_def)

lemma counter_loop_spec:
  assumes "\<forall>i. snd (at i)" and "map_wf cur" and "counter_loop first tags at deltas cur prev ob = (prev', ob')"
  shows "lookup prev' = lookup prev ++ lookup cur \<and>
    picked P (ob_sent ob') = picked P (ob_sent ob) @ picked_rows P tags (concat (map (\<lambda>(name, c).
      case lookup prev name of Some p \<Rightarrow> if first then [] else deltas name p c | None \<Rightarrow> []) cur))"
  using assms(2,3)
proof (induction cur arbitrary: prev ob)
  case (Cons nc cur)
  obtain name c where nc: "nc = (name, c)" by (cases nc)
  have wf: "map_wf cur" "lookup cur name = None" using Cons.prems(1) by (simp_all add: nc map_wf_def lookup_None_iff)
  define ob1 where "ob1 = (case lookup prev name of Some p \<Rightarrow> if first then ob else emit_all tags at (deltas name p c) ob | None \<Rightarrow> ob)"
  have step: "counter_loop first tags at deltas cur (store prev name c) ob1 = (prev', ob')"
    using Cons.prems(2) by (auto simp: nc ob1_def split: option.splits if_splits)
  have same: "map (\<lambda>(n, c'). case lookup (store prev name c) n of Some p \<Rightarrow> if first then [] else deltas n p c' | None \<Rightarrow> []) cur =
      map (\<lambda>(n, c'). case lookup prev n of Some p \<Rightarrow> if first then [] else deltas n p c' | None \<Rightarrow> []) cur"
  proof (rule map_cong [OF refl])
    fix x
    assume "x \<in> set cur"
    then have "fst x \<noteq> name" using wf(2) by (auto simp: lookup_None_iff)
    then show "(case x of (n, c') \<Rightarrow> case lookup (store prev name c) n of Some p \<Rightarrow> if first then [] else deltas n p c' | None \<Rightarrow> []) =
        (case x of (n, c') \<Rightarrow> case lookup prev n of Some p \<Rightarrow> if first then [] else deltas n p c' | None \<Rightarrow> [])"
      by (cases x) simp
  qed
  have "picked P (ob_sent ob1) = picked P (ob_sent ob) @
      picked_rows P tags (case lookup prev name of Some p \<Rightarrow> if first then [] else deltas name p c | None \<Rightarrow> [])"
    using emit_all_picked [OF assms(1)] by (simp add: ob1_def split: option.split)
  moreover have add: "lookup (store prev name c) ++ lookup cur = lookup prev ++ lookup (nc # cur)"
    using wf(2) by (auto simp: nc fun_eq_iff map_add_def split: option.splits)
  ultimately show ?case using Cons.IH [OF wf(1) step] unfolding same by (simp add: nc add [unfolded nc] del: lookup_store lookup_Cons)
qed (simp add: map_add_def fun_eq_iff)

text \<open>The counters of a disk, with their metrics, and the readings of one disk over the rounds.\<close>

definition disk_counters :: "(string \<times> (diskSnapshot \<Rightarrow> u64)) list" where
  "disk_counters = [(''system.disk.reads'', dk_reads), (''system.disk.writes'', dk_writes),
     (''system.disk.read_bytes'', dk_rbytes), (''system.disk.write_bytes'', dk_wbytes)]"

definition disk_reading :: "string \<Rightarrow> sys_round \<Rightarrow> diskSnapshot option" where
  "disk_reading d r = (case readDiskStats (sr_diskstats r) of Inr disks \<Rightarrow> lookup disks d | Inl _ \<Rightarrow> None)"

definition disk_readings :: "string \<Rightarrow> sys_round list \<Rightarrow> diskSnapshot list" where
  "disk_readings d rounds = List.map_filter (disk_reading d) rounds"

definition differences :: "('c \<Rightarrow> u64) \<Rightarrow> 'c list \<Rightarrow> f64 list" where
  "differences sel xs = map2 (\<lambda>p c. f64_of_u64 (sel c - sel p)) xs (tl xs)"

abbreviation disk_metric :: "string \<Rightarrow> string \<Rightarrow> string \<Rightarrow> (string, string) gomap \<Rightarrow> bool" where
  "disk_metric metric d m t \<equiv> m = metric \<and> lookup t ''device'' = Some d"

lemma picked_disk_deltas:
  assumes "(metric, sel) \<in> set disk_counters"
  shows "picked_rows (disk_metric metric d) tags (disk_deltas n p c) = (if n = d then [f64_of_u64 (sel c - sel p)] else [])"
  using assms by (auto simp: disk_counters_def disk_deltas_def)

lemma picked_rows_concat: "picked_rows P d (concat rows) = concat (map (picked_rows P d) rows)"
  by (induction rows) simp_all

lemma concat_one_key:
  "map_wf m \<Longrightarrow> concat (map (\<lambda>(n, c). if n = d then f c else []) m) = (case lookup m d of Some c \<Rightarrow> f c | None \<Rightarrow> [])"
proof (induction m)
  case (Cons nc m)
  obtain n c where nc: "nc = (n, c)" by (cases nc)
  have "map_wf m" "lookup m n = None" using Cons.prems by (simp_all add: nc map_wf_def lookup_None_iff)
  then show ?case using Cons.IH by (auto simp: nc)
qed simp

text \<open>A collector that is not the disks' one leaves the disks and their samples alone.\<close>

lemma other_collectors:
  assumes "sys_collect r name (s, ob) = (s', ob')" and "name \<noteq> ''disk''" and "\<forall>i. snd (sr_at r i)"
    and "(metric, sel) \<in> set disk_counters"
  shows "sy_prevDisk s' = sy_prevDisk s \<and> sy_first s' = sy_first s \<and> sy_defaultTags s' = sy_defaultTags s \<and> sy_enabled s' = sy_enabled s \<and>
    picked (disk_metric metric d) (ob_sent ob') = picked (disk_metric metric d) (ob_sent ob)"
proof -
  have m: "metric \<in> {''system.disk.reads'', ''system.disk.writes'', ''system.disk.read_bytes'', ''system.disk.write_bytes''}"
    using assms(4) by (auto simp: disk_counters_def)
  have net: "picked (disk_metric metric d) (ob_sent ob1) = picked (disk_metric metric d) (ob_sent ob)"
    if "counter_loop first tags (sr_at r) net_deltas cur prev ob = (prev1, ob1)" for first tags cur prev prev1 ob1
    using that assms(3)
  proof (induction cur arbitrary: prev ob)
    case (Cons nc cur)
    obtain n c where nc: "nc = (n, c)" by (cases nc)
    have "picked (disk_metric metric d) (ob_sent (emit_all tags (sr_at r) (net_deltas n p c) ob)) = picked (disk_metric metric d) (ob_sent ob)" for p
      using m by (auto simp: emit_all_picked [OF assms(3)] net_deltas_def simp del: emit_all.simps)
    then show ?case using Cons by (fastforce simp: nc split: option.splits if_splits)
  qed simp
  show ?thesis
    using assms(1,2) m net
    by (auto simp: sys_collect_def collectCPU_def collectMemory_def collectNet_def Let_def emit_emit_all emit_all_picked [OF assms(3)]
        simp del: emit_all.simps split: if_splits sum.splits prod.splits)
qed

lemma other_collectors_fold:
  assumes "fold (sys_collect r) names (s, ob) = (s', ob')" and "''disk'' \<notin> set names" and "\<forall>i. snd (sr_at r i)"
    and "(metric, sel) \<in> set disk_counters"
  shows "sy_prevDisk s' = sy_prevDisk s \<and> sy_first s' = sy_first s \<and> sy_defaultTags s' = sy_defaultTags s \<and> sy_enabled s' = sy_enabled s \<and>
    picked (disk_metric metric d) (ob_sent ob') = picked (disk_metric metric d) (ob_sent ob)"
  using assms(1,2)
proof (induction names arbitrary: s ob)
  case (Cons name names)
  obtain s1 ob1 where one: "sys_collect r name (s, ob) = (s1, ob1)" by (cases "sys_collect r name (s, ob)")
  moreover have "fold (sys_collect r) names (s1, ob1) = (s', ob')" using Cons.prems(1) one by simp
  ultimately show ?case
    using Cons.IH [of s1 ob1] Cons.prems(2) other_collectors [OF one _ assms(3,4)] by auto
qed simp

lemma collectDisk_spec:
  assumes "collectDisk r (s, ob) = (s', ob')" and "\<forall>i. snd (sr_at r i)" and "range_order (sr_diskOrder r)"
    and "(metric, sel) \<in> set disk_counters"
  shows "lookup (sy_prevDisk s') d = (case disk_reading d r of Some c \<Rightarrow> Some c | None \<Rightarrow> lookup (sy_prevDisk s) d) \<and>
    sy_first s' = sy_first s \<and> sy_enabled s' = sy_enabled s \<and>
    picked (disk_metric metric d) (ob_sent ob') = picked (disk_metric metric d) (ob_sent ob) @
      (case disk_reading d r of Some c \<Rightarrow>
         (case lookup (sy_prevDisk s) d of Some p \<Rightarrow> if sy_first s then [] else [f64_of_u64 (sel c - sel p)] | None \<Rightarrow> [])
       | None \<Rightarrow> [])"
proof (cases "readDiskStats (sr_diskstats r)")
  case (Inl err)
  then show ?thesis using assms(1) by (auto simp: collectDisk_def disk_reading_def)
next
  case (Inr disks)
  have "map_wf disks" using Inr lookup_disks by (auto simp: readDiskStats_def res_bind_def split: sum.splits)
  then have wf: "map_wf (sr_diskOrder r disks)" and same: "lookup (sr_diskOrder r disks) = lookup disks"
    using range_order_facts(3,4) [OF assms(3)] by auto
  obtain prev ob1 where loop: "counter_loop (sy_first s) (sy_defaultTags s) (sr_at r) disk_deltas (sr_diskOrder r disks) (sy_prevDisk s) ob = (prev, ob1)"
    by (cases "counter_loop (sy_first s) (sy_defaultTags s) (sr_at r) disk_deltas (sr_diskOrder r disks) (sy_prevDisk s) ob")
  have out: "s' = s\<lparr>sy_prevDisk := prev\<rparr>" "ob' = ob1" using assms(1) Inr loop by (auto simp: collectDisk_def)
  note spec = counter_loop_spec [OF assms(2) wf loop]
  define f where "f c = (case lookup (sy_prevDisk s) d of Some p \<Rightarrow> if sy_first s then [] else [f64_of_u64 (sel c - sel p)] | None \<Rightarrow> [])" for c
  have rows: "picked_rows (disk_metric metric d) (sy_defaultTags s) (case lookup (sy_prevDisk s) n of
      Some p \<Rightarrow> if sy_first s then [] else disk_deltas n p c | None \<Rightarrow> []) = (if n = d then f c else [])" for n c
    by (auto simp: f_def picked_disk_deltas [OF assms(4)] split: option.split)
  have "picked_rows (disk_metric metric d) (sy_defaultTags s) (concat (map (\<lambda>(n, c). case lookup (sy_prevDisk s) n of
      Some p \<Rightarrow> if sy_first s then [] else disk_deltas n p c | None \<Rightarrow> []) (sr_diskOrder r disks))) =
      concat (map (\<lambda>(n, c). if n = d then f c else []) (sr_diskOrder r disks))"
    by (simp add: picked_rows_concat comp_def case_prod_unfold rows)
  also have "\<dots> = (case lookup disks d of Some c \<Rightarrow> f c | None \<Rightarrow> [])"
    using concat_one_key [OF wf] same by simp
  finally have rows_all: "picked_rows (disk_metric metric d) (sy_defaultTags s) (concat (map (\<lambda>(n, c). case lookup (sy_prevDisk s) n of
      Some p \<Rightarrow> if sy_first s then [] else disk_deltas n p c | None \<Rightarrow> []) (sr_diskOrder r disks))) =
      (case lookup disks d of Some c \<Rightarrow> f c | None \<Rightarrow> [])" .
  have reading: "disk_reading d r = lookup disks d" using Inr by (simp add: disk_reading_def)
  show ?thesis
    using spec rows_all unfolding out reading same
    by (auto simp: f_def map_add_def split: option.split)
qed

lemma sys_round_disk:
  assumes "sys_round_run r (s, sent) = (s', sent')" and "sy_enabled s = a @ ''disk'' # b" and "''disk'' \<notin> set (a @ b)"
    and "\<forall>i. snd (sr_at r i)" and "range_order (sr_diskOrder r)" and "(metric, sel) \<in> set disk_counters"
  shows "lookup (sy_prevDisk s') d = (case disk_reading d r of Some c \<Rightarrow> Some c | None \<Rightarrow> lookup (sy_prevDisk s) d) \<and>
    \<not> sy_first s' \<and> sy_enabled s' = sy_enabled s \<and>
    picked (disk_metric metric d) sent' = picked (disk_metric metric d) sent @
      (case disk_reading d r of Some c \<Rightarrow>
         (case lookup (sy_prevDisk s) d of Some p \<Rightarrow> if sy_first s then [] else [f64_of_u64 (sel c - sel p)] | None \<Rightarrow> [])
       | None \<Rightarrow> [])"
proof -
  obtain s1 ob1 where f1: "fold (sys_collect r) a (s, \<lparr>ob_turn = 0, ob_sent = sent\<rparr>) = (s1, ob1)"
    by (cases "fold (sys_collect r) a (s, \<lparr>ob_turn = 0, ob_sent = sent\<rparr>)")
  obtain s2 ob2 where f2: "collectDisk r (s1, ob1) = (s2, ob2)" by (cases "collectDisk r (s1, ob1)")
  obtain s3 ob3 where f3: "fold (sys_collect r) b (s2, ob2) = (s3, ob3)" by (cases "fold (sys_collect r) b (s2, ob2)")
  have out: "s' = s3\<lparr>sy_first := False\<rparr>" "sent' = ob_sent ob3"
    using assms(1,2) f1 f2 f3 by (auto simp: sys_round_run_def sys_collect_def)
  have "''disk'' \<notin> set a" "''disk'' \<notin> set b" using assms(3) by auto
  note before = other_collectors_fold [OF f1 this(1) assms(4,6), of d]
    and disk = collectDisk_spec [OF f2 assms(4-6), of d]
    and after = other_collectors_fold [OF f3 this(2) assms(4,6), of d]
  show ?thesis using before disk after by (auto simp: out split: option.split)
qed

lemma differences_snoc:
  "differences sel (xs @ [c]) = differences sel xs @ (if xs = [] then [] else [f64_of_u64 (sel c - sel (last xs))])"
proof (induction xs)
  case (Cons x xs)
  then show ?case by (cases xs) (simp_all add: differences_def)
qed (simp add: differences_def)

lemma sys_rounds_disk:
  assumes "\<And>r. r \<in> set rounds \<Longrightarrow> (\<forall>i. snd (sr_at r i)) \<and> range_order (sr_diskOrder r)"
    and "(metric, sel) \<in> set disk_counters" and "sy_enabled s = a @ ''disk'' # b" and "''disk'' \<notin> set (a @ b)"
    and "lookup (sy_prevDisk s) d = (if hs = [] then None else Some (last hs))" and "sy_first s \<longrightarrow> hs = []"
    and "picked (disk_metric metric d) sent = differences sel hs" and "fold sys_round_run rounds (s, sent) = (s', sent')"
  shows "picked (disk_metric metric d) sent' = differences sel (hs @ disk_readings d rounds)"
  using assms
proof (induction rounds arbitrary: s sent hs)
  case Nil
  then show ?case by (simp add: disk_readings_def List.map_filter_simps)
next
  case (Cons r rounds)
  obtain s1 sent1 where one: "sys_round_run r (s, sent) = (s1, sent1)" by (cases "sys_round_run r (s, sent)")
  have r: "\<forall>i. snd (sr_at r i)" "range_order (sr_diskOrder r)" using Cons.prems(1) by auto
  note step = sys_round_disk [OF one Cons.prems(3,4) r Cons.prems(2), of d]
  define hs1 where "hs1 = hs @ (case disk_reading d r of Some c \<Rightarrow> [c] | None \<Rightarrow> [])"
  have hs1: "lookup (sy_prevDisk s1) d = (if hs1 = [] then None else Some (last hs1))" "sy_first s1 \<longrightarrow> hs1 = []"
    "picked (disk_metric metric d) sent1 = differences sel hs1"
    using step Cons.prems(5-7) by (auto simp: hs1_def differences_snoc split: option.splits if_splits)
  have "fold sys_round_run rounds (s1, sent1) = (s', sent')" using Cons.prems(8) one by simp
  then have "picked (disk_metric metric d) sent' = differences sel (hs1 @ disk_readings d rounds)"
    using Cons.IH [of s1 hs1 sent1] Cons.prems(1-4) step hs1 by simp
  then show ?case by (simp add: hs1_def disk_readings_def List.map_filter_simps split: option.splits)
qed

text \<open>
  A counter that starts anew, as after a reboot of a device: its difference wraps around and is reported as
  a reading of nearly 2 to the 64.
\<close>

lemma counter_reset:
  assumes "sel cur < sel prev"
  shows "differences sel [prev, cur] = [f64_of_int (2 ^ 64 - (uint (sel prev) - uint (sel cur)))]"
proof -
  have u: "uint (sel cur - sel prev) = 2 ^ 64 - (uint (sel prev) - uint (sel cur))"
    using assms uint_sub_if' [of "sel cur" "sel prev"] by (simp add: word_less_def)
  have "differences sel [prev, cur] = [f64_of_int (uint (sel cur - sel prev))]"
    by (simp add: differences_def f64_of_u64_def)
  then show ?thesis unfolding u .
qed

text \<open>
  C34: a collector for which the disks are enabled once sends, for each counter of a disk, exactly the differences (modulo
  2 to the 64) of its successive readings, in their order: a round whose file cannot be read or does not
  list the disk loses nothing, as the next difference spans it.  This holds while no send is given up.
\<close>

theorem sys_disk_deltas:
  assumes "sys_Run (NewSysCollector interval enabled defaultTags) rounds = Inr (s', sent)"
    and "filter (\<lambda>n. n = ''disk'') (if enabled = [] then [''cpu'', ''memory'', ''disk'', ''net''] else enabled) = [''disk'']"
    and "\<And>r. r \<in> set rounds \<Longrightarrow> (\<forall>i. snd (sr_at r i)) \<and> range_order (sr_diskOrder r)"
    and "(metric, sel) \<in> set disk_counters"
  shows "picked (disk_metric metric d) sent = differences sel (disk_readings d rounds)"
proof -
  obtain a b where split: "(if enabled = [] then [''cpu'', ''memory'', ''disk'', ''net''] else enabled) = a @ ''disk'' # b" "''disk'' \<notin> set (a @ b)"
    using assms(2) by (auto simp: filter_eq_Cons_iff eq_commute [of "[]"] filter_empty_conv)
  define s where "s = (let s = NewSysCollector interval enabled defaultTags in if sy_interval s = 0 then s\<lparr>sy_interval := 15 * 1000000000\<rparr> else s)"
  have run: "fold sys_round_run rounds (s, []) = (s', sent)"
    using assms(1) by (auto simp: sys_Run_def s_def Let_def split: if_splits)
  have s: "sy_enabled s = a @ ''disk'' # b" "sy_prevDisk s = []" using split(1) by (simp_all add: s_def NewSysCollector_def Let_def)
  show ?thesis
    using sys_rounds_disk [OF assms(3,4) s(1) split(2) _ _ _ run, of d "[]"] s(2) by (simp add: differences_def)
qed

definition sample_round :: "string \<Rightarrow> sys_round" where
  "sample_round diskstats = \<lparr>sr_stat = Inl ErrFormat, sr_meminfo = Inl ErrFormat, sr_diskstats = Inr diskstats, sr_netdev = Inl ErrFormat,
     sr_diskOrder = (\<lambda>m. m), sr_netOrder = (\<lambda>m. m), sr_at = (\<lambda>_. (0, True))\<rparr>"

lemma sample_lines: "scan_lines ''8 0 sda 10 0 2 0 5 0 8 0 0 0 0'' = [''8 0 sda 10 0 2 0 5 0 8 0 0 0 0'']" 
   "scan_lines ''8 0 sda 17 0 2 0 5 0 8 0 0 0 0'' = [''8 0 sda 17 0 2 0 5 0 8 0 0 0 0'']" "scan_lines [] = []"
  by (simp_all add: scan_lines_def drop_cr_def)

lemma sample_disks:
   "disk_line [] ''8 0 sda 10 0 2 0 5 0 8 0 0 0 0'' = [(''sda'', \<lparr>dk_reads = 10, dk_writes = 5, dk_rbytes = 1024, dk_wbytes = 4096\<rparr>)]"
   "disk_line [] ''8 0 sda 17 0 2 0 5 0 8 0 0 0 0'' = [(''sda'', \<lparr>dk_reads = 17, dk_writes = 5, dk_rbytes = 1024, dk_wbytes = 4096\<rparr>)]"
  by code_simp+

lemma sample_readings:
  "disk_readings ''sda'' (map sample_round [''8 0 sda 10 0 2 0 5 0 8 0 0 0 0'', [], ''8 0 sda 17 0 2 0 5 0 8 0 0 0 0'']) =
    [\<lparr>dk_reads = 10, dk_writes = 5, dk_rbytes = 1024, dk_wbytes = 4096\<rparr>, \<lparr>dk_reads = 17, dk_writes = 5, dk_rbytes = 1024, dk_wbytes = 4096\<rparr>]"
  by (simp add: disk_readings_def disk_reading_def sample_round_def readDiskStats_def res_bind_def sample_lines sample_disks List.map_filter_simps)

theorem sys_disk_deltas_witness:
  "picked (disk_metric ''system.disk.reads'' ''sda'') (case sys_Run (NewSysCollector 1 [''disk''] [])
      (map sample_round [''8 0 sda 10 0 2 0 5 0 8 0 0 0 0'', [], ''8 0 sda 17 0 2 0 5 0 8 0 0 0 0'']) of Inr (s, sent) \<Rightarrow> sent) = [f64_of_u64 7]"
proof -
  obtain s' sent where run: "sys_Run (NewSysCollector 1 [''disk''] [])
      (map sample_round [''8 0 sda 10 0 2 0 5 0 8 0 0 0 0'', [], ''8 0 sda 17 0 2 0 5 0 8 0 0 0 0'']) = Inr (s', sent)"
    by (simp add: sys_Run_def NewSysCollector_def del: fold_simps) (meson surj_pair)
  have "picked (disk_metric ''system.disk.reads'' ''sda'') sent =
      differences dk_reads (disk_readings ''sda'' (map sample_round [''8 0 sda 10 0 2 0 5 0 8 0 0 0 0'', [], ''8 0 sda 17 0 2 0 5 0 8 0 0 0 0'']))"
    by (rule sys_disk_deltas [OF run]) (auto simp: sample_round_def range_order_def disk_counters_def)
  then show ?thesis unfolding sample_readings run by (simp add: differences_def)
qed

end
