(* ===== verification/Docker.thy ===== *)
theory Docker
  imports Collector
begin

text \<open>
  \<^verbatim>\<open>internal/collector/docker.go\<close>: the statistics of the containers.  What the Docker daemon answers is the
  environment: the list of containers, and the statistics asked of each, both decoded, or an error.  The
  lemmas show when a round panics, and that a round reports for each container its own totals.
\<close>

subsection \<open>Answers of the daemon\<close>

record dockerContainer =
  dc_ID :: string
  dc_Names :: "string list"
  dc_State :: string

record cpuUsage =
  cu_TotalUsage :: u64

record cpuStats =
  cs_CPUUsage :: cpuUsage
  cs_SystemCPUUsage :: u64
  cs_OnlineCPUs :: u64

record memoryStats =
  mem_Usage :: u64
  mem_Limit :: u64

record netStats =
  ns_RxBytes :: u64
  ns_RxPackets :: u64
  ns_TxBytes :: u64
  ns_TxPackets :: u64

record blkioEntry =
  be_Op :: string
  be_Value :: u64

record blkioStats =
  bs_IOServiceBytesRecursive :: "blkioEntry list"

record dockerStats =
  ds_CPUStats :: cpuStats
  ds_PreCPUStats :: cpuStats
  ds_MemoryStats :: memoryStats
  ds_Networks :: "(string, netStats) gomap"
  ds_BlkioStats :: blkioStats

subsection \<open>The collector\<close>

record DockerCollector =
  do_interval :: int
  do_endpoint :: string
  do_defaultTags :: "(string, string) gomap"
  do_stopped :: bool
  do_client :: string

text \<open>The client is known by the path of the socket that it dials.\<close>

definition httpClientForUnix :: "string \<Rightarrow> string" where
  "httpClientForUnix endpoint = trim_prefix endpoint ''unix://''"

definition NewDockerCollector :: "int \<Rightarrow> string \<Rightarrow> (string, string) gomap \<Rightarrow> DockerCollector" where
  "NewDockerCollector interval endpoint defaultTags =
     (let endpoint = (if endpoint = [] then ''unix:///var/run/docker.sock'' else endpoint) in
      \<lparr>do_interval = interval, do_endpoint = endpoint, do_defaultTags = defaultTags, do_stopped = False,
       do_client = httpClientForUnix endpoint\<rparr>)"

definition docker_Stop :: "DockerCollector \<Rightarrow> DockerCollector res" where
  "docker_Stop d = (if do_stopped d then Inl Panic else Inr (d\<lparr>do_stopped := True\<rparr>))"

interpretation docker_stops: stoppable docker_Stop do_stopped
  by unfold_locales (simp_all add: docker_Stop_def)

definition copyTags :: "(string, string) gomap \<Rightarrow> string \<Rightarrow> string \<Rightarrow> (string, string) gomap" where
  "copyTags orig extraKey extraVal = store (copy_into [] orig) extraKey extraVal"

text \<open>The loop that picks the name: the first that is not empty, else the last.\<close>

fun container_name :: "string \<Rightarrow> string list \<Rightarrow> string" where
  "container_name current [] = current"
| "container_name current (name # names) =
     (let current = trim_prefix name ''/'' in if current \<noteq> [] then current else container_name current names)"

fun emit_networks :: "DockerCollector \<Rightarrow> clock \<Rightarrow> (string, string) gomap \<Rightarrow> (string \<times> netStats) list \<Rightarrow> outbox \<Rightarrow> outbox" where
  "emit_networks d at baseTags [] ob = ob"
| "emit_networks d at baseTags ((name, ns) # rest) ob =
     (let netTags = copyTags baseTags ''network'' name;
          ob = emit (do_defaultTags d) at ''docker.net.rx_bytes'' netTags (f64_of_u64 (ns_RxBytes ns)) ob;
          ob = emit (do_defaultTags d) at ''docker.net.tx_bytes'' netTags (f64_of_u64 (ns_TxBytes ns)) ob;
          ob = emit (do_defaultTags d) at ''docker.net.rx_packets'' netTags (f64_of_u64 (ns_RxPackets ns)) ob;
          ob = emit (do_defaultTags d) at ''docker.net.tx_packets'' netTags (f64_of_u64 (ns_TxPackets ns)) ob
      in emit_networks d at baseTags rest ob)"

definition add_entry :: "u64 \<times> u64 \<Rightarrow> blkioEntry \<Rightarrow> u64 \<times> u64" where
  "add_entry acc entry =
     (case acc of (blkRead, blkWrite) \<Rightarrow>
        if be_Op entry = ''read'' then (blkRead + be_Value entry, blkWrite)
        else if be_Op entry = ''write'' then (blkRead, blkWrite + be_Value entry)
        else (blkRead, blkWrite))"

text \<open>The percentage of the processors in use, when it is reported.\<close>

definition cpu_percent :: "dockerStats \<Rightarrow> f64 option" where
  "cpu_percent s =
     (if cu_TotalUsage (cs_CPUUsage (ds_CPUStats s)) > 0 \<and> cu_TotalUsage (cs_CPUUsage (ds_PreCPUStats s)) > 0 then
        let cpuDelta = cu_TotalUsage (cs_CPUUsage (ds_CPUStats s)) - cu_TotalUsage (cs_CPUUsage (ds_PreCPUStats s));
            sysDelta = cs_SystemCPUUsage (ds_CPUStats s) - cs_SystemCPUUsage (ds_PreCPUStats s) in
        if sysDelta > 0 then
          Some (f64_mul (f64_div (f64_mul f64_hundred (f64_of_u64 cpuDelta)) (f64_of_u64 sysDelta)) (f64_of_u64 (cs_OnlineCPUs (ds_CPUStats s))))
        else None
      else None)"

definition emitContainerStats :: "DockerCollector \<Rightarrow> clock \<Rightarrow> ((string, netStats) gomap \<Rightarrow> (string, netStats) gomap) \<Rightarrow>
    dockerContainer \<Rightarrow> dockerStats \<Rightarrow> outbox \<Rightarrow> outbox res" where
  "emitContainerStats d at order c s ob =
     res_bind (slice (dc_ID c) 0 12) (\<lambda>id12.
       let containerName = container_name id12 (dc_Names c);
           baseTags = store (store [] ''container_id'' id12) ''container_name'' containerName;
           ob = (case cpu_percent s of
                   Some pct \<Rightarrow> emit (do_defaultTags d) at ''docker.cpu.usage'' baseTags pct ob
                 | None \<Rightarrow> ob);
           usage = mem_Usage (ds_MemoryStats s); limit = mem_Limit (ds_MemoryStats s);
           ob = (if usage > 0 \<and> limit > 0 then
                   emit (do_defaultTags d) at ''docker.memory.usage_percent'' baseTags (f64_div (f64_mul f64_hundred (f64_of_u64 usage)) (f64_of_u64 limit))
                     (emit (do_defaultTags d) at ''docker.memory.limit'' baseTags (f64_of_u64 limit)
                       (emit (do_defaultTags d) at ''docker.memory.usage'' baseTags (f64_of_u64 usage) ob))
                 else ob);
           ob = emit_networks d at baseTags (order (ds_Networks s)) ob;
           (blkRead, blkWrite) = foldl add_entry (0, 0) (bs_IOServiceBytesRecursive (ds_BlkioStats s))
       in Inr (if blkRead > 0 \<or> blkWrite > 0 then
                 emit (do_defaultTags d) at ''docker.blkio.write_bytes'' baseTags (f64_of_u64 blkWrite)
                   (emit (do_defaultTags d) at ''docker.blkio.read_bytes'' baseTags (f64_of_u64 blkRead) ob)
               else ob))"

text \<open>What a round meets: the list, the statistics asked for the container \<open>i\<close> of it, the order of a map, the clock.\<close>

record docker_round =
  dr_list :: "dockerContainer list res"
  dr_stats :: "nat \<Rightarrow> dockerStats res"
  dr_order :: "(string, netStats) gomap \<Rightarrow> (string, netStats) gomap"
  dr_at :: clock

fun collect_loop :: "DockerCollector \<Rightarrow> docker_round \<Rightarrow> nat \<Rightarrow> dockerContainer list \<Rightarrow> outbox \<Rightarrow> outbox res" where
  "collect_loop d r i [] ob = Inr ob"
| "collect_loop d r i (c # containers) ob =
     (case dr_stats r i of
        Inl err \<Rightarrow> collect_loop d r (i + 1) containers ob
      | Inr stats \<Rightarrow> res_bind (emitContainerStats d (dr_at r) (dr_order r) c stats ob) (collect_loop d r (i + 1) containers))"

definition docker_collect :: "DockerCollector \<Rightarrow> docker_round \<Rightarrow> outbox \<Rightarrow> outbox res" where
  "docker_collect d r ob =
     (case dr_list r of Inl err \<Rightarrow> Inr ob | Inr containers \<Rightarrow> collect_loop d r 0 containers ob)"

text \<open>\<^verbatim>\<open>Run\<close> until it is cancelled; the clock of a round starts anew.\<close>

fun docker_rounds :: "DockerCollector \<Rightarrow> docker_round list \<Rightarrow> Sample list \<Rightarrow> Sample list res" where
  "docker_rounds d [] sent = Inr sent"
| "docker_rounds d (r # rounds) sent =
     res_bind (docker_collect d r \<lparr>ob_turn = 0, ob_sent = sent\<rparr>) (\<lambda>ob. docker_rounds d rounds (ob_sent ob))"

definition docker_Run :: "DockerCollector \<Rightarrow> docker_round list \<Rightarrow> (DockerCollector \<times> Sample list) res" where
  "docker_Run d rounds =
     (let d = (if do_interval d = 0 then d\<lparr>do_interval := 15 * 1000000000\<rparr> else d) in
      if do_interval d < 0 then Inl Panic else res_bind (docker_rounds d rounds []) (\<lambda>sent. Inr (d, sent)))"

text \<open>
  The name falls back on the ID only for a container without names: names that are empty, or only a slash,
  leave it empty.
\<close>

lemma container_name_empty: "names \<noteq> [] \<Longrightarrow> \<forall>n\<in>set names. trim_prefix n ''/'' = [] \<Longrightarrow> container_name current names = []"
proof (induction names arbitrary: current)
  case (Cons n names)
  then show ?case by (cases names) (simp_all add: Let_def)
qed simp

subsection \<open>What a round reports\<close>

text \<open>The bytes of one kind that a container has moved.\<close>

definition op_total :: "string \<Rightarrow> dockerStats \<Rightarrow> u64" where
  "op_total op s = sum_list (map be_Value (filter (\<lambda>e. be_Op e = op) (bs_IOServiceBytesRecursive (ds_BlkioStats s))))"

lemma add_entries:
  "foldl add_entry (a, b) es =
    (a + sum_list (map be_Value (filter (\<lambda>e. be_Op e = ''read'') es)), b + sum_list (map be_Value (filter (\<lambda>e. be_Op e = ''write'') es)))"
  by (induction es arbitrary: a b) (simp_all add: add_entry_def)

text \<open>A sample of a metric of the block devices, of the container with these twelve characters.\<close>

abbreviation blkio_metric :: "string \<Rightarrow> string \<Rightarrow> string \<Rightarrow> (string, string) gomap \<Rightarrow> bool" where
  "blkio_metric op id12 m t \<equiv> m = ''docker.blkio.'' @ op @ ''_bytes'' \<and> lookup t ''container_id'' = Some id12"

lemma emit_picked:
  assumes "\<forall>i. snd (at i)"
  shows "picked P (ob_sent (emit d at m t v ob)) = picked P (ob_sent ob) @ (if P m (copy_into (copy_into [] d) t) then [v] else [])"
  using emit_all_picked [OF assms, of P d "[(m, t, v)]" ob] by simp

lemma emit_networks_picked:
  assumes "\<forall>i. snd (at i)" and "op \<in> {''read'', ''write''}"
  shows "picked (blkio_metric op id12) (ob_sent (emit_networks d at base nets ob)) = picked (blkio_metric op id12) (ob_sent ob)"
  using assms(2) by (induction nets arbitrary: ob) (auto simp: emit_picked [OF assms(1)] Let_def)

definition blkio_rows :: "string \<Rightarrow> dockerStats \<Rightarrow> f64 list" where
  "blkio_rows op s = (if op_total ''read'' s > 0 \<or> op_total ''write'' s > 0 then [f64_of_u64 (op_total op s)] else [])"

lemma emitContainerStats_picked:
  assumes "\<forall>i. snd (at i)" and "op \<in> {''read'', ''write''}" and "12 \<le> length (dc_ID c)"
  shows "\<exists>ob'. emitContainerStats d at order c s ob = Inr ob' \<and>
    picked (blkio_metric op id12) (ob_sent ob') = picked (blkio_metric op id12) (ob_sent ob) @ (if take 12 (dc_ID c) = id12 then blkio_rows op s else [])"
proof -
  have cut: "slice (dc_ID c) 0 12 = Inr (take 12 (dc_ID c))" using assms(3) by (simp add: slice_def)
  have id: "lookup (copy_into (copy_into [] tags) (store (store [] ''container_id'' i) ''container_name'' n)) ''container_id'' = Some i" for tags i n
  proof -
    have "store (store [] ''container_id'' i) ''container_name'' n = [(''container_id'', i), (''container_name'', n)]" by (simp add: store_def)
    then show ?thesis by (simp add: copy_into_def)
  qed
  define base where "base = store (store [] ''container_id'' (take 12 (dc_ID c))) ''container_name'' (container_name (take 12 (dc_ID c)) (dc_Names c))"
  define ob1 where "ob1 = (case cpu_percent s of Some pct \<Rightarrow> emit (do_defaultTags d) at ''docker.cpu.usage'' base pct ob | None \<Rightarrow> ob)"
  define ob2 where "ob2 = (let usage = mem_Usage (ds_MemoryStats s); limit = mem_Limit (ds_MemoryStats s) in
    if usage > 0 \<and> limit > 0 then
      emit (do_defaultTags d) at ''docker.memory.usage_percent'' base (f64_div (f64_mul f64_hundred (f64_of_u64 usage)) (f64_of_u64 limit))
        (emit (do_defaultTags d) at ''docker.memory.limit'' base (f64_of_u64 limit)
          (emit (do_defaultTags d) at ''docker.memory.usage'' base (f64_of_u64 usage) ob1))
    else ob1)"
  define ob3 where "ob3 = emit_networks d at base (order (ds_Networks s)) ob2"
  have all: "emitContainerStats d at order c s ob =
      Inr (if op_total ''read'' s > 0 \<or> op_total ''write'' s > 0
        then emit (do_defaultTags d) at ''docker.blkio.write_bytes'' base (f64_of_u64 (op_total ''write'' s))
          (emit (do_defaultTags d) at ''docker.blkio.read_bytes'' base (f64_of_u64 (op_total ''read'' s)) ob3)
        else ob3)"
    by (simp only: emitContainerStats_def cut add_entries op_total_def base_def ob1_def ob2_def ob3_def Let_def res_bind_simps prod.case add_0)
  have "picked (blkio_metric op id12) (ob_sent ob1) = picked (blkio_metric op id12) (ob_sent ob)"
    using assms(2) by (auto simp: ob1_def emit_picked [OF assms(1)] split: option.split)
  moreover have "picked (blkio_metric op id12) (ob_sent ob2) = picked (blkio_metric op id12) (ob_sent ob1)"
    using assms(2) by (auto simp: ob2_def Let_def emit_picked [OF assms(1)])
  ultimately have "picked (blkio_metric op id12) (ob_sent ob3) = picked (blkio_metric op id12) (ob_sent ob)"
    using emit_networks_picked [OF assms(1,2)] by (simp add: ob3_def)
  then show ?thesis
    using assms(2) unfolding all base_def by (auto simp: emit_picked [OF assms(1)] id blkio_rows_def)
qed

lemma emitContainerStats_panics: "length (dc_ID c) < 12 \<Longrightarrow> emitContainerStats d at order c s ob = Inl Panic"
  by (simp add: emitContainerStats_def slice_def res_bind_def)

text \<open>A round panics at the first container whose statistics are read and whose ID is too short.\<close>

definition short_id :: "docker_round \<Rightarrow> nat \<Rightarrow> dockerContainer list \<Rightarrow> bool" where
  "short_id r i cs \<longleftrightarrow> (\<exists>k<length cs. \<not> isl (dr_stats r (i + k)) \<and> length (dc_ID (cs ! k)) < 12)"

lemma short_id_simps [simp]:
  "\<not> short_id r i []"
  "short_id r i (c # cs) \<longleftrightarrow> \<not> isl (dr_stats r i) \<and> length (dc_ID c) < 12 \<or> short_id r (i + 1) cs"
proof -
  have "(\<exists>k<Suc n. P k) \<longleftrightarrow> P 0 \<or> (\<exists>k<n. P (Suc k))" for P n by (metis less_Suc_eq_0_disj)
  then show "short_id r i (c # cs) \<longleftrightarrow> \<not> isl (dr_stats r i) \<and> length (dc_ID c) < 12 \<or> short_id r (i + 1) cs"
    by (simp add: short_id_def)
qed (simp add: short_id_def)

definition container_rows :: "string \<Rightarrow> string \<Rightarrow> docker_round \<Rightarrow> nat \<Rightarrow> dockerContainer list \<Rightarrow> nat \<Rightarrow> f64 list" where
  "container_rows op id12 r i cs k =
     (case dr_stats r (i + k) of Inr s \<Rightarrow> if take 12 (dc_ID (cs ! k)) = id12 then blkio_rows op s else [] | Inl _ \<Rightarrow> [])"

lemma collect_loop_spec:
  assumes "\<forall>i. snd (dr_at r i)" and "op \<in> {''read'', ''write''}"
  shows "if short_id r i cs then collect_loop d r i cs ob = Inl Panic
    else \<exists>ob'. collect_loop d r i cs ob = Inr ob' \<and> picked (blkio_metric op id12) (ob_sent ob') =
      picked (blkio_metric op id12) (ob_sent ob) @ concat (map (container_rows op id12 r i cs) [0..<length cs])"
proof (induction cs arbitrary: i ob)
  case (Cons c cs)
  have rows: "concat (map (container_rows op id12 r i (c # cs)) [0..<length (c # cs)]) =
      (case dr_stats r i of Inr s \<Rightarrow> if take 12 (dc_ID c) = id12 then blkio_rows op s else [] | Inl _ \<Rightarrow> []) @
      concat (map (container_rows op id12 r (i + 1) cs) [0..<length cs])"
  proof -
    have "container_rows op id12 r i (c # cs) 0 =
        (case dr_stats r i of Inr s \<Rightarrow> if take 12 (dc_ID c) = id12 then blkio_rows op s else [] | Inl _ \<Rightarrow> [])"
      by (simp add: container_rows_def split: sum.split)
    moreover have "(\<lambda>k. container_rows op id12 r i (c # cs) (Suc k)) = container_rows op id12 r (i + 1) cs"
      by (rule ext) (simp add: container_rows_def split: sum.split)
    ultimately show ?thesis by (simp add: map_upt_Suc del: upt_Suc)
  qed
  show ?case
  proof (cases "dr_stats r i")
    case (Inl err)
    then show ?thesis using Cons.IH [of "i + 1" ob] unfolding rows by (simp split: if_splits)
  next
    case (Inr s)
    show ?thesis
    proof (cases "length (dc_ID c) < 12")
      case True
      then show ?thesis using emitContainerStats_panics [OF True] Inr by simp
    next
      case False
      obtain ob1 where one: "emitContainerStats d (dr_at r) (dr_order r) c s ob = Inr ob1"
        "picked (blkio_metric op id12) (ob_sent ob1) = picked (blkio_metric op id12) (ob_sent ob) @ (if take 12 (dc_ID c) = id12 then blkio_rows op s else [])"
        using emitContainerStats_picked [OF assms, of c] False by (metis not_le)
      show ?thesis using Cons.IH [of "i + 1" ob1] False one unfolding rows by (simp add: Inr split: if_splits)
    qed
  qed
qed simp

text \<open>
  C35: a round over the listed containers panics exactly when the statistics of a container with an ID
  of fewer than twelve characters can be read.  Otherwise it reports, for each container that can be told
  from the others by its first twelve characters, the sums modulo 2 to the 64 of the bytes its devices have read
  and written, once each, and only when one of them is not zero.  This holds while no send is given up.
\<close>

theorem docker_collects:
  assumes "\<forall>i. snd (dr_at r i)" and "dr_list r = Inr cs" and "op \<in> {''read'', ''write''}"
  shows "if short_id r 0 cs then docker_collect d r ob = Inl Panic
    else \<exists>ob'. docker_collect d r ob = Inr ob' \<and> (\<forall>k<length cs. \<forall>s. dr_stats r k = Inr s \<longrightarrow>
      (\<forall>j<length cs. j \<noteq> k \<longrightarrow> take 12 (dc_ID (cs ! j)) \<noteq> take 12 (dc_ID (cs ! k))) \<longrightarrow>
      picked (blkio_metric op (take 12 (dc_ID (cs ! k)))) (ob_sent ob') =
        picked (blkio_metric op (take 12 (dc_ID (cs ! k)))) (ob_sent ob) @ blkio_rows op s)"
proof (cases "short_id r 0 cs")
  case True
  then show ?thesis using collect_loop_spec [OF assms(1,3), of 0 cs] by (simp add: docker_collect_def assms(2))
next
  case False
  then obtain ob' where ob': "docker_collect d r ob = Inr ob'"
    using collect_loop_spec [OF assms(1,3), of 0 cs d ob] by (auto simp: docker_collect_def assms(2))
  have "picked (blkio_metric op (take 12 (dc_ID (cs ! k)))) (ob_sent ob') =
        picked (blkio_metric op (take 12 (dc_ID (cs ! k)))) (ob_sent ob) @ blkio_rows op s"
    if k: "k < length cs" "dr_stats r k = Inr s" "\<forall>j<length cs. j \<noteq> k \<longrightarrow> take 12 (dc_ID (cs ! j)) \<noteq> take 12 (dc_ID (cs ! k))" for k s
  proof -
    let ?row = "container_rows op (take 12 (dc_ID (cs ! k))) r 0 cs"
    have empty: "?row j = []" if "j < length cs" "j \<noteq> k" for j
      using k(3) that by (simp add: container_rows_def split: sum.split)
    have "[0..<length cs] = [0..<k] @ k # [Suc k..<length cs]"
      using k(1) by (metis less_imp_le_nat upt_add_eq_append upt_conv_Cons le_add_diff_inverse zero_le)
    then have "concat (map ?row [0..<length cs]) = concat (map ?row [0..<k]) @ ?row k @ concat (map ?row [Suc k..<length cs])" by simp
    moreover have "concat (map ?row [0..<k]) = []" "concat (map ?row [Suc k..<length cs]) = []" using empty k(1) by auto
    ultimately have "concat (map ?row [0..<length cs]) = blkio_rows op s" using k(2) by (simp add: container_rows_def)
    then show ?thesis
      using collect_loop_spec [OF assms(1,3), of 0 cs d ob "take 12 (dc_ID (cs ! k))"] False ob' by (simp add: docker_collect_def assms(2))
  qed
  then show ?thesis using False ob' by simp
qed

definition ex_container :: dockerContainer where
  "ex_container = \<lparr>dc_ID = ''0123456789abcdef'', dc_Names = [''/web''], dc_State = ''running''\<rparr>"

definition ex_stats :: dockerStats where
  "ex_stats = (let cpu = \<lparr>cs_CPUUsage = \<lparr>cu_TotalUsage = 0\<rparr>, cs_SystemCPUUsage = 0, cs_OnlineCPUs = 1\<rparr> in
     \<lparr>ds_CPUStats = cpu, ds_PreCPUStats = cpu, ds_MemoryStats = \<lparr>mem_Usage = 0, mem_Limit = 0\<rparr>, ds_Networks = [],
      ds_BlkioStats = \<lparr>bs_IOServiceBytesRecursive = [\<lparr>be_Op = ''read'', be_Value = 5\<rparr>, \<lparr>be_Op = ''write'', be_Value = 3\<rparr>, \<lparr>be_Op = ''read'', be_Value = 7\<rparr>]\<rparr>\<rparr>)"

definition ex_docker_round :: docker_round where
  "ex_docker_round = \<lparr>dr_list = Inr [ex_container], dr_stats = (\<lambda>_. Inr ex_stats), dr_order = (\<lambda>m. m), dr_at = (\<lambda>_. (0, True))\<rparr>"

theorem docker_collects_witness:
  "\<exists>ob'. docker_collect (NewDockerCollector 1 [] []) ex_docker_round \<lparr>ob_turn = 0, ob_sent = []\<rparr> = Inr ob' \<and>
    picked (blkio_metric ''read'' ''0123456789ab'') (ob_sent ob') = [f64_of_u64 12]"
proof -
  have long: "\<not> short_id ex_docker_round 0 [ex_container]" by (simp add: ex_docker_round_def ex_container_def)
  have id: "take 12 (dc_ID ([ex_container] ! 0)) = ''0123456789ab''" by (simp add: ex_container_def)
  have rows: "blkio_rows ''read'' ex_stats = [f64_of_u64 12]" by (simp add: blkio_rows_def op_total_def ex_stats_def Let_def)
  obtain ob' where "docker_collect (NewDockerCollector 1 [] []) ex_docker_round \<lparr>ob_turn = 0, ob_sent = []\<rparr> = Inr ob'"
    and "picked (blkio_metric ''read'' (take 12 (dc_ID ([ex_container] ! 0)))) (ob_sent ob') = blkio_rows ''read'' ex_stats"
    using docker_collects [of ex_docker_round "[ex_container]" "''read''" "NewDockerCollector 1 [] []" "\<lparr>ob_turn = 0, ob_sent = []\<rparr>"] long
    by (auto simp: ex_docker_round_def)
  then show ?thesis unfolding id rows by blast
qed

end
