(* ===== verification/Batcher.thy ===== *)
theory Batcher
  imports Core "HOL-Library.Sublist"
begin

text \<open>
  Package \<^verbatim>\<open>internal/batcher\<close>: samples queue on a channel, one goroutine gathers them into batches and
  sends those on another.  The operations are functions on the state of the batcher, the loop's
  local variables included; \<open>bat_run\<close> relates a start to the states that any interleaving of clients, loop,
  ticker, reader and cancellation leads to, with the samples accepted and the batches received.
\<close>

subsection \<open>Operations\<close>

text \<open>
  Where the loop is: in its \<^verbatim>\<open>select\<close>, in the \<^verbatim>\<open>select\<close> of \<^verbatim>\<open>flush\<close> with a batch in hand (and whether it returns
  afterwards), or gone.
\<close>

datatype phase = Selecting | Sending "Sample list" bool | Stopped

record batcher =
  b_sampleCh :: "Sample list"
  b_batchCh :: "Sample list list"
  b_batchSize :: int
  b_flushEvery :: int
  b_queueSize :: int
  b_buf :: "Sample list"
  b_phase :: phase
  b_ctxDone :: bool

record batcher_Config =
  bc_BatchSize :: int
  bc_FlushEvery :: int
  bc_QueueSize :: int

definition batchCh_cap :: nat where
  "batchCh_cap = 64"

definition batcher_New :: "batcher_Config \<Rightarrow> batcher" where
  "batcher_New cfg =
     \<lparr>b_sampleCh = [], b_batchCh = [],
      b_batchSize = (if bc_BatchSize cfg \<le> 0 then 1000 else bc_BatchSize cfg),
      b_flushEvery = (if bc_FlushEvery cfg \<le> 0 then 5 * 1000000000 else bc_FlushEvery cfg),
      b_queueSize = (if bc_QueueSize cfg \<le> 0 then 100000 else bc_QueueSize cfg),
      b_buf = [], b_phase = Selecting, b_ctxDone = False\<rparr>"

definition bat_Submit :: "Sample \<Rightarrow> batcher \<Rightarrow> go_error option \<times> batcher" where
  "bat_Submit s b =
     (if int (length (b_sampleCh b)) < b_queueSize b then (None, b\<lparr>b_sampleCh := b_sampleCh b @ [s]\<rparr>)
      else (Some ErrBackpressure, b))"

text \<open>\<^verbatim>\<open>Flush\<close> sends a sample like any other; it waits while the channel is full.\<close>

definition flush_marker :: Sample where
  "flush_marker = \<lparr>sa_Metric = ''__flush__'', sa_Tags = [], sa_Timestamp = 0, sa_Value = 0\<rparr>"

definition bat_Flush :: "batcher \<Rightarrow> batcher option" where
  "bat_Flush b =
     (if int (length (b_sampleCh b)) < b_queueSize b then Some (b\<lparr>b_sampleCh := b_sampleCh b @ [flush_marker]\<rparr>) else None)"

text \<open>The local function \<^verbatim>\<open>flush\<close> of the loop, up to its \<^verbatim>\<open>select\<close>.\<close>

definition bat_flush :: "bool \<Rightarrow> batcher \<Rightarrow> batcher" where
  "bat_flush final b =
     (if b_buf b = [] then b\<lparr>b_phase := (if final then Stopped else Selecting)\<rparr>
      else b\<lparr>b_buf := [], b_phase := Sending (b_buf b) final\<rparr>)"

text \<open>The two outcomes of that \<^verbatim>\<open>select\<close>.\<close>

definition bat_send :: "batcher \<Rightarrow> batcher option" where
  "bat_send b =
     (case b_phase b of
        Sending batch final \<Rightarrow>
          if length (b_batchCh b) < batchCh_cap
          then Some (b\<lparr>b_batchCh := b_batchCh b @ [batch], b_phase := (if final then Stopped else Selecting)\<rparr>)
          else None
      | _ \<Rightarrow> None)"

definition bat_abandon :: "batcher \<Rightarrow> batcher option" where
  "bat_abandon b =
     (case b_phase b of
        Sending batch final \<Rightarrow> if b_ctxDone b then Some (b\<lparr>b_phase := (if final then Stopped else Selecting)\<rparr>) else None
      | _ \<Rightarrow> None)"

text \<open>The three cases of the \<^verbatim>\<open>select\<close> in \<^verbatim>\<open>loop\<close>.\<close>

definition loop_done :: "batcher \<Rightarrow> batcher option" where
  "loop_done b = (if b_phase b = Selecting \<and> b_ctxDone b then Some (bat_flush True b) else None)"

definition loop_tick :: "batcher \<Rightarrow> batcher option" where
  "loop_tick b = (if b_phase b = Selecting then Some (bat_flush False b) else None)"

definition loop_sample :: "batcher \<Rightarrow> batcher option" where
  "loop_sample b =
     (case (b_phase b, b_sampleCh b) of
        (Selecting, s # ss) \<Rightarrow>
          let b = b\<lparr>b_sampleCh := ss, b_buf := b_buf b @ [s]\<rparr> in
          Some (if int (length (b_buf b)) \<ge> b_batchSize b then bat_flush False b else b)
      | _ \<Rightarrow> None)"

text \<open>The reader of \<^verbatim>\<open>BatchCh\<close>.\<close>

definition bat_receive :: "batcher \<Rightarrow> (Sample list \<times> batcher) option" where
  "bat_receive b = (case b_batchCh b of [] \<Rightarrow> None | x # xs \<Rightarrow> Some (x, b\<lparr>b_batchCh := xs\<rparr>))"

subsection \<open>Runs\<close>

inductive bat_run :: "batcher \<Rightarrow> Sample list \<Rightarrow> Sample list list \<Rightarrow> batcher \<Rightarrow> bool" for b0 where
  start: "bat_run b0 [] [] b0"
| submit: "bat_run b0 ins outs b \<Longrightarrow> bat_Submit s b = (None, b') \<Longrightarrow> bat_run b0 (ins @ [s]) outs b'"
| refuse: "bat_run b0 ins outs b \<Longrightarrow> bat_Submit s b = (Some e, b') \<Longrightarrow> bat_run b0 ins outs b'"
| mark: "bat_run b0 ins outs b \<Longrightarrow> bat_Flush b = Some b' \<Longrightarrow> bat_run b0 (ins @ [flush_marker]) outs b'"
| sample: "bat_run b0 ins outs b \<Longrightarrow> loop_sample b = Some b' \<Longrightarrow> bat_run b0 ins outs b'"
| tick: "bat_run b0 ins outs b \<Longrightarrow> loop_tick b = Some b' \<Longrightarrow> bat_run b0 ins outs b'"
| ends: "bat_run b0 ins outs b \<Longrightarrow> loop_done b = Some b' \<Longrightarrow> bat_run b0 ins outs b'"
| sends: "bat_run b0 ins outs b \<Longrightarrow> bat_send b = Some b' \<Longrightarrow> bat_run b0 ins outs b'"
| abandon: "bat_run b0 ins outs b \<Longrightarrow> bat_abandon b = Some b' \<Longrightarrow> bat_run b0 ins outs b'"
| receive: "bat_run b0 ins outs b \<Longrightarrow> bat_receive b = Some (x, b') \<Longrightarrow> bat_run b0 ins (outs @ [x]) b'"
| cancel: "bat_run b0 ins outs b \<Longrightarrow> bat_run b0 ins outs (b\<lparr>b_ctxDone := True\<rparr>)"

text \<open>What the batcher holds, oldest first.\<close>

definition in_hand :: "batcher \<Rightarrow> Sample list" where
  "in_hand b = (case b_phase b of Sending batch _ \<Rightarrow> batch | _ \<Rightarrow> [])"

definition in_flight :: "batcher \<Rightarrow> Sample list" where
  "in_flight b = concat (b_batchCh b) @ in_hand b @ b_buf b @ b_sampleCh b"

definition batch_ok :: "int \<Rightarrow> Sample list \<Rightarrow> bool" where
  "batch_ok n x \<longleftrightarrow> x \<noteq> [] \<and> int (length x) \<le> n"

definition batcher_wf :: "batcher \<Rightarrow> bool" where
  "batcher_wf b \<longleftrightarrow> 0 < b_batchSize b \<and> 0 < b_queueSize b \<and> int (length (b_buf b)) < b_batchSize b \<and>
     int (length (b_sampleCh b)) \<le> b_queueSize b \<and> length (b_batchCh b) \<le> batchCh_cap \<and>
     (\<forall>x\<in>set (b_batchCh b). batch_ok (b_batchSize b) x) \<and>
     (case b_phase b of Selecting \<Rightarrow> True | Stopped \<Rightarrow> b_ctxDone b
      | Sending x final \<Rightarrow> batch_ok (b_batchSize b) x \<and> b_buf b = [] \<and> (final \<longrightarrow> b_ctxDone b))"

lemmas bat_ops = bat_Submit_def bat_Flush_def bat_flush_def bat_send_def bat_abandon_def loop_done_def loop_tick_def
  loop_sample_def bat_receive_def

lemma loop_sample_cases:
  assumes "loop_sample b = Some b'"
  obtains s ss where "b_phase b = Selecting" "b_sampleCh b = s # ss" "int (length (b_buf b)) + 1 < b_batchSize b"
      "b' = b\<lparr>b_sampleCh := ss, b_buf := b_buf b @ [s]\<rparr>"
  | s ss where "b_phase b = Selecting" "b_sampleCh b = s # ss" "b_batchSize b \<le> int (length (b_buf b)) + 1"
      "b' = b\<lparr>b_sampleCh := ss, b_buf := [], b_phase := Sending (b_buf b @ [s]) False\<rparr>"
  using assms by (auto simp: loop_sample_def bat_flush_def Let_def split: phase.splits list.splits if_splits)

text \<open>One step keeps well-formedness, the configuration, and \<open>in_flight\<close> up to what goes in and out.\<close>

abbreviation same_config :: "batcher \<Rightarrow> batcher \<Rightarrow> bool" where
  "same_config b' b \<equiv> b_ctxDone b' = b_ctxDone b \<and> b_batchSize b' = b_batchSize b"

lemmas bat_state = batcher_wf_def in_flight_def in_hand_def

lemma wf_submit: "batcher_wf b \<Longrightarrow> bat_Submit s b = (None, b') \<Longrightarrow>
    batcher_wf b' \<and> in_flight b' = in_flight b @ [s] \<and> same_config b' b"
  by (auto simp: bat_state bat_Submit_def split: if_splits phase.splits)

lemma wf_mark: "batcher_wf b \<Longrightarrow> bat_Flush b = Some b' \<Longrightarrow>
    batcher_wf b' \<and> in_flight b' = in_flight b @ [flush_marker] \<and> same_config b' b"
  by (auto simp: bat_state bat_Flush_def split: if_splits phase.splits)

lemma wf_sample: "batcher_wf b \<Longrightarrow> loop_sample b = Some b' \<Longrightarrow>
    batcher_wf b' \<and> in_flight b' = in_flight b \<and> same_config b' b"
  by (elim loop_sample_cases) (auto simp: bat_state batch_ok_def)

lemma wf_flush: "batcher_wf b \<Longrightarrow> b_phase b = Selecting \<Longrightarrow> final \<longrightarrow> b_ctxDone b \<Longrightarrow>
    batcher_wf (bat_flush final b) \<and> in_flight (bat_flush final b) = in_flight b \<and> same_config (bat_flush final b) b"
  by (auto simp: bat_state bat_flush_def batch_ok_def)

lemma wf_send: "batcher_wf b \<Longrightarrow> bat_send b = Some b' \<Longrightarrow>
    batcher_wf b' \<and> in_flight b' = in_flight b \<and> same_config b' b"
  by (auto simp: bat_state bat_send_def split: phase.splits if_splits)

lemma wf_receive: "batcher_wf b \<Longrightarrow> bat_receive b = Some (x, b') \<Longrightarrow>
    batcher_wf b' \<and> in_flight b = x @ in_flight b' \<and> batch_ok (b_batchSize b) x \<and> same_config b' b"
  by (auto simp: bat_state bat_receive_def split: list.splits phase.splits)

lemma wf_abandon: "batcher_wf b \<Longrightarrow> bat_abandon b = Some b' \<Longrightarrow>
    batcher_wf b' \<and> subseq (in_flight b') (in_flight b) \<and> b_ctxDone b \<and> same_config b' b"
  by (auto simp: bat_state bat_abandon_def subseq_append' split: phase.splits if_splits intro: subseq_drop_many)

lemma batcher_New_wf: "batcher_wf (batcher_New cfg)" "in_flight (batcher_New cfg) = []" "\<not> b_ctxDone (batcher_New cfg)"
  by (simp_all add: batcher_New_def batcher_wf_def in_flight_def in_hand_def batchCh_cap_def)

lemma bat_run_inv:
  assumes "bat_run b0 ins outs b" and "batcher_wf b0" and "in_flight b0 = []"
  shows "batcher_wf b \<and> b_batchSize b = b_batchSize b0 \<and> subseq (concat outs @ in_flight b) ins \<and>
    (\<not> b_ctxDone b \<longrightarrow> concat outs @ in_flight b = ins) \<and> (\<forall>x\<in>set outs. batch_ok (b_batchSize b0) x)"
  using assms(1)
proof (induction rule: bat_run.induct)
  case start
  then show ?case using assms(2,3) by simp
next
  case (submit ins outs b s b')
  then show ?case using wf_submit [of b s b'] by (auto simp flip: append_assoc)
next
  case (refuse ins outs b s e b')
  then have "b' = b" by (auto simp: bat_Submit_def split: if_splits)
  then show ?case using refuse by simp
next
  case (mark ins outs b b')
  then show ?case using wf_mark [of b b'] by (auto simp flip: append_assoc)
next
  case (sample ins outs b b')
  then show ?case using wf_sample [of b b'] by auto
next
  case (tick ins outs b b')
  then show ?case using wf_flush [of b False] by (auto simp: loop_tick_def split: if_splits)
next
  case (ends ins outs b b')
  then show ?case using wf_flush [of b True] by (auto simp: loop_done_def split: if_splits)
next
  case (sends ins outs b b')
  then show ?case using wf_send [of b b'] by auto
next
  case (abandon ins outs b b')
  have F: "batcher_wf b'" "subseq (in_flight b') (in_flight b)" "b_ctxDone b'" "b_batchSize b' = b_batchSize b"
    using wf_abandon [of b b'] abandon by auto
  have "subseq (concat outs @ in_flight b') (concat outs @ in_flight b)" using F(2) by (simp add: subseq_append')
  also have "subseq (concat outs @ in_flight b) ins" using abandon.IH by blast
  finally show ?case using F abandon.IH by simp
next
  case (receive ins outs b x b')
  then show ?case using wf_receive [of b x b'] by auto
next
  case (cancel ins outs b)
  then show ?case by (auto simp: bat_state split: phase.splits)
qed

text \<open>
  C26: batching loses and reorders nothing.  Whatever the interleaving, until the context is cancelled
  the batches received, followed by what the batcher still holds, are exactly the samples accepted,
  in order; after that whole batches can be missing, but nothing is repeated or reordered.  No batch
  is empty or larger than the batch size, and the channels stay within their capacity.
\<close>

theorem batcher_keeps_order:
  assumes "bat_run (batcher_New cfg) ins outs b"
  shows "(\<not> b_ctxDone b \<longrightarrow> concat outs @ in_flight b = ins) \<and> subseq (concat outs @ in_flight b) ins \<and>
    (\<forall>x\<in>set outs. x \<noteq> [] \<and> int (length x) \<le> (if bc_BatchSize cfg \<le> 0 then 1000 else bc_BatchSize cfg)) \<and>
    length (b_batchCh b) \<le> 64 \<and> int (length (b_sampleCh b)) \<le> (if bc_QueueSize cfg \<le> 0 then 100000 else bc_QueueSize cfg)"
proof -
  have q: "b_queueSize b = b_queueSize (batcher_New cfg)"
    using assms by (induction rule: bat_run.induct)
      (auto simp: bat_ops Let_def split: if_splits phase.splits list.splits)
  note I = bat_run_inv [OF assms batcher_New_wf(1,2)]
  then have "length (b_batchCh b) \<le> 64" "int (length (b_sampleCh b)) \<le> b_queueSize (batcher_New cfg)"
    by (simp_all add: batcher_wf_def batchCh_cap_def flip: q)
  then show ?thesis using I by (simp add: batch_ok_def batcher_New_def)
qed

subsection \<open>Everything arrives\<close>

lemma drain_batches:
  assumes "bat_run b0 ins outs b"
  shows "\<exists>outs'. bat_run b0 ins outs' (b\<lparr>b_batchCh := []\<rparr>)"
  using assms
proof (induction "b_batchCh b" arbitrary: b outs)
  case Nil
  then have "b\<lparr>b_batchCh := []\<rparr> = b" by simp
  then show ?case using Nil.prems by metis
next
  case (Cons x xs)
  have "bat_receive b = Some (x, b\<lparr>b_batchCh := xs\<rparr>)" using Cons.hyps(2) by (simp add: bat_receive_def flip: Cons.hyps(2))
  from Cons.hyps(1) [of "b\<lparr>b_batchCh := xs\<rparr>", OF _ receive [OF Cons.prems this]] show ?case by simp
qed

lemma finish_send:
  assumes "bat_run b0 ins outs b" and "b_phase b = Selecting \<or> (\<exists>x. b_phase b = Sending x False)"
  shows "\<exists>outs' b'. bat_run b0 ins outs' b' \<and> b_phase b' = Selecting \<and> b_batchCh b' = [] \<and> b_buf b' = b_buf b \<and>
    b_sampleCh b' = b_sampleCh b \<and> b_ctxDone b' = b_ctxDone b"
proof -
  obtain o1 where r1: "bat_run b0 ins o1 (b\<lparr>b_batchCh := []\<rparr>)" using drain_batches [OF assms(1)] by blast
  show ?thesis
  proof (cases "b_phase b")
    case (Sending x final)
    then have "bat_send (b\<lparr>b_batchCh := []\<rparr>) = Some (b\<lparr>b_batchCh := [x], b_phase := Selecting\<rparr>)"
      using assms(2) by (simp add: bat_send_def batchCh_cap_def)
    from drain_batches [OF sends [OF r1 this]] show ?thesis by fastforce
  qed (use r1 assms(2) in fastforce)+
qed

lemma drain_samples:
  assumes "bat_run b0 ins outs b" and "b_phase b = Selecting" and "\<not> b_ctxDone b"
  shows "\<exists>outs' b'. bat_run b0 ins outs' b' \<and> b_phase b' = Selecting \<and> b_batchCh b' = [] \<and> b_sampleCh b' = [] \<and> \<not> b_ctxDone b'"
  using assms
proof (induction "length (b_sampleCh b)" arbitrary: b outs)
  case 0
  then show ?case using drain_batches [OF "0.prems"(1)] by fastforce
next
  case (Suc n)
  obtain s ss where ss: "b_sampleCh b = s # ss" using Suc.hyps(2) by (cases "b_sampleCh b") auto
  then obtain b1 where b1: "loop_sample b = Some b1" using Suc.prems(2) by (simp add: loop_sample_def Let_def)
  then have "b_sampleCh b1 = ss" "b_ctxDone b1 = b_ctxDone b" "b_phase b1 = Selecting \<or> (\<exists>x. b_phase b1 = Sending x False)"
    using ss by (elim loop_sample_cases; simp)+
  then obtain o2 b2 where r: "bat_run b0 ins o2 b2" "b_phase b2 = Selecting" "b_sampleCh b2 = ss" "\<not> b_ctxDone b2"
    using finish_send [OF sample [OF Suc.prems(1) b1]] Suc.prems(3) by metis
  have "n = length (b_sampleCh b2)" using Suc.hyps(2) ss r(3) by simp
  from Suc.hyps(1) [OF this r(1,2,4)] show ?case .
qed

lemma bat_run_trans:
  assumes "bat_run b ins' outs' b'" and "bat_run b0 ins outs b"
  shows "bat_run b0 (ins @ ins') (outs @ outs') b'"
  using assms(1)
proof (induction rule: bat_run.induct)
  case start
  then show ?case using assms(2) by simp
next
  case (submit ins' outs' b1 s b2)
  then show ?case using bat_run.submit [of b0 "ins @ ins'" "outs @ outs'" b1 s b2] by simp
next
  case (mark ins' outs' b1 b2)
  then show ?case using bat_run.mark [of b0 "ins @ ins'" "outs @ outs'" b1 b2] by simp
next
  case (receive ins' outs' b1 x b2)
  then show ?case using bat_run.receive [of b0 "ins @ ins'" "outs @ outs'" b1 x b2] by simp
qed (blast intro: bat_run.intros)+

text \<open>
  C27: every accepted sample can be delivered.  Any run without cancellation can be continued from the
  state \<open>b\<close> it has reached, by nothing but the loop, a tick of its ticker and a reader that takes what is offered (no
  sample goes in, the context is not cancelled), until the batcher is empty; what was received before and what is received in the
  continuation are together exactly the samples accepted, in order.  So no reachable state is stuck.
\<close>

theorem batcher_delivers_all:
  assumes "bat_run (batcher_New cfg) ins outs b" and "\<not> b_ctxDone b"
  shows "\<exists>outs' b'. bat_run b [] outs' b' \<and> bat_run (batcher_New cfg) ins (outs @ outs') b' \<and>
    concat (outs @ outs') = ins \<and> in_flight b' = [] \<and> \<not> b_ctxDone b'"
proof -
  have "batcher_wf b" using bat_run_inv [OF assms(1) batcher_New_wf(1,2)] by blast
  then have "b_phase b = Selecting \<or> (\<exists>x. b_phase b = Sending x False)"
    using assms(2) by (cases "b_phase b") (auto simp: batcher_wf_def)
  then obtain o1 b1 where r1: "bat_run b [] o1 b1" "b_phase b1 = Selecting" "\<not> b_ctxDone b1"
    using finish_send [OF start] assms(2) by metis
  obtain o2 b2 where r2: "bat_run b [] o2 b2" "b_phase b2 = Selecting" "b_sampleCh b2 = []" "\<not> b_ctxDone b2"
    using drain_samples [OF r1] by metis
  have "loop_tick b2 = Some (bat_flush False b2)" using r2(2) by (simp add: loop_tick_def)
  note r3 = tick [OF r2(1) this]
  have "b_phase (bat_flush False b2) = Selecting \<or> (\<exists>x. b_phase (bat_flush False b2) = Sending x False)"
    "b_buf (bat_flush False b2) = []" "b_sampleCh (bat_flush False b2) = []" "\<not> b_ctxDone (bat_flush False b2)"
    using r2(3,4) by (simp_all add: bat_flush_def)
  with finish_send [OF r3] obtain o4 b4 where r4: "bat_run b [] o4 b4" "b_phase b4 = Selecting" "b_batchCh b4 = []"
    "b_buf b4 = []" "b_sampleCh b4 = []" "\<not> b_ctxDone b4" by metis
  then have e: "in_flight b4 = []" by (simp add: in_flight_def in_hand_def)
  have r: "bat_run (batcher_New cfg) ins (outs @ o4) b4" using bat_run_trans [OF r4(1) assms(1)] by simp
  have "concat (outs @ o4) @ in_flight b4 = ins" using bat_run_inv [OF r batcher_New_wf(1,2)] r4(6) by blast
  then show ?thesis using r4(1,6) r e by auto
qed

subsection \<open>Examples\<close>

definition ex_sample :: Sample where
  "ex_sample = \<lparr>sa_Metric = ''cpu'', sa_Tags = [], sa_Timestamp = 1, sa_Value = 0\<rparr>"

lemma ex_bat_run:
  "\<exists>b. bat_run (batcher_New \<lparr>bc_BatchSize = 1, bc_FlushEvery = 1, bc_QueueSize = 1\<rparr>) [ex_sample] [] b \<and> \<not> b_ctxDone b"
proof -
  let ?b = "batcher_New \<lparr>bc_BatchSize = 1, bc_FlushEvery = 1, bc_QueueSize = 1\<rparr>"
  have "bat_Submit ex_sample ?b = (None, ?b\<lparr>b_sampleCh := [ex_sample]\<rparr>)" by (simp add: bat_Submit_def batcher_New_def)
  from submit [OF start this] show ?thesis using batcher_New_wf(3) by fastforce
qed

lemma batcher_keeps_order_witness:
  "\<exists>b. bat_run (batcher_New \<lparr>bc_BatchSize = 1, bc_FlushEvery = 1, bc_QueueSize = 1\<rparr>) [ex_sample] [] b \<and> in_flight b = [ex_sample]"
  using ex_bat_run batcher_keeps_order [of "\<lparr>bc_BatchSize = 1, bc_FlushEvery = 1, bc_QueueSize = 1\<rparr>" "[ex_sample]" "[]"] by fastforce

lemma batcher_delivers_all_witness:
  "\<exists>b outs b'. bat_run (batcher_New \<lparr>bc_BatchSize = 1, bc_FlushEvery = 1, bc_QueueSize = 1\<rparr>) [ex_sample] [] b \<and>
     bat_run b [] outs b' \<and> concat outs = [ex_sample] \<and> in_flight b' = []"
  using ex_bat_run batcher_delivers_all by fastforce

text \<open>\<^verbatim>\<open>Flush\<close> does not flush: its marker becomes a sample of a batch, and a full queue blocks the caller.\<close>

lemma flush_marker_is_shipped:
  "bat_Flush b = Some b' \<Longrightarrow> in_flight b' = in_flight b @ [flush_marker]"
  by (auto simp: bat_Flush_def in_flight_def in_hand_def split: if_splits phase.splits)

end
