(* ===== verification/Agent.thy ===== *)
theory Agent
  imports Config File_Tailer Statsd Syscollector Docker Batcher Shipper
begin

text \<open>
  Package \<^verbatim>\<open>internal/agent\<close>: the collectors send samples on a channel, the loop of \<^verbatim>\<open>Run\<close> submits them to the
  batcher, and another loop has the batches sent.  \<open>agent_run\<close> relates a started agent to the states that any
  interleaving of its goroutines leads to.  The lemmas show what a configuration starts, that a sample is in
  exactly one place on its way, and that shutting down can fail to end.  The goroutine of the batcher is taken to have
  been started when the loop comes to wait for it.
\<close>

subsection \<open>Starting\<close>

datatype collector =
    TailFile FileTailer
  | WatchSystem SysCollector
  | ListenStatsD StatsDListener
  | WatchDocker DockerCollector

text \<open>The interface's \<^verbatim>\<open>Stop\<close>; the agent itself never calls it, its collectors end with its context.\<close>

definition collector_Stop :: "collector \<Rightarrow> collector res" where
  "collector_Stop c =
     (case c of
        TailFile f \<Rightarrow> res_bind (tailer_Stop f) (\<lambda>f. Inr (TailFile f))
      | WatchSystem s \<Rightarrow> res_bind (sys_Stop s) (\<lambda>s. Inr (WatchSystem s))
      | ListenStatsD s \<Rightarrow> res_bind (statsd_Stop s) (\<lambda>s. Inr (ListenStatsD s))
      | WatchDocker d \<Rightarrow> res_bind (docker_Stop d) (\<lambda>d. Inr (WatchDocker d)))"

fun collector_stopped :: "collector \<Rightarrow> bool" where
  "collector_stopped (TailFile f) = ft_stopped f"
| "collector_stopped (WatchSystem s) = sy_stopped s"
| "collector_stopped (ListenStatsD s) = sd_stopped s"
| "collector_stopped (WatchDocker d) = do_stopped d"

interpretation collector_stops: stoppable collector_Stop collector_stopped
proof
  fix c
  show "\<exists>c'. collector_Stop c = Inr c' \<and> collector_stopped c'" if "\<not> collector_stopped c"
    using that tailer_stops.stop_running sys_stops.stop_running statsd_stops.stop_running docker_stops.stop_running
    by (cases c) (fastforce simp: collector_Stop_def)+
  show "collector_Stop c = Inl Panic" if "collector_stopped c"
    using that tailer_stops.stop_stopped sys_stops.stop_stopped statsd_stops.stop_stopped docker_stops.stop_stopped
    by (cases c) (simp_all add: collector_Stop_def)
qed

record Agent =
  ag_cfg :: Config
  ag_batcher :: "batcher option"
  ag_shipper :: "shipper option"
  ag_collectors :: "collector list"

definition agent_New :: "Config \<Rightarrow> Agent" where
  "agent_New cfg = \<lparr>ag_cfg = cfg, ag_batcher = None, ag_shipper = None, ag_collectors = []\<rparr>"

text \<open>
  The parser of a file, \<open>None\<close> when its type is not known.  \<open>compile\<close> is the compiler of regular
  expressions.
\<close>

definition file_parser :: "(string \<Rightarrow> regexp res) \<Rightarrow> (string, string) gomap \<Rightarrow> FileTailConfig \<Rightarrow> (int \<Rightarrow> string \<Rightarrow> Sample res) option res" where
  "file_parser compile defaultTags ft =
     (if fc_Parser ft = ''json'' then
        Inr (Some (json_Parse (NewJSONParser \<lparr>jp_MetricField = fc_MetricField ft, jp_ValueField = fc_ValueField ft,
          jp_TimestampField = fc_TimestampField ft, jp_TagFields = fc_TagFields ft, jp_DefaultTags = defaultTags\<rparr>)))
      else if fc_Parser ft = ''regex'' then
        res_bind (NewRegexParser (compile (fc_Pattern ft)) (fc_MetricField ft) (fc_ValueField ft) (fc_TagFields ft) defaultTags)
          (\<lambda>p. Inr (Some (regex_Parse p)))
      else Inr None)"

fun start_tailers :: "(string \<Rightarrow> regexp res) \<Rightarrow> (string, string) gomap \<Rightarrow> FileTailConfig list \<Rightarrow> collector list \<Rightarrow> collector list res" where
  "start_tailers compile defaultTags [] cols = Inr cols"
| "start_tailers compile defaultTags (ft # fts) cols =
     res_bind (file_parser compile defaultTags ft) (\<lambda>parser.
       case parser of
         None \<Rightarrow> start_tailers compile defaultTags fts cols
       | Some parse \<Rightarrow> start_tailers compile defaultTags fts
           (cols @ [TailFile (NewFileTailer (fc_Path ft) parse (sint (fc_PollInterval ft)) defaultTags)]))"

definition startCollectors :: "(string \<Rightarrow> regexp res) \<Rightarrow> (string, string) gomap \<Rightarrow> Agent \<Rightarrow> Agent res" where
  "startCollectors compile defaultTags a =
     (let cfg = ag_cfg a in
      res_bind (start_tailers compile defaultTags (cf_FileTail cfg) []) (\<lambda>cols.
        let cols = (if length (yc_EnabledMetrics (cf_System cfg)) > 0
                    then cols @ [WatchSystem (NewSysCollector (sint (yc_Interval (cf_System cfg))) (yc_EnabledMetrics (cf_System cfg)) defaultTags)] else cols);
            cols = (if tc_Enabled (cf_StatsD cfg)
                    then cols @ [ListenStatsD (NewStatsDListener (tc_Listen (cf_StatsD cfg)) defaultTags)] else cols);
            cols = (if kc_Enabled (cf_Docker cfg)
                    then cols @ [WatchDocker (NewDockerCollector (sint (kc_Interval (cf_Docker cfg))) (kc_Endpoint (cf_Docker cfg)) defaultTags)] else cols)
        in Inr (a\<lparr>ag_collectors := cols\<rparr>)))"

text \<open>The name of the host: the configured one, or what the system says.\<close>

definition agent_hostname :: "Config \<Rightarrow> string res \<Rightarrow> string" where
  "agent_hostname cfg os_Hostname =
     (if ac_Hostname (cf_Agent cfg) = [] then (case os_Hostname of Inr h \<Rightarrow> h | Inl _ \<Rightarrow> ''unknown'') else ac_Hostname (cf_Agent cfg))"

text \<open>
  \<^verbatim>\<open>Run\<close> up to its goroutines: the agent with its parts, and the capacity of its channel.  The map of default
  tags is the one of the configuration, if that has one.
\<close>

definition agent_prepare :: "(string \<Rightarrow> regexp res) \<Rightarrow> string res \<Rightarrow> Agent \<Rightarrow> (Agent \<times> int) res" where
  "agent_prepare compile os_Hostname a =
     (let cfg = ag_cfg a;
          defaultTags = store (case cf_DefaultTags cfg of Some tags \<Rightarrow> tags | None \<Rightarrow> []) ''host'' (agent_hostname cfg os_Hostname);
          cfg = (if cf_DefaultTags cfg = None then cfg else cfg\<lparr>cf_DefaultTags := Some defaultTags\<rparr>);
          a = a\<lparr>ag_cfg := cfg,
                ag_shipper := Some (shipper_New \<lparr>sc_URL = oc_URL (cf_Output cfg), sc_Timeout = sint (oc_Timeout (cf_Output cfg)),
                  sc_RetryMax = oc_RetryMax (cf_Output cfg)\<rparr>),
                ag_batcher := Some (batcher_New \<lparr>bc_BatchSize = ac_BatchSize (cf_Agent cfg),
                  bc_FlushEvery = sint (ac_BatchInterval (cf_Agent cfg)), bc_QueueSize = ac_QueueSize (cf_Agent cfg)\<rparr>)\<rparr>
      in res_bind (startCollectors compile defaultTags a) (\<lambda>a.
        if ac_QueueSize (cf_Agent cfg) < 0 then Inl Panic else Inr (a, ac_QueueSize (cf_Agent cfg))))"

subsection \<open>Running\<close>

text \<open>
  Where the loop of \<^verbatim>\<open>Run\<close> is: in its \<^verbatim>\<open>select\<close>, in \<^verbatim>\<open>Flush\<close>, in \<^verbatim>\<open>Wait\<close>, or returned; and where \<^verbatim>\<open>runShipper\<close> is.
\<close>

datatype main_phase = Looping | Flushing | Waiting | Returned

text \<open>The loop goes through these in their order.\<close>

fun main_rank :: "main_phase \<Rightarrow> nat" where
  "main_rank Looping = 0"
| "main_rank Flushing = 1"
| "main_rank Waiting = 2"
| "main_rank Returned = 3"

instantiation main_phase :: linorder
begin

definition less_eq_main_phase :: "main_phase \<Rightarrow> main_phase \<Rightarrow> bool" where
  "less_eq_main_phase p q \<longleftrightarrow> main_rank p \<le> main_rank q"

definition less_main_phase :: "main_phase \<Rightarrow> main_phase \<Rightarrow> bool" where
  "less_main_phase p q \<longleftrightarrow> main_rank p < main_rank q"

instance
proof
  fix p q :: main_phase
  show "p \<le> q \<Longrightarrow> q \<le> p \<Longrightarrow> p = q" by (cases p; cases q) (simp_all add: less_eq_main_phase_def)
qed (auto simp: less_eq_main_phase_def less_main_phase_def)

end

datatype ship_phase = Receiving | Posting "Sample list" | ShipperGone

text \<open>The running agent, with the results of \<^verbatim>\<open>Send\<close> and the samples it logged as dropped.\<close>

record running =
  ru_sampleCh :: "Sample list"
  ru_capacity :: int
  ru_batcher :: batcher
  ru_shipper :: shipper
  ru_main :: main_phase
  ru_ship :: ship_phase
  ru_dropped :: "Sample list"
  ru_sent :: "(Sample list \<times> go_error option) list"

definition agent_started :: "Agent \<times> int \<Rightarrow> running option" where
  "agent_started ac =
     (case ac of (a, capacity) \<Rightarrow>
        case (ag_batcher a, ag_shipper a) of
          (Some b, Some s) \<Rightarrow> Some \<lparr>ru_sampleCh = [], ru_capacity = capacity, ru_batcher = b, ru_shipper = s, ru_main = Looping,
            ru_ship = Receiving, ru_dropped = [], ru_sent = []\<rparr>
        | _ \<Rightarrow> None)"

definition agent_Run :: "(string \<Rightarrow> regexp res) \<Rightarrow> string res \<Rightarrow> Agent \<Rightarrow> running option res" where
  "agent_Run compile os_Hostname a = res_bind (agent_prepare compile os_Hostname a) (\<lambda>ac. Inr (agent_started ac))"

text \<open>A collector sends a sample.\<close>

definition collect :: "Sample \<Rightarrow> running \<Rightarrow> running option" where
  "collect s r = (if int (length (ru_sampleCh r)) < ru_capacity r then Some (r\<lparr>ru_sampleCh := ru_sampleCh r @ [s]\<rparr>) else None)"

definition submit_sample :: "Sample \<Rightarrow> running \<Rightarrow> running" where
  "submit_sample s r =
     (case bat_Submit s (ru_batcher r) of
        (None, b) \<Rightarrow> r\<lparr>ru_batcher := b\<rparr>
      | (Some _, b) \<Rightarrow> r\<lparr>ru_batcher := b, ru_dropped := ru_dropped r @ [s]\<rparr>)"

text \<open>The loop receives a sample from the channel, or directly from a collector when the channel has no buffer.\<close>

definition main_sample :: "running \<Rightarrow> running option" where
  "main_sample r =
     (case (ru_main r, ru_sampleCh r) of
        (Looping, s # ss) \<Rightarrow> Some (submit_sample s (r\<lparr>ru_sampleCh := ss\<rparr>))
      | _ \<Rightarrow> None)"

definition hand_over :: "Sample \<Rightarrow> running \<Rightarrow> running option" where
  "hand_over s r = (if ru_main r = Looping \<and> ru_capacity r = 0 then Some (submit_sample s r) else None)"

text \<open>The three steps of the end of \<^verbatim>\<open>Run\<close>.\<close>

definition main_done :: "running \<Rightarrow> running option" where
  "main_done r = (if ru_main r = Looping \<and> b_ctxDone (ru_batcher r) then Some (r\<lparr>ru_main := Flushing\<rparr>) else None)"

definition main_flush :: "running \<Rightarrow> running option" where
  "main_flush r =
     (if ru_main r = Flushing then map_option (\<lambda>b. r\<lparr>ru_batcher := b, ru_main := Waiting\<rparr>) (bat_Flush (ru_batcher r)) else None)"

definition main_wait :: "running \<Rightarrow> running option" where
  "main_wait r = (if ru_main r = Waiting \<and> b_phase (ru_batcher r) = Stopped then Some (r\<lparr>ru_main := Returned\<rparr>) else None)"

text \<open>The loop of \<^verbatim>\<open>runShipper\<close>: it receives a batch, sends it, or returns.\<close>

definition ship_receive :: "running \<Rightarrow> running option" where
  "ship_receive r =
     (if ru_ship r = Receiving then
        map_option (\<lambda>(batch, b). r\<lparr>ru_batcher := b, ru_ship := (if batch = [] then Receiving else Posting batch)\<rparr>) (bat_receive (ru_batcher r))
      else None)"

definition ship_send :: "(nat \<Rightarrow> bool) \<Rightarrow> (nat \<Rightarrow> http_reply) \<Rightarrow> running \<Rightarrow> running option" where
  "ship_send cancelled reply r =
     (case ru_ship r of
        Posting batch \<Rightarrow>
          (case Send cancelled reply (ru_shipper r) batch of
             Inr (err, _) \<Rightarrow> Some (r\<lparr>ru_ship := Receiving, ru_sent := ru_sent r @ [(batch, err)]\<rparr>)
           | Inl _ \<Rightarrow> None)
      | _ \<Rightarrow> None)"

definition ship_done :: "running \<Rightarrow> running option" where
  "ship_done r = (if ru_ship r = Receiving \<and> b_ctxDone (ru_batcher r) then Some (r\<lparr>ru_ship := ShipperGone\<rparr>) else None)"

text \<open>A step of the batcher's own loop.\<close>

definition batcher_steps :: "(batcher \<Rightarrow> batcher option) list" where
  "batcher_steps = [loop_sample, loop_tick, loop_done, bat_send, bat_abandon]"

definition in_batcher :: "(batcher \<Rightarrow> batcher option) \<Rightarrow> running \<Rightarrow> running option" where
  "in_batcher f r = map_option (\<lambda>b. r\<lparr>ru_batcher := b\<rparr>) (f (ru_batcher r))"

text \<open>The samples that the loop of \<^verbatim>\<open>Run\<close> has received, and the states reached.\<close>

inductive agent_run :: "running \<Rightarrow> Sample list \<Rightarrow> running \<Rightarrow> bool" for r0 where
  begins: "agent_run r0 [] r0"
| collects: "agent_run r0 ins r \<Longrightarrow> collect s r = Some r' \<Longrightarrow> agent_run r0 ins r'"
| samples: "agent_run r0 ins r \<Longrightarrow> main_sample r = Some r' \<Longrightarrow> agent_run r0 (ins @ [hd (ru_sampleCh r)]) r'"
| hands: "agent_run r0 ins r \<Longrightarrow> hand_over s r = Some r' \<Longrightarrow> agent_run r0 (ins @ [s]) r'"
| stops: "agent_run r0 ins r \<Longrightarrow> main_done r = Some r' \<Longrightarrow> agent_run r0 ins r'"
| flushes: "agent_run r0 ins r \<Longrightarrow> main_flush r = Some r' \<Longrightarrow> agent_run r0 ins r'"
| waits: "agent_run r0 ins r \<Longrightarrow> main_wait r = Some r' \<Longrightarrow> agent_run r0 ins r'"
| receives: "agent_run r0 ins r \<Longrightarrow> ship_receive r = Some r' \<Longrightarrow> agent_run r0 ins r'"
| posts: "agent_run r0 ins r \<Longrightarrow> ship_send cancelled reply r = Some r' \<Longrightarrow> (\<forall>i. cancelled i \<longrightarrow> b_ctxDone (ru_batcher r)) \<Longrightarrow> agent_run r0 ins r'"
| leaves: "agent_run r0 ins r \<Longrightarrow> ship_done r = Some r' \<Longrightarrow> agent_run r0 ins r'"
| batches: "agent_run r0 ins r \<Longrightarrow> f \<in> set batcher_steps \<Longrightarrow> in_batcher f r = Some r' \<Longrightarrow> agent_run r0 ins r'"
| cancels: "agent_run r0 ins r \<Longrightarrow> agent_run r0 ins (r\<lparr>ru_batcher := (ru_batcher r)\<lparr>b_ctxDone := True\<rparr>\<rparr>)"

lemmas agent_ops = collect_def main_sample_def hand_over_def main_done_def main_flush_def main_wait_def ship_receive_def ship_send_def
  ship_done_def in_batcher_def submit_sample_def

text \<open>The loop never goes back.\<close>

lemma main_forwards: "agent_run r ins r' \<Longrightarrow> ru_main r \<le> ru_main r'"
  by (induction rule: agent_run.induct)
    (auto simp: agent_ops less_eq_main_phase_def split: if_splits list.splits main_phase.splits ship_phase.splits sum.splits option.splits prod.splits)

subsection \<open>What a configuration starts\<close>

definition collector_tags :: "collector \<Rightarrow> (string, string) gomap" where
  "collector_tags c =
     (case c of TailFile f \<Rightarrow> ft_defaultTags f | WatchSystem s \<Rightarrow> sy_defaultTags s | ListenStatsD s \<Rightarrow> sd_defaultTags s
      | WatchDocker d \<Rightarrow> do_defaultTags d)"

lemma collector_tags_simps [simp]:
  "collector_tags (TailFile (NewFileTailer path parse interval tags)) = tags"
  "collector_tags (WatchSystem (NewSysCollector interval enabled tags)) = tags"
  "collector_tags (ListenStatsD (NewStatsDListener addr tags)) = tags"
  "collector_tags (WatchDocker (NewDockerCollector interval endpoint tags)) = tags"
  by (simp_all add: collector_tags_def NewFileTailer_def NewSysCollector_def NewStatsDListener_def NewDockerCollector_def Let_def)

definition known_parser :: "FileTailConfig \<Rightarrow> bool" where
  "known_parser ft \<longleftrightarrow> fc_Parser ft = ''json'' \<or> fc_Parser ft = ''regex''"

definition bad_pattern :: "(string \<Rightarrow> regexp res) \<Rightarrow> FileTailConfig \<Rightarrow> go_error option" where
  "bad_pattern compile ft = (if fc_Parser ft = ''regex'' then (case compile (fc_Pattern ft) of Inl err \<Rightarrow> Some err | Inr _ \<Rightarrow> None) else None)"

lemma file_parser_bad: "bad_pattern compile ft = Some err \<Longrightarrow> file_parser compile tags ft = Inl err"
  by (auto simp: bad_pattern_def file_parser_def NewRegexParser_def split: if_splits sum.splits)

text \<open>The tailer that a file with a known parser asks for.\<close>

definition configured_parser :: "(string \<Rightarrow> regexp res) \<Rightarrow> (string, string) gomap \<Rightarrow> FileTailConfig \<Rightarrow> int \<Rightarrow> string \<Rightarrow> Sample res" where
  "configured_parser compile tags ft =
     (if fc_Parser ft = ''json'' then
        json_Parse \<lparr>jp_MetricField = fc_MetricField ft, jp_ValueField = fc_ValueField ft, jp_TimestampField = fc_TimestampField ft,
          jp_TagFields = fc_TagFields ft, jp_DefaultTags = tags\<rparr>
      else
        regex_Parse \<lparr>xp_Pattern = projr (compile (fc_Pattern ft)), xp_MetricGroup = fc_MetricField ft, xp_ValueGroup = fc_ValueField ft,
          xp_TagGroups = fc_TagFields ft, xp_DefaultTags = tags\<rparr>)"

definition configured_tailer :: "(string \<Rightarrow> regexp res) \<Rightarrow> (string, string) gomap \<Rightarrow> FileTailConfig \<Rightarrow> collector" where
  "configured_tailer compile tags ft =
     TailFile (NewFileTailer (fc_Path ft) (configured_parser compile tags ft) (sint (fc_PollInterval ft)) tags)"

lemma file_parser_ok: "bad_pattern compile ft = None \<Longrightarrow>
    file_parser compile tags ft = Inr (if known_parser ft then Some (configured_parser compile tags ft) else None)"
  by (auto simp: bad_pattern_def file_parser_def NewRegexParser_def NewJSONParser_def known_parser_def configured_parser_def
      split: if_splits sum.splits)

lemma start_tailers_spec:
  "case List.map_filter (bad_pattern compile) fts of
     err # _ \<Rightarrow> start_tailers compile tags fts cols = Inl err
   | [] \<Rightarrow> start_tailers compile tags fts cols = Inr (cols @ map (configured_tailer compile tags) (filter known_parser fts))"
proof (induction fts arbitrary: cols)
  case (Cons ft fts)
  show ?case
  proof (cases "bad_pattern compile ft")
    case (Some err)
    then show ?thesis by (simp add: List.map_filter_simps file_parser_bad)
  next
    case None
    note p = file_parser_ok [OF None, of tags]
    show ?thesis
      using Cons.IH [of cols] Cons.IH [of "cols @ [configured_tailer compile tags ft]"]
      by (simp add: List.map_filter_simps None p configured_tailer_def split: list.splits)
  qed
qed (simp add: List.map_filter_simps)

text \<open>
  C40: a configuration starts what it names.  From a loaded configuration, \<^verbatim>\<open>Run\<close> gets to its goroutines exactly if
  every pattern compiles and the queue size is not negative; it returns the error of the first pattern
  that does not compile, and panics if the size is negative.  Once started the collectors are, in this order: for each
  file with a known parser (\<^verbatim>\<open>json\<close> or \<^verbatim>\<open>regex\<close>) a tailer of its path with that parser over its fields and its interval; the
  system collector with its interval and metrics if some are enabled; the StatsD listener on its address if
  enabled; the Docker collector with its interval and endpoint if enabled; each with the configured default tags and the
  name of the host, and no other.  The batcher and the shipper have the configured batch size and number of retries.
\<close>

theorem agent_starts:
  assumes "Load yaml missing file = Inr cfg" and "\<forall>p. compile p \<noteq> Inl Panic"
    and "tags = store (case cf_DefaultTags cfg of Some tags \<Rightarrow> tags | None \<Rightarrow> []) ''host'' (agent_hostname cfg os_Hostname)"
  shows "case agent_prepare compile os_Hostname (agent_New cfg) of
      Inl err \<Rightarrow> (case List.map_filter (bad_pattern compile) (cf_FileTail cfg) of
          [] \<Rightarrow> err = Panic \<and> ac_QueueSize (cf_Agent cfg) < 0
        | first # _ \<Rightarrow> err = first \<and> err \<noteq> Panic)
    | Inr (a, capacity) \<Rightarrow> List.map_filter (bad_pattern compile) (cf_FileTail cfg) = [] \<and> capacity = ac_QueueSize (cf_Agent cfg) \<and> 0 \<le> capacity \<and>
        ag_collectors a = map (configured_tailer compile tags) (filter known_parser (cf_FileTail cfg)) @
          (if yc_EnabledMetrics (cf_System cfg) \<noteq> []
           then [WatchSystem (NewSysCollector (sint (yc_Interval (cf_System cfg))) (yc_EnabledMetrics (cf_System cfg)) tags)] else []) @
          (if tc_Enabled (cf_StatsD cfg) then [ListenStatsD (NewStatsDListener (tc_Listen (cf_StatsD cfg)) tags)] else []) @
          (if kc_Enabled (cf_Docker cfg)
           then [WatchDocker (NewDockerCollector (sint (kc_Interval (cf_Docker cfg))) (kc_Endpoint (cf_Docker cfg)) tags)] else []) \<and>
        (\<forall>c\<in>set (ag_collectors a). collector_tags c = tags) \<and> lookup tags ''host'' = Some (agent_hostname cfg os_Hostname) \<and>
        map_option b_batchSize (ag_batcher a) = Some (ac_BatchSize (cf_Agent cfg)) \<and>
        map_option sh_retryMax (ag_shipper a) = Some (oc_RetryMax (cf_Output cfg))"
proof -
  define cfg' where "cfg' = (if cf_DefaultTags cfg = None then cfg else cfg\<lparr>cf_DefaultTags := Some tags\<rparr>)"
  have cfg': "cf_Agent cfg' = cf_Agent cfg" "cf_FileTail cfg' = cf_FileTail cfg" "cf_Output cfg' = cf_Output cfg" "cf_System cfg' = cf_System cfg"
    "cf_StatsD cfg' = cf_StatsD cfg" "cf_Docker cfg' = cf_Docker cfg" by (simp_all add: cfg'_def)
  have host: "lookup tags ''host'' = Some (agent_hostname cfg os_Hostname)" by (simp add: assms(3))
  note positive = Load_positive [OF assms(1)]
  note spec = start_tailers_spec [where compile = compile and fts = "cf_FileTail cfg" and tags = tags and cols = "[]"]
  show ?thesis
  proof (cases "List.map_filter (bad_pattern compile) (cf_FileTail cfg)")
    case (Cons err errs)
    then have "bad_pattern compile ft = Some err \<Longrightarrow> err \<noteq> Panic" for ft
      using assms(2) by (auto simp: bad_pattern_def split: if_splits sum.splits)
    moreover have "\<exists>ft. bad_pattern compile ft = Some err"
      using Cons by (auto simp: List.map_filter_def map_eq_Cons_conv filter_eq_Cons_iff)
    ultimately have "err \<noteq> Panic" by blast
    moreover have "agent_prepare compile os_Hostname (agent_New cfg) = Inl err"
      using spec Cons by (simp add: agent_prepare_def agent_New_def startCollectors_def Let_def cfg' flip: assms(3) cfg'_def)
    ultimately show ?thesis using Cons by simp
  next
    case Nil
    define more where "more =
      (if yc_EnabledMetrics (cf_System cfg) \<noteq> [] then [WatchSystem (NewSysCollector (sint (yc_Interval (cf_System cfg))) (yc_EnabledMetrics (cf_System cfg)) tags)] else []) @
      (if tc_Enabled (cf_StatsD cfg) then [ListenStatsD (NewStatsDListener (tc_Listen (cf_StatsD cfg)) tags)] else []) @
      (if kc_Enabled (cf_Docker cfg) then [WatchDocker (NewDockerCollector (sint (kc_Interval (cf_Docker cfg))) (kc_Endpoint (cf_Docker cfg)) tags)] else [])"
    let ?cols = "map (configured_tailer compile tags) (filter known_parser (cf_FileTail cfg)) @ more"
    have carried: "\<forall>c\<in>set ?cols. collector_tags c = tags" by (auto simp: more_def configured_tailer_def)
    define a where "a = \<lparr>ag_cfg = cfg',
      ag_batcher = Some (batcher_New \<lparr>bc_BatchSize = ac_BatchSize (cf_Agent cfg), bc_FlushEvery = sint (ac_BatchInterval (cf_Agent cfg)), bc_QueueSize = ac_QueueSize (cf_Agent cfg)\<rparr>),
      ag_shipper = Some (shipper_New \<lparr>sc_URL = oc_URL (cf_Output cfg), sc_Timeout = sint (oc_Timeout (cf_Output cfg)), sc_RetryMax = oc_RetryMax (cf_Output cfg)\<rparr>),
      ag_collectors = ?cols\<rparr>"
    have "startCollectors compile tags (a\<lparr>ag_collectors := []\<rparr>) = Inr a"
      using spec Nil by (simp add: startCollectors_def a_def cfg' Let_def more_def)
    then have "agent_prepare compile os_Hostname (agent_New cfg) = (if ac_QueueSize (cf_Agent cfg) < 0 then Inl Panic else Inr (a, ac_QueueSize (cf_Agent cfg)))"
      by (cases "cf_DefaultTags cfg") (simp_all add: agent_prepare_def agent_New_def a_def Let_def cfg'_def assms(3))
    moreover have "ag_collectors a = ?cols" "map_option b_batchSize (ag_batcher a) = Some (ac_BatchSize (cf_Agent cfg))"
      "map_option sh_retryMax (ag_shipper a) = Some (oc_RetryMax (cf_Output cfg))"
      using positive by (simp_all add: a_def batcher_New_def shipper_New_def)
    ultimately show ?thesis using Nil carried host unfolding more_def by simp
  qed
qed

subsection \<open>Where the samples are\<close>

text \<open>The batches that the shipper's loop has taken, and the samples the batcher has accepted.\<close>

definition in_post :: "running \<Rightarrow> Sample list list" where
  "in_post r = (case ru_ship r of Posting batch \<Rightarrow> [batch] | _ \<Rightarrow> [])"

definition taken_batches :: "running \<Rightarrow> Sample list list" where
  "taken_batches r = map fst (ru_sent r) @ in_post r"

definition flush_mark :: "running \<Rightarrow> Sample list" where
  "flush_mark r = (if ru_main r \<in> {Waiting, Returned} then [flush_marker] else [])"

text \<open>The run of the batcher inside a run of the agent.\<close>

definition agent_inv :: "batcher \<Rightarrow> Sample list \<Rightarrow> running \<Rightarrow> bool" where
  "agent_inv b0 ins r \<longleftrightarrow> (\<exists>acc. bat_run b0 (acc @ flush_mark r) (taken_batches r) (ru_batcher r) \<and> ins \<in> shuffles acc (ru_dropped r))"

lemma shuffles_snoc:
  assumes "zs \<in> shuffles xs ys"
  shows "zs @ [a] \<in> shuffles (xs @ [a]) ys" and "zs @ [a] \<in> shuffles xs (ys @ [a])"
proof -
  have *: "zs @ [a] \<in> shuffles (xs @ [a]) ys" if "zs \<in> shuffles xs ys" for zs xs ys :: "'a list"
    using that
  proof (induction xs ys arbitrary: zs rule: shuffles.induct)
    case (1 ys)
    then show ?case by (induction ys arbitrary: zs) (auto simp: Cons_in_shuffles_iff)
  qed (auto simp: Cons_in_shuffles_iff)
  show "zs @ [a] \<in> shuffles (xs @ [a]) ys" using * [OF assms] .
  show "zs @ [a] \<in> shuffles xs (ys @ [a])" using * [of zs ys xs] assms by (simp add: shuffles_commutes)
qed

lemma agent_inv_submit:
  assumes "agent_inv b0 ins r" and "ru_main r = Looping"
  shows "agent_inv b0 (ins @ [s]) (submit_sample s (r\<lparr>ru_sampleCh := ch\<rparr>))"
proof -
  obtain acc where acc: "bat_run b0 acc (taken_batches r) (ru_batcher r)" "ins \<in> shuffles acc (ru_dropped r)"
    using assms by (auto simp: agent_inv_def flush_mark_def)
  obtain e b where sub: "bat_Submit s (ru_batcher r) = (e, b)" by (cases "bat_Submit s (ru_batcher r)")
  show ?thesis
  proof (cases e)
    case None
    have "bat_run b0 (acc @ [s]) (taken_batches r) b" using bat_run.submit [OF acc(1)] sub None by blast
    moreover have "ins @ [s] \<in> shuffles (acc @ [s]) (ru_dropped r)" using shuffles_snoc(1) [OF acc(2)] .
    ultimately show ?thesis using assms(2)
      by (auto simp: agent_inv_def submit_sample_def sub None flush_mark_def taken_batches_def in_post_def)
  next
    case (Some err)
    have "bat_run b0 acc (taken_batches r) b" using bat_run.refuse [OF acc(1)] sub Some by blast
    moreover have "ins @ [s] \<in> shuffles acc (ru_dropped r @ [s])" using shuffles_snoc(2) [OF acc(2)] .
    ultimately show ?thesis using assms(2)
      by (auto simp: agent_inv_def submit_sample_def sub Some flush_mark_def taken_batches_def in_post_def)
  qed
qed

lemma batcher_steps_run:
  "bat_run b0 ins outs b \<Longrightarrow> f \<in> set batcher_steps \<Longrightarrow> f b = Some b' \<Longrightarrow> bat_run b0 ins outs b'"
  by (auto simp: batcher_steps_def intro: bat_run.intros)

lemma agent_run_inv:
  assumes "agent_run r0 ins r" and "ru_batcher r0 = b0" and "ru_main r0 = Looping" and "ru_ship r0 = Receiving"
    and "ru_sent r0 = []" and "ru_dropped r0 = []" and "batcher_wf b0" and "in_flight b0 = []"
  shows "agent_inv b0 ins r"
  using assms(1)
proof (induction rule: agent_run.induct)
  case begins
  show ?case using assms bat_run.start [of b0] by (auto simp: agent_inv_def taken_batches_def in_post_def flush_mark_def)
next
  case (collects ins r s r')
  then show ?case by (auto simp: collect_def agent_inv_def taken_batches_def in_post_def flush_mark_def split: if_splits)
next
  case (samples ins r r')
  obtain s ss where s: "ru_main r = Looping" "ru_sampleCh r = s # ss" "r' = submit_sample s (r\<lparr>ru_sampleCh := ss\<rparr>)"
    using samples.hyps(2) by (auto simp: main_sample_def split: main_phase.splits list.splits)
  show ?case using agent_inv_submit [OF samples.IH s(1)] by (simp add: s(2,3))
next
  case (hands ins r s r')
  have "r\<lparr>ru_sampleCh := ru_sampleCh r\<rparr> = r" by simp
  then show ?case using hands.hyps(2) agent_inv_submit [OF hands.IH, of s "ru_sampleCh r"]
    by (auto simp: hand_over_def split: if_splits)
next
  case (stops ins r r')
  then show ?case by (auto simp: main_done_def agent_inv_def taken_batches_def in_post_def flush_mark_def split: if_splits)
next
  case (flushes ins r r')
  obtain b where b: "ru_main r = Flushing" "bat_Flush (ru_batcher r) = Some b" "r' = r\<lparr>ru_batcher := b, ru_main := Waiting\<rparr>"
    using flushes.hyps(2) by (auto simp: main_flush_def split: if_splits)
  obtain acc where acc: "bat_run b0 acc (taken_batches r) (ru_batcher r)" "ins \<in> shuffles acc (ru_dropped r)"
    using flushes.IH b(1) by (auto simp: agent_inv_def flush_mark_def)
  show ?case using bat_run.mark [OF acc(1) b(2)] acc(2)
    by (auto simp: agent_inv_def b(3) flush_mark_def taken_batches_def in_post_def)
next
  case (waits ins r r')
  then show ?case by (auto simp: main_wait_def agent_inv_def taken_batches_def in_post_def flush_mark_def split: if_splits)
next
  case (receives ins r r')
  obtain batch b where b: "ru_ship r = Receiving" "bat_receive (ru_batcher r) = Some (batch, b)"
    "r' = r\<lparr>ru_batcher := b, ru_ship := (if batch = [] then Receiving else Posting batch)\<rparr>"
    using receives.hyps(2) by (auto simp: ship_receive_def split: if_splits)
  obtain acc where acc: "bat_run b0 (acc @ flush_mark r) (taken_batches r) (ru_batcher r)" "ins \<in> shuffles acc (ru_dropped r)"
    using receives.IH by (auto simp: agent_inv_def)
  have run: "bat_run b0 (acc @ flush_mark r) (taken_batches r @ [batch]) b" by (rule bat_run.receive [OF acc(1) b(2)])
  then have "batch \<noteq> []" using bat_run_inv [OF run assms(7,8)] by (simp add: batch_ok_def)
  then show ?case using run acc(2) b(1) by (auto simp: agent_inv_def b(3) flush_mark_def taken_batches_def in_post_def)
next
  case (posts ins r cancelled reply r')
  then show ?case
    by (auto simp: ship_send_def agent_inv_def taken_batches_def in_post_def flush_mark_def split: ship_phase.splits sum.splits prod.splits)
next
  case (leaves ins r r')
  then show ?case by (auto simp: ship_done_def agent_inv_def taken_batches_def in_post_def flush_mark_def split: if_splits)
next
  case (batches ins r f r')
  obtain b where b: "f (ru_batcher r) = Some b" "r' = r\<lparr>ru_batcher := b\<rparr>" using batches.hyps(3) by (auto simp: in_batcher_def)
  obtain acc where acc: "bat_run b0 (acc @ flush_mark r) (taken_batches r) (ru_batcher r)" "ins \<in> shuffles acc (ru_dropped r)"
    using batches.IH by (auto simp: agent_inv_def)
  show ?case using batcher_steps_run [OF acc(1) batches.hyps(2) b(1)] acc(2)
    by (auto simp: agent_inv_def b(2) flush_mark_def taken_batches_def in_post_def)
next
  case (cancels ins r)
  then show ?case using bat_run.cancel by (fastforce simp: agent_inv_def taken_batches_def in_post_def flush_mark_def)
qed

lemma agent_Run_parts:
  assumes "agent_Run compile os_Hostname (agent_New cfg) = Inr (Some r0)"
  shows "ru_batcher r0 = batcher_New \<lparr>bc_BatchSize = ac_BatchSize (cf_Agent cfg), bc_FlushEvery = sint (ac_BatchInterval (cf_Agent cfg)),
      bc_QueueSize = ac_QueueSize (cf_Agent cfg)\<rparr>"
    and "ru_main r0 = Looping" and "ru_ship r0 = Receiving" and "ru_sent r0 = []" and "ru_dropped r0 = []" and "ru_sampleCh r0 = []"
    and "ru_capacity r0 = ac_QueueSize (cf_Agent cfg)" and "0 \<le> ac_QueueSize (cf_Agent cfg)"
    and "ru_shipper r0 = shipper_New \<lparr>sc_URL = oc_URL (cf_Output cfg), sc_Timeout = sint (oc_Timeout (cf_Output cfg)), sc_RetryMax = oc_RetryMax (cf_Output cfg)\<rparr>"
  using assms
  by (auto simp: agent_Run_def agent_prepare_def agent_New_def agent_started_def startCollectors_def Let_def res_bind_eq_Inr split: if_splits)

text \<open>
  C38: every sample is in one place.  Whatever the interleaving of collectors, loops, ticker, server and
  cancellation: of the samples the agent's loop has received, those logged as dropped and those accepted are two
  subsequences that make up the whole, and until the cancellation the accepted ones are, in order and each
  once, those in the batches handed to \<^verbatim>\<open>Send\<close>, in the batch being sent and in the batcher.  Later, samples can only
  be missing from these.  No batch is empty or larger than configured.
\<close>

theorem agent_keeps_samples:
  assumes "agent_Run compile os_Hostname (agent_New cfg) = Inr (Some r0)" and "0 < ac_BatchSize (cf_Agent cfg)"
    and "agent_run r0 ins r"
  shows "\<exists>acc. ins \<in> shuffles acc (ru_dropped r) \<and>
    (\<not> b_ctxDone (ru_batcher r) \<longrightarrow> concat (taken_batches r) @ in_flight (ru_batcher r) = acc @ flush_mark r) \<and>
    subseq (concat (taken_batches r) @ in_flight (ru_batcher r)) (acc @ flush_mark r) \<and>
    (\<forall>x\<in>set (taken_batches r). x \<noteq> [] \<and> int (length x) \<le> ac_BatchSize (cf_Agent cfg))"
proof -
  note parts = agent_Run_parts [OF assms(1)]
  have inv: "agent_inv (ru_batcher r0) ins r"
    using agent_run_inv [OF assms(3) refl parts(2-5)] batcher_New_wf by (simp add: parts(1))
  then obtain acc where run: "bat_run (ru_batcher r0) (acc @ flush_mark r) (taken_batches r) (ru_batcher r)" and ins: "ins \<in> shuffles acc (ru_dropped r)"
    by (auto simp: agent_inv_def)
  have "b_batchSize (ru_batcher r0) = ac_BatchSize (cf_Agent cfg)" using assms(2) by (simp add: parts(1) batcher_New_def)
  with bat_run_inv [OF run] batcher_New_wf ins show ?thesis by (intro exI [of _ acc]) (simp add: parts(1) batch_ok_def)
qed

subsection \<open>Shutting down\<close>

text \<open>The batcher's queue is filled while its loop waits; each sample passes through the channel of the agent.\<close>

lemma agent_run_trans: "agent_run r1 ins2 r2 \<Longrightarrow> agent_run r0 ins1 r1 \<Longrightarrow> agent_run r0 (ins1 @ ins2) r2"
  by (induction rule: agent_run.induct) (auto simp flip: append_assoc intro: agent_run.intros)

lemma fill_queue:
  assumes "ru_main r = Looping" and "0 < ru_capacity r" and "ru_sampleCh r = []" and "int (length (b_sampleCh (ru_batcher r)) + n) \<le> b_queueSize (ru_batcher r)"
  shows "agent_run r (replicate n s) (r\<lparr>ru_batcher := (ru_batcher r)\<lparr>b_sampleCh := b_sampleCh (ru_batcher r) @ replicate n s\<rparr>\<rparr>)"
  using assms
proof (induction n)
  case 0
  then show ?case using agent_run.begins [of r] by simp
next
  case (Suc n)
  define r1 where "r1 = r\<lparr>ru_batcher := (ru_batcher r)\<lparr>b_sampleCh := b_sampleCh (ru_batcher r) @ replicate n s\<rparr>\<rparr>"
  have run: "agent_run r (replicate n s) r1" using Suc unfolding r1_def by simp
  have "collect s r1 = Some (r1\<lparr>ru_sampleCh := [s]\<rparr>)" using Suc.prems by (simp add: collect_def r1_def)
  note run = agent_run.collects [OF run this]
  have "main_sample (r1\<lparr>ru_sampleCh := [s]\<rparr>) = Some (r1\<lparr>ru_batcher := (ru_batcher r1)\<lparr>b_sampleCh := b_sampleCh (ru_batcher r1) @ [s]\<rparr>\<rparr>)"
    using Suc.prems by (simp add: main_sample_def submit_sample_def bat_Submit_def r1_def)
  note run = agent_run.samples [OF run this]
  then show ?case by (simp add: r1_def replicate_append_same)
qed

text \<open>Once the batcher's loop is gone with its queue full, the agent waits in \<^verbatim>\<open>Flush\<close> for ever.\<close>

lemma stuck_forever:
  assumes "agent_run r ins r'" and "ru_main r = Flushing" and "b_phase (ru_batcher r) = Stopped"
    and "\<not> int (length (b_sampleCh (ru_batcher r))) < b_queueSize (ru_batcher r)"
  shows "ru_main r' = Flushing \<and> b_phase (ru_batcher r') = Stopped \<and> \<not> int (length (b_sampleCh (ru_batcher r'))) < b_queueSize (ru_batcher r')"
  using assms
  by (induction rule: agent_run.induct)
    (auto simp: agent_ops batcher_steps_def bat_ops split: if_splits list.splits ship_phase.splits sum.splits prod.splits)

text \<open>Once the shipper's loop has returned, nothing more is sent.\<close>

lemma sent_forever:
  assumes "agent_run r ins r'" and "ru_ship r = ShipperGone"
  shows "ru_ship r' = ShipperGone \<and> ru_sent r' = ru_sent r"
  using assms
  by (induction rule: agent_run.induct)
    (auto simp: agent_ops split: if_splits list.splits main_phase.splits option.splits prod.splits)

lemma batcher_step_in: "agent_run r0 ins r \<Longrightarrow> f \<in> set batcher_steps \<Longrightarrow> f (ru_batcher r) = Some b \<Longrightarrow> agent_run r0 ins (r\<lparr>ru_batcher := b\<rparr>)"
  by (rule agent_run.batches) (auto simp: in_batcher_def)

lemma shutdown_hangs:
  assumes "agent_Run compile os_Hostname (agent_New cfg) = Inr (Some r0)" and "0 < ac_QueueSize (cf_Agent cfg)"
  shows "\<exists>ins r. agent_run r0 ins r \<and> ru_main r = Flushing \<and> b_phase (ru_batcher r) = Stopped \<and> b_ctxDone (ru_batcher r) \<and>
    \<not> int (length (b_sampleCh (ru_batcher r))) < b_queueSize (ru_batcher r)"
proof -
  note parts = agent_Run_parts [OF assms(1)]
  define n where "n = nat (b_queueSize (ru_batcher r0))"
  define b1 where "b1 = (ru_batcher r0)\<lparr>b_sampleCh := replicate n ex_sample, b_ctxDone := True\<rparr>"
  have b: "b_sampleCh (ru_batcher r0) = []" "b_phase (ru_batcher r0) = Selecting" "b_buf (ru_batcher r0) = []" "int n = b_queueSize (ru_batcher r0)"
    using assms(2) by (simp_all add: parts(1) batcher_New_def n_def)
  have "agent_run r0 (replicate n ex_sample) (r0\<lparr>ru_batcher := (ru_batcher r0)\<lparr>b_sampleCh := replicate n ex_sample\<rparr>\<rparr>)"
    using fill_queue [of r0 n ex_sample] assms(2) parts b by simp
  from agent_run.cancels [OF this] have run: "agent_run r0 (replicate n ex_sample) (r0\<lparr>ru_batcher := b1\<rparr>)" by (simp add: b1_def)
  have "loop_done b1 = Some (b1\<lparr>b_phase := Stopped\<rparr>)" using b by (simp add: b1_def loop_done_def bat_flush_def)
  with batcher_step_in [OF run, of loop_done] have run: "agent_run r0 (replicate n ex_sample) (r0\<lparr>ru_batcher := b1\<lparr>b_phase := Stopped\<rparr>\<rparr>)"
    by (simp add: batcher_steps_def)
  have "main_done (r0\<lparr>ru_batcher := b1\<lparr>b_phase := Stopped\<rparr>\<rparr>) = Some (r0\<lparr>ru_batcher := b1\<lparr>b_phase := Stopped\<rparr>, ru_main := Flushing\<rparr>)"
    using parts(2) by (simp add: main_done_def b1_def)
  from agent_run.stops [OF run this] show ?thesis
    using b(4) by (intro exI [of _ "replicate n ex_sample"] exI conjI) (auto simp: b1_def)
qed

lemma shutdown_loses:
  assumes "agent_Run compile os_Hostname (agent_New cfg) = Inr (Some r0)" and "0 < ac_QueueSize (cf_Agent cfg)" and "1 < ac_BatchSize (cf_Agent cfg)"
  shows "\<exists>r. agent_run r0 [s] r \<and> ru_main r = Returned \<and> ru_ship r = ShipperGone \<and> ru_dropped r = [] \<and> ru_sent r = []"
proof -
  note parts = agent_Run_parts [OF assms(1)]
  let ?b = "ru_batcher r0"
  have b: "b_sampleCh ?b = []" "b_batchCh ?b = []" "b_phase ?b = Selecting" "b_buf ?b = []" "0 < b_queueSize ?b" "1 < b_batchSize ?b"
    using assms(2,3) by (simp_all add: parts(1) batcher_New_def)
  have run: "agent_run r0 [s] (r0\<lparr>ru_batcher := ?b\<lparr>b_sampleCh := [s]\<rparr>\<rparr>)"
    using fill_queue [of r0 1 s] assms(2) parts b by simp
  have "loop_sample (?b\<lparr>b_sampleCh := [s]\<rparr>) = Some (?b\<lparr>b_buf := [s]\<rparr>)" using b by (simp add: loop_sample_def Let_def)
  with batcher_step_in [OF run, of loop_sample] have run: "agent_run r0 [s] (r0\<lparr>ru_batcher := ?b\<lparr>b_buf := [s]\<rparr>\<rparr>)" by (simp add: batcher_steps_def)
  define b1 where "b1 = ?b\<lparr>b_buf := [s], b_ctxDone := True\<rparr>"
  from agent_run.cancels [OF run] have run: "agent_run r0 [s] (r0\<lparr>ru_batcher := b1\<rparr>)" by (simp add: b1_def)
  define r1 where "r1 = r0\<lparr>ru_batcher := b1, ru_ship := ShipperGone\<rparr>"
  have "ship_done (r0\<lparr>ru_batcher := b1\<rparr>) = Some r1" using parts(3) by (simp add: ship_done_def b1_def r1_def)
  note run = agent_run.leaves [OF run this]
  have "main_done r1 = Some (r1\<lparr>ru_main := Flushing\<rparr>)" using parts(2) by (simp add: main_done_def r1_def b1_def)
  note run = agent_run.stops [OF run this]
  define b2 where "b2 = b1\<lparr>b_sampleCh := [flush_marker]\<rparr>"
  have "main_flush (r1\<lparr>ru_main := Flushing\<rparr>) = Some (r1\<lparr>ru_main := Waiting, ru_batcher := b2\<rparr>)"
    using b by (simp add: main_flush_def bat_Flush_def r1_def b2_def b1_def)
  note run = agent_run.flushes [OF run this]
  have "loop_done b2 = Some (b2\<lparr>b_buf := [], b_phase := Sending [s] True\<rparr>)" using b by (simp add: loop_done_def bat_flush_def b2_def b1_def)
  with batcher_step_in [OF run, of loop_done]
  have run: "agent_run r0 [s] (r1\<lparr>ru_main := Waiting, ru_batcher := b2\<lparr>b_buf := [], b_phase := Sending [s] True\<rparr>\<rparr>)" by (simp add: batcher_steps_def)
  have "bat_abandon (b2\<lparr>b_buf := [], b_phase := Sending [s] True\<rparr>) = Some (b2\<lparr>b_buf := [], b_phase := Stopped\<rparr>)"
    by (simp add: bat_abandon_def b2_def b1_def)
  with batcher_step_in [OF run, of bat_abandon]
  have run: "agent_run r0 [s] (r1\<lparr>ru_main := Waiting, ru_batcher := b2\<lparr>b_buf := [], b_phase := Stopped\<rparr>\<rparr>)" by (simp add: batcher_steps_def)
  have "main_wait (r1\<lparr>ru_main := Waiting, ru_batcher := b2\<lparr>b_buf := [], b_phase := Stopped\<rparr>\<rparr>) =
      Some (r1\<lparr>ru_main := Returned, ru_batcher := b2\<lparr>b_buf := [], b_phase := Stopped\<rparr>\<rparr>)" by (simp add: main_wait_def)
  from agent_run.waits [OF run this] parts(4,5) show ?thesis
    by (intro exI [of _ "r1\<lparr>ru_main := Returned, ru_batcher := b2\<lparr>b_buf := [], b_phase := Stopped\<rparr>\<rparr>"]) (simp add: r1_def)
qed

text \<open>
  C39: shutting down is not orderly.  With a queue and batches of more than one sample, an agent that is cancelled
  can reach a state from which \<^verbatim>\<open>Run\<close> never returns; and it can return with a sample it had accepted, and not
  reported as dropped, never sent, although the final flush is over.
\<close>

theorem agent_shutdown_fails:
  assumes "agent_Run compile os_Hostname (agent_New cfg) = Inr (Some r0)" and "0 < ac_QueueSize (cf_Agent cfg)" and "1 < ac_BatchSize (cf_Agent cfg)"
  shows "(\<exists>ins r. agent_run r0 ins r \<and> b_ctxDone (ru_batcher r) \<and> (\<forall>ins' r'. agent_run r ins' r' \<longrightarrow> ru_main r' \<noteq> Returned)) \<and>
    (\<exists>r. agent_run r0 [s] r \<and> ru_main r = Returned \<and> ru_dropped r = [] \<and> (\<forall>ins' r'. agent_run r ins' r' \<longrightarrow> ru_sent r' = []))"
proof
  show "\<exists>ins r. agent_run r0 ins r \<and> b_ctxDone (ru_batcher r) \<and> (\<forall>ins' r'. agent_run r ins' r' \<longrightarrow> ru_main r' \<noteq> Returned)"
    using shutdown_hangs [OF assms(1,2)] stuck_forever by (metis main_phase.distinct(9))
  show "\<exists>r. agent_run r0 [s] r \<and> ru_main r = Returned \<and> ru_dropped r = [] \<and> (\<forall>ins' r'. agent_run r ins' r' \<longrightarrow> ru_sent r' = [])"
    using shutdown_loses [OF assms] sent_forever by metis
qed

subsection \<open>Examples\<close>

definition no_regexp :: "string \<Rightarrow> regexp res" where
  "no_regexp p = Inl ErrSyntax"

lemma ex_started:
  "\<exists>r0. agent_Run no_regexp (Inr ''box'') (agent_New DefaultConfig) = Inr (Some r0) \<and> ru_shipper r0 = \<lparr>sh_url = ''http://localhost:8080/write'', sh_timeout = 10000000000, sh_retryMax = 3\<rparr>"
  by (simp add: agent_Run_def agent_prepare_def agent_New_def agent_started_def startCollectors_def Let_def DefaultConfig_def shipper_New_def seconds_def)

text \<open>A file with the JSON parser and one with a parser that is not known.\<close>

definition ex_tail :: FileTailConfig where
  "ex_tail = \<lparr>fc_Path = ''/var/log/app'', fc_Parser = ''json'', fc_MetricField = ''m'', fc_ValueField = ''v'', fc_TimestampField = [],
     fc_TagFields = [], fc_Pattern = [], fc_PollInterval = 1000\<rparr>"

definition ex_agent_cfg :: Config where
  "ex_agent_cfg = DefaultConfig\<lparr>cf_FileTail := [ex_tail, ex_tail\<lparr>fc_Parser := ''xml''\<rparr>]\<rparr>"

theorem agent_starts_witness:
  "\<exists>a s l. agent_prepare no_regexp (Inr ''box'') (agent_New ex_agent_cfg) = Inr (a, 100000) \<and>
    ag_collectors a = [configured_tailer no_regexp [(''host'', ''box'')] ex_tail, WatchSystem s, ListenStatsD l]"
proof -
  let ?tags = "[(''host'', ''box'')]"
  have load: "Load (\<lambda>data cfg. Inr (cfg\<lparr>cf_FileTail := cf_FileTail ex_agent_cfg\<rparr>)) False (Inr []) = Inr ex_agent_cfg"
    by (simp add: Load_def ex_agent_cfg_def DefaultConfig_def Let_def)
  have d: "cf_FileTail ex_agent_cfg = [ex_tail, ex_tail\<lparr>fc_Parser := ''xml''\<rparr>]" "yc_EnabledMetrics (cf_System ex_agent_cfg) \<noteq> []"
    "tc_Enabled (cf_StatsD ex_agent_cfg)" "\<not> kc_Enabled (cf_Docker ex_agent_cfg)"
    "ac_Hostname (cf_Agent ex_agent_cfg) = []" "ac_QueueSize (cf_Agent ex_agent_cfg) = 100000" "cf_DefaultTags ex_agent_cfg = Some []"
    by (simp_all add: ex_agent_cfg_def DefaultConfig_def)
  have p: "known_parser ex_tail" "\<not> known_parser (ex_tail\<lparr>fc_Parser := ''xml''\<rparr>)"
    "bad_pattern no_regexp ex_tail = None" "bad_pattern no_regexp (ex_tail\<lparr>fc_Parser := ''xml''\<rparr>) = None"
    by (simp_all add: known_parser_def bad_pattern_def ex_tail_def)
  have t: "?tags = store (case cf_DefaultTags ex_agent_cfg of Some tags \<Rightarrow> tags | None \<Rightarrow> []) ''host'' (agent_hostname ex_agent_cfg (Inr ''box''))"
    by (simp add: d agent_hostname_def store_def)
  have never: "\<forall>p. no_regexp p \<noteq> Inl Panic" by (simp add: no_regexp_def)
  show ?thesis
    using agent_starts [OF load never t] by (cases "agent_prepare no_regexp (Inr ''box'') (agent_New ex_agent_cfg)") (auto simp: d p List.map_filter_simps)
qed

theorem agent_keeps_samples_witness:
  "\<exists>r0 r. agent_Run no_regexp (Inr ''box'') (agent_New DefaultConfig) = Inr (Some r0) \<and> agent_run r0 [ex_sample] r \<and>
    concat (taken_batches r) @ in_flight (ru_batcher r) = [ex_sample]"
proof -
  obtain r0 where r0: "agent_Run no_regexp (Inr ''box'') (agent_New DefaultConfig) = Inr (Some r0)" using ex_started by blast
  note parts = agent_Run_parts [OF r0]
  have sizes: "ac_QueueSize (cf_Agent DefaultConfig) = 100000" "0 < ac_BatchSize (cf_Agent DefaultConfig)" by (simp_all add: DefaultConfig_def)
  define r where "r = r0\<lparr>ru_batcher := (ru_batcher r0)\<lparr>b_sampleCh := [ex_sample]\<rparr>\<rparr>"
  have b: "b_sampleCh (ru_batcher r0) = []" "b_queueSize (ru_batcher r0) = 100000" by (simp_all add: parts(1) batcher_New_def sizes(1))
  have run: "agent_run r0 [ex_sample] r"
    using fill_queue [of r0 1 ex_sample] parts(2,6,7) sizes(1) b by (simp add: r_def)
  have r: "ru_dropped r = []" "\<not> b_ctxDone (ru_batcher r)" "flush_mark r = []" using parts by (simp_all add: r_def batcher_New_def flush_mark_def)
  from agent_keeps_samples [OF r0 sizes(2) run] r have "concat (taken_batches r) @ in_flight (ru_batcher r) = [ex_sample]" by auto
  then show ?thesis using r0 run by blast
qed

theorem agent_shutdown_fails_witness:
  "\<exists>r0 r. agent_Run no_regexp (Inr ''box'') (agent_New DefaultConfig) = Inr (Some r0) \<and> agent_run r0 [ex_sample] r \<and> ru_main r = Returned \<and>
    ru_dropped r = [] \<and> ru_sent r = []"
proof -
  obtain r0 where r0: "agent_Run no_regexp (Inr ''box'') (agent_New DefaultConfig) = Inr (Some r0)" using ex_started by blast
  have sizes: "0 < ac_QueueSize (cf_Agent DefaultConfig)" "1 < ac_BatchSize (cf_Agent DefaultConfig)" by (simp_all add: DefaultConfig_def)
  obtain r where "agent_run r0 [ex_sample] r" "ru_main r = Returned" "ru_dropped r = []" "\<forall>ins' r'. agent_run r ins' r' \<longrightarrow> ru_sent r' = []"
    using agent_shutdown_fails [OF r0 sizes, of ex_sample] by blast
  then show ?thesis using r0 agent_run.begins [of r] by blast
qed

end
