(* ===== verification/Commands.thy ===== *)
theory Commands
  imports Agent Http
begin

text \<open>
  The commands \<^verbatim>\<open>cmd/chronodb\<close> and \<^verbatim>\<open>cmd/chrono-agent\<close>: how the parts are put together.  Environment variables,
  flags and the answers of the system are arguments.  The lemmas show what the server starts with, and that
  it ends by a signal only.
\<close>

subsection \<open>The server\<close>

text \<open>The process has exited, has panicked, or serves at an address.\<close>

datatype 'a process = Exits int | Panicked | Runs 'a

definition env_or :: "(string \<Rightarrow> string) \<Rightarrow> string \<Rightarrow> string \<Rightarrow> string" where
  "env_or getenv name fallback = (if getenv name \<noteq> [] then getenv name else fallback)"

definition server_config :: "(string \<Rightarrow> string) \<Rightarrow> EngineConfig" where
  "server_config getenv =
     engine_DefaultConfig\<lparr>cfg_WALPath := env_or getenv ''CHRONO_WAL_PATH'' ''data/chronodb.wal'',
       cfg_ManifestPath := env_or getenv ''CHRONO_MANIFEST_PATH'' ''data/manifest.json'',
       cfg_DataDir := env_or getenv ''CHRONO_DATA_DIR'' ''data''\<rparr>"

text \<open>
  \<open>mkdir\<close> is the result of creating the data directory; \<open>open_log\<close> opens the log at a path.
\<close>

definition chronodb_main :: "(string \<Rightarrow> string) \<Rightarrow> go_error option \<Rightarrow> (string \<Rightarrow> os_file res) \<Rightarrow> os_state \<Rightarrow> int \<Rightarrow> (string \<times> server) process" where
  "chronodb_main getenv mkdir open_log st now =
     (let addr = env_or getenv ''CHRONO_HTTP_ADDR'' '':8080''; cfg = server_config getenv in
      if mkdir \<noteq> None then Exits 1
      else case engine_New (open_log (cfg_WALPath cfg)) st now cfg of
        Inl err \<Rightarrow> if err = Panic then Panicked else Exits 1
      | Inr e \<Rightarrow> Runs (addr, NewHandler (started (SetIndex idx_New e) st) NewRegistry))"

text \<open>
  The server does not recover: whatever the log and the data directory hold, it starts with empty
  memtables, index and registry, and answers every query by no results.
\<close>

lemma server_starts_empty:
  assumes "chronodb_main getenv mkdir open_log st now = Runs (addr, sv)"
  shows "e_active (s_engine (sv_system sv)) = memtable_New" and "e_frozen (s_engine (sv_system sv)) = None"
    and "hr_Body (handleListMetrics sv) = MetricNames []"
    and "handleQuery (PQuery q) (s_engine (sv_system sv)) st' = Inr (RespResults [], query_counted (s_engine (sv_system sv)))"
proof -
  obtain e where e: "engine_New (open_log (cfg_WALPath (server_config getenv))) st now (server_config getenv) = Inr e"
    and sv: "sv = NewHandler (started (SetIndex idx_New e) st) NewRegistry"
    using assms by (auto simp: chronodb_main_def Let_def split: if_splits sum.splits)
  have fresh: "e_active e = memtable_New" "e_frozen e = None" using e by (auto simp: engine_New_def res_bind_eq_Inr Let_def split: if_splits)
  have eng: "s_engine (sv_system sv) = SetIndex idx_New e" by (simp add: sv NewHandler_def started_def)
  show "e_active (s_engine (sv_system sv)) = memtable_New" "e_frozen (s_engine (sv_system sv)) = None"
    using fresh by (simp_all add: eng SetIndex_def)
  show "hr_Body (handleListMetrics sv) = MetricNames []"
    by (simp add: handleListMetrics_def eng SetIndex_def sv NewHandler_def NewRegistry_def idx_New_def idx_ListMetrics_def reg_ListMetrics_def writeJSON_def started_def)
  show "handleQuery (PQuery q) (s_engine (sv_system sv)) st' = Inr (RespResults [], query_counted (s_engine (sv_system sv)))"
    by (simp add: handleQuery_def eng SetIndex_def idx_New_def idx_Resolve_def Let_def)
qed

text \<open>
  \<^verbatim>\<open>Serve\<close> runs the listener in a goroutine and waits for a signal: what it meets, in order, and what
  it returns, \<open>None\<close> while it waits.  An error of the listener is only logged.
\<close>

datatype serve_event = ListenFails go_error | Signalled "go_error option"

fun Serve :: "serve_event list \<Rightarrow> go_error option option" where
  "Serve [] = None"
| "Serve (ListenFails err # evs) = Serve evs"
| "Serve (Signalled shutdown # evs) = Some shutdown"

text \<open>The end of \<^verbatim>\<open>main\<close>: the engine's context is cancelled, and the process does not wait for it.\<close>

definition chronodb_ends :: "serve_event list \<Rightarrow> int option" where
  "chronodb_ends evs = (case Serve evs of None \<Rightarrow> None | Some None \<Rightarrow> Some 0 | Some (Some err) \<Rightarrow> Some 1)"

text \<open>Without a signal the process stays, with or without a listener.\<close>

lemma serve_needs_signal: "chronodb_ends evs = None \<longleftrightarrow> (\<forall>ev\<in>set evs. \<exists>err. ev = ListenFails err)"
proof -
  have "Serve evs = None \<longleftrightarrow> (\<forall>ev\<in>set evs. \<exists>err. ev = ListenFails err)" by (induction evs rule: Serve.induct) auto
  then show ?thesis by (auto simp: chronodb_ends_def split: option.splits)
qed

subsection \<open>The agent\<close>

text \<open>
  An error of the agent is logged, and the process ends as if there had been none.
\<close>

definition agent_main :: "(string \<Rightarrow> Config \<Rightarrow> Config res) \<Rightarrow> bool \<Rightarrow> string res \<Rightarrow> (string \<Rightarrow> regexp res) \<Rightarrow> string res \<Rightarrow> running process" where
  "agent_main yaml missing file compile os_Hostname =
     (case Load yaml missing file of
        Inl err \<Rightarrow> Exits 1
      | Inr cfg \<Rightarrow>
          (case agent_Run compile os_Hostname (agent_New cfg) of
             Inl err \<Rightarrow> if err = Panic then Panicked else Exits 0
           | Inr (Some r) \<Rightarrow> Runs r
           | Inr None \<Rightarrow> Panicked))"

lemma agent_main_default: "\<exists>r. agent_main yaml True file compile os_Hostname = Runs r"
  by (simp add: agent_main_def agent_Run_def agent_prepare_def agent_New_def agent_started_def startCollectors_def Let_def DefaultConfig_def)

end
