(* ===== verification/Spec2Isabelle.thy ===== *)
theory Spec2Isabelle
  imports Engine_Limits Pipeline Commands
begin

text \<open>
  ChronoDB is a time-series database in Go, with an agent that collects samples and ships them to it.

  The parts and how they interact.  The agent (\<^verbatim>\<open>internal/agent\<close>, configured by \<^verbatim>\<open>internal/config\<close>) starts
  collectors: file tailers with a line parser each (\<^verbatim>\<open>internal/collector/file_tailer.go\<close>,
  \<^verbatim>\<open>internal/transform\<close>), a StatsD listener, a reader of \<^verbatim>\<open>/proc\<close> and a Docker collector.  Their samples go through a channel to
  the batcher (\<^verbatim>\<open>internal/batcher\<close>), which gathers them into batches for the shipper (\<^verbatim>\<open>internal/shipper\<close>), which posts
  them as JSON.  The server (\<^verbatim>\<open>api/http\<close>) names the series (\<^verbatim>\<open>internal/series\<close>), enters them into the index
  (\<^verbatim>\<open>internal/index\<close>) and submits a command to the engine (\<^verbatim>\<open>internal/engine\<close>).  The engine's goroutine logs a write
  (\<^verbatim>\<open>internal/wal\<close>), inserts it into the memtable (\<^verbatim>\<open>internal/memtable\<close>) and, when that is full, freezes it and has it
  flushed to a segment (\<^verbatim>\<open>internal/segment\<close>, compressed in version 2), which the manifest (\<^verbatim>\<open>internal/manifest\<close>) then
  lists, with the offset from which the log still counts.  \<^verbatim>\<open>internal/compaction\<close> merges segments,
  \<^verbatim>\<open>internal/retention\<close> drops expired ones.  A query resolves its series in the index, collects their points
  from memtables and segments, and merges, cuts and aggregates them (\<^verbatim>\<open>internal/query\<close>).

  The library.  \<open>Go_Prelude\<close> holds machine integers, errors and panics as values (\<open>'a res\<close>), slices, maps as
  association lists in the order of a \<^verbatim>\<open>range\<close>, and the lemmas they share; \<open>Go_Binary\<close>, \<open>Go_Strings\<close>, \<open>Go_Text\<close>,
  \<open>Go_Float\<close>, \<open>Go_Strconv\<close>, \<open>Go_Json\<close> and \<open>Go_Os\<close> model what the repository uses of Go's
  standard library.  Each of them is executable and has the lemmas the components need: byte order and varints read back,
  JSON and decimal numbers parse what is printed, addition, multiplication and division of
  \<^verbatim>\<open>float64\<close> are exact and rounded once.

  The components.  One theory for each package, named after it: a record for the state of a struct, with the
  fields of the source, a function for each method, and the lemmas on it.
  \<^item> \<open>Wal\<close>: the writer with its buffer over a file of which only a prefix is synced; the reader and \<^verbatim>\<open>Replay\<close>.  What
    was synced survives a crash, a cut log replays its whole records, a damaged record ends the replay.
  \<^item> \<open>Memtable\<close>, \<open>Series\<close>, \<open>Index\<close>, \<open>Retention\<close>, \<open>Query\<close>: their operations on every branch, against reference
    definitions (points added, series with all tags, a stable sort, buckets).
  \<^item> \<open>Segment\<close> over \<open>Bitstream\<close> and \<open>Gorilla\<close>: both versions of the file format, written and read
    back; the conditions under which the compression reads back.
  \<^item> \<open>Manifest\<close>, \<open>Compaction\<close>: the atomic replacement of the manifest under failures of the device; a merge keeps
    exactly the points.
  \<^item> \<open>Engine\<close>: the handlers; \<open>Engine_Loop\<close>: the loop with its channels, goroutines, clients and clock as events of runs;
    \<open>Engine_Store\<close>: the invariant that every accepted point is stored once; \<open>Engine_Props\<close>: queries are exact, recovery
    gives a prefix, and when the engine panics; \<open>Engine_Limits\<close>: failing batches, answers, retention, and the compaction that deletes its output.
  \<^item> \<open>Http\<close> and \<open>Http_Props\<close>: handlers and routing, and that a write is seen by the next query.
  \<^item> \<open>Core\<close>, \<open>Batcher\<close>, \<open>Shipper\<close>: samples, the batcher's loop as steps that any interleaving can take, grouping and
    retries.
  \<^item> \<open>Transform\<close>, \<open>File_Tailer\<close>, \<open>Collector\<close>, \<open>Statsd\<close>, \<open>Syscollector\<close>, \<open>Docker\<close>: the collectors over what their files,
    sockets and daemons answer.
  \<^item> \<open>Config\<close>, \<open>Agent\<close>, \<open>Commands\<close>: the configuration, the running agent as steps over the batcher and shipper, and
    what the two processes start.
  \<^item> \<open>Pipeline\<close>: a batch that the shipper posts and the server takes is what queries return.

  Interfaces are locales, interpreted on the models: \<open>slice_sorter\<close> (what \<^verbatim>\<open>sort.Slice\<close> leaves open; insertion sort),
  \<open>write_buffer\<close> (memtable), \<open>append_log\<close> (log), \<open>line_parser\<close> (the \<^verbatim>\<open>Parser\<close> of the tailer; JSON and regular expressions) and
  \<open>stoppable\<close> (the \<^verbatim>\<open>Stop\<close> of the collectors).

  Concurrency.  A run is a list of events or an inductive relation of steps, each step what one goroutine
  does between two blocking operations; the theorems hold for all interleavings.  A mutex makes an operation one
  step.  A file operation of a goroutine of the engine is one step; a crash leaves the files and
  any prefix of the unsynced log.  The index is shared by the engine and the goroutines of the HTTP server without a lock in
  the code; the model has each access to it as one step, so that accesses which overlap, on which the Go runtime can end the process, are outside of it.

  Panics.  An out-of-range slice or a failed type assertion is the error \<open>Panic\<close> of \<open>'a res\<close>; it passes through the callers up to the
  outcome \<open>Panics\<close> of an event, which ends the run, as nothing in the code recovers.  A query or a compaction that reads a segment panics where the
  reader does (\<open>readSegments_loop\<close>, \<open>compaction_job\<close>).  \<open>Engine_Props\<close> shows that clean runs, which bound the instants of the
  points, never panic, and that a series of points far apart, accepted and flushed without an error, makes the next query of it panic.

  Bounds and fuel.  Integers have their width in Go, lengths are naturals where Go's \<^verbatim>\<open>int\<close> cannot overflow.  The
  JSON parser recurses on fuel, one more than twice the length of the text, and the lemma that it reads what was printed
  shows that to be enough there; the shortest decimal digits of a float are searched for up to 17, which always suffice for
  53 bits (a limit of 18 is given).  Every other loop is a total function with a termination proof or structural.
  Theorems that need sizes say so: records below 2 to the 28 points, timestamps away from the ends of
  \<^verbatim>\<open>int64\<close> where the code's comparison with \<^verbatim>\<open>MaxInt64\<close> or a sum would wrap.

  Parameters.  The environment is given to the operations: the clock, the order of a \<^verbatim>\<open>range\<close>, the order that
  an unstable sort gives to equal keys, what other goroutines do between two locks, answers of HTTP servers
  and of the Docker daemon, the YAML library, compiled regular expressions, the texts of files outside
  the database.  Hypotheses on them state documented behaviour (a sort sorts, a \<^verbatim>\<open>range\<close> visits each entry once).

  Not modelled.  Sockets, and how the HTTP server shuts down (its result is given); HTTP bodies stand for the values that
  are decoded from or encoded into them, except for the file formats, whose bytes are modelled; the HTML pages and
  the OpenAPI document are data; logging.  In JSON texts, bytes from 128 on are passed through, and only the
  white space of ASCII is trimmed.  The
  requests to the Docker daemon are events with their decoded answers.  Errors of reading the log other than
  its end, and the failing allocation of a very large number of buckets.
\<close>

end
